(* ===== verification/Prelude.thy ===== *)
theory Prelude
  imports Main "HOL-Library.Word"
begin

text \<open>
  What every component of the kernel model shares: the machine types of the Rust sources, Rust's
  \<open>Result\<close>, the slice operations the code uses (\<open>position\<close>, \<open>copy_from_slice\<close>, \<open>split\<close>), the
  contents of a ring buffer, and the two interfaces the stateful components implement: a state
  machine with an invariant, and a latch that can be closed but never reopened.

  The kernel is built for i686 with optimisation and without overflow checks, so \<open>+\<close> and \<open>-\<close> on a
  \<open>uN\<close> wrap, as they do on the words below.  An \<open>i32\<close> is an \<open>int\<close>: the code only compares process
  ids, negates error numbers and casts, and a cast from \<open>u32\<close> is written out as \<open>sint\<close>.
  A \<open>usize\<close> is a \<open>nat\<close> wherever it indexes or counts within an array of fixed size.
\<close>

unbundle bit_operations_syntax

named_theorems kconst \<open>the numeric constants of the sources\<close>

section \<open>Machine types and results\<close>

type_synonym u8 = "8 word"
type_synonym u16 = "16 word"
type_synonym u32 = "32 word"
type_synonym u64 = "64 word"
type_synonym i32 = int
type_synonym usize = nat
type_synonym bytes = "u8 list"

datatype ('a, 'e) result = Ok 'a | Err 'e

fun is_err :: "('a, 'e) result \<Rightarrow> bool" where
  "is_err (Ok _) = False"
| "is_err (Err _) = True"

text \<open>The glue functions return 0 or a negated error number to C.\<close>

fun neg_errno :: "(unit, i32) result \<Rightarrow> i32" where
  "neg_errno (Ok _) = 0"
| "neg_errno (Err e) = - e"

text \<open>A byte-string literal \<open>b"..."\<close>.\<close>

definition byte_str :: "string \<Rightarrow> bytes" where
  "byte_str s = map of_char s"

lemma length_byte_str [simp]: "length (byte_str s) = length s"
  by (simp add: byte_str_def)

lemma of_char_u8_eq: "(of_char c :: u8) = of_char d \<longleftrightarrow> c = d"
proof
  assume eq: "(of_char c :: u8) = of_char d"
  have n: "(of_char e :: u8) = of_nat (of_char e)" for e by (simp add: of_nat_of_char)
  have "(of_char c :: nat) = of_char d"
    using arg_cong [OF eq, of unat] unfolding n by (simp add: unat_of_nat take_bit_nat_eq_self)
  then show "c = d" by simp
qed simp

lemma byte_str_eq [simp]: "byte_str s = byte_str t \<longleftrightarrow> s = t"
  unfolding byte_str_def by (rule inj_map_eq_map) (simp add: inj_on_def of_char_u8_eq)

text \<open>Saturating arithmetic on \<open>u8\<close> and \<open>u16\<close>.\<close>

definition saturating_add :: "'a::len word \<Rightarrow> 'a word \<Rightarrow> 'a word" where
  "saturating_add a b = (if unat a + unat b < 2 ^ LENGTH('a) then a + b else - 1)"

lemma saturating_add_code [code]:
  "saturating_add a b = (if uint a + uint b < 2 ^ LENGTH('a) then a + b else - 1)" for a b :: "'a::len word"
proof -
  have "uint a + uint b < 2 ^ LENGTH('a) \<longleftrightarrow> int (unat a + unat b) < int (2 ^ LENGTH('a))" by simp
  then show ?thesis by (simp only: saturating_add_def of_nat_less_iff)
qed

definition saturating_sub :: "'a::len word \<Rightarrow> 'a word \<Rightarrow> 'a word" where
  "saturating_sub a b = (if b \<le> a then a - b else 0)"

lemma unat_of_nat_small: "n < 2 ^ LENGTH('a) \<Longrightarrow> unat (of_nat n :: 'a::len word) = n"
  by (simp add: unat_of_nat)

lemma unat_bound: "unat (w :: 'a::len word) < 2 ^ LENGTH('a)"
  by (rule unsigned_less)

lemma word_unat_eq: "a = b \<longleftrightarrow> unat a = unat (b :: 'a::len word)"
  by (auto dest: unsigned_word_eqI)

lemma word_numeral_le_1 [simp]: "(numeral k :: 'a::len word) \<le> 1 \<longleftrightarrow> unat (numeral k :: 'a word) \<le> 1"
  by (simp add: word_le_nat_alt)

text \<open>An increment below some other word does not wrap.\<close>

lemma unat_inc: "a < b \<Longrightarrow> unat (a + 1 :: 'a::len word) = unat a + 1"
proof -
  assume "a < b"
  then have "unat a + 1 < 2 ^ LENGTH('a)"
    using le_less_trans [OF _ unat_bound [of b], of "unat a + 1"] by (simp add: word_less_nat_alt)
  then show "unat (a + 1) = unat a + 1" by (simp add: unat_word_ariths)
qed

lemma unat_mult_small: "unat a * unat b < 2 ^ LENGTH('a) \<Longrightarrow> unat (a * b :: 'a::len word) = unat a * unat b"
  by (simp add: unat_word_ariths)

lemma unat_add_small: "unat a + unat b < 2 ^ LENGTH('a) \<Longrightarrow> unat (a + b :: 'a::len word) = unat a + unat b"
  by (simp add: unat_word_ariths)

text \<open>A widening cast keeps the value.\<close>

lemma unat_ucast_up:
  assumes "LENGTH('a) \<le> LENGTH('b)"
  shows "unat (ucast (w :: 'a::len word) :: 'b::len word) = unat w"
proof -
  have "unat w < 2 ^ LENGTH('b)"
    using unat_bound [of w] assms by (meson less_le_trans one_le_numeral power_increasing)
  then show ?thesis by (simp add: unsigned_ucast_eq take_bit_nat_eq_self)
qed

section \<open>ASCII classes\<close>

definition is_ascii_digit :: "u8 \<Rightarrow> bool" where
  "is_ascii_digit b \<longleftrightarrow> 0x30 \<le> b \<and> b \<le> 0x39"

definition is_ascii_lowercase :: "u8 \<Rightarrow> bool" where
  "is_ascii_lowercase b \<longleftrightarrow> 0x61 \<le> b \<and> b \<le> 0x7A"

definition is_ascii_uppercase :: "u8 \<Rightarrow> bool" where
  "is_ascii_uppercase b \<longleftrightarrow> 0x41 \<le> b \<and> b \<le> 0x5A"

definition is_ascii_alphanumeric :: "u8 \<Rightarrow> bool" where
  "is_ascii_alphanumeric b \<longleftrightarrow> is_ascii_digit b \<or> is_ascii_lowercase b \<or> is_ascii_uppercase b"

section \<open>Slices\<close>

text \<open>\<open>iter().position(p)\<close>: the index of the first element that satisfies the predicate.\<close>

fun position :: "('a \<Rightarrow> bool) \<Rightarrow> 'a list \<Rightarrow> usize option" where
  "position P [] = None"
| "position P (x # xs) = (if P x then Some 0 else map_option Suc (position P xs))"

lemma position_Some:
  "position P xs = Some i \<longleftrightarrow> i < length xs \<and> P (xs ! i) \<and> (\<forall>j < i. \<not> P (xs ! j))"
proof (induction xs arbitrary: i)
  case Nil
  then show ?case by simp
next
  case (Cons x xs)
  show ?case
  proof (cases i)
    case 0
    then show ?thesis by auto
  next
    case (Suc k)
    then show ?thesis using Cons.IH [of k] by (auto simp: All_less_Suc2)
  qed
qed

lemma position_None: "position P xs = None \<longleftrightarrow> (\<forall>x \<in> set xs. \<not> P x)"
  by (induction xs) auto

lemma position_SomeD:
  assumes "position P xs = Some i"
  shows "i < length xs" and "P (xs ! i)" and "j < i \<Longrightarrow> \<not> P (xs ! j)"
  using assms by (auto simp: position_Some)

lemma position_exists: "x \<in> set xs \<Longrightarrow> P x \<Longrightarrow> \<exists>i. position P xs = Some i"
  using position_None [of P xs] by (cases "position P xs") auto

lemma position_snoc: "position P xs = None \<Longrightarrow> position P (xs @ [x]) = (if P x then Some (length xs) else None)"
  by (induction xs) (auto split: if_splits)

lemma position_replicate: "position P (replicate n x) = (if 0 < n \<and> P x then Some 0 else None)"
  by (induction n) auto

lemma position_cong: "xs = ys \<Longrightarrow> (\<And>x. x \<in> set ys \<Longrightarrow> P x = Q x) \<Longrightarrow> position P xs = position Q ys"
  by (induction ys arbitrary: xs) auto

lemma position_update_same: "P x = P (xs ! i) \<Longrightarrow> position P (xs[i := x]) = position P xs"
proof (induction xs arbitrary: i)
  case Nil
  show ?case by simp
next
  case (Cons y ys)
  then show ?case by (cases i) auto
qed

lemma position_map: "position P (map f xs) = position (\<lambda>x. P (f x)) xs"
  by (induction xs) auto

lemma position_unique:
  assumes "i < length xs" and "P (xs ! i)"
    and "\<And>j. j < length xs \<Longrightarrow> P (xs ! j) \<Longrightarrow> j = i"
  shows "position P xs = Some i"
proof -
  have "\<not> P (xs ! j)" if "j < i" for j
    using assms(1) assms(3) [of j] that by auto
  with assms(1,2) show ?thesis by (simp add: position_Some)
qed

text \<open>\<open>iter().filter(p).count()\<close>.\<close>

definition count_if :: "('a \<Rightarrow> bool) \<Rightarrow> 'a list \<Rightarrow> nat" where
  "count_if P xs = length (filter P xs)"

lemma count_if_simps [simp]:
  "count_if P [] = 0"
  "count_if P (x # xs) = (if P x then Suc (count_if P xs) else count_if P xs)"
  by (simp_all add: count_if_def)

lemma count_if_replicate: "count_if P (replicate n x) = (if P x then n else 0)"
  by (induction n) auto

lemma count_if_le_length: "count_if P xs \<le> length xs"
  by (simp add: count_if_def)

lemma count_if_eq_0: "count_if P xs = 0 \<longleftrightarrow> (\<forall>x \<in> set xs. \<not> P x)"
  by (induction xs) auto

lemma count_if_cong: "(\<And>x. x \<in> set xs \<Longrightarrow> P x = Q x) \<Longrightarrow> count_if P xs = count_if Q xs"
  by (induction xs) auto

lemma count_if_mono: "(\<And>x. x \<in> set xs \<Longrightarrow> P x \<Longrightarrow> Q x) \<Longrightarrow> count_if P xs \<le> count_if Q xs"
  by (induction xs) (auto intro: le_SucI)

lemma count_if_update:
  assumes "i < length xs"
  shows "count_if P (xs[i := x]) + of_bool (P (xs ! i)) = count_if P xs + of_bool (P x)"
  using assms
proof (induction xs arbitrary: i)
  case Nil
  then show ?case by simp
next
  case (Cons y ys)
  show ?case
  proof (cases i)
    case 0
    then show ?thesis by simp
  next
    case (Suc k)
    with Cons.prems have "count_if P (ys[k := x]) + of_bool (P (ys ! k)) = count_if P ys + of_bool (P x)"
      by (intro Cons.IH) simp
    with Suc show ?thesis by simp
  qed
qed

lemma count_if_map: "count_if P (map f xs) = count_if (P \<circ> f) xs"
  by (induction xs) auto

lemma count_if_pos: "i < length xs \<Longrightarrow> P (xs ! i) \<Longrightarrow> 0 < count_if P xs"
  using count_if_eq_0 [of P xs] nth_mem [of i xs] by (cases "count_if P xs") auto

text \<open>A loop that returns the first error.\<close>

fun first_err :: "('a \<Rightarrow> string option) \<Rightarrow> 'a list \<Rightarrow> string option" where
  "first_err f [] = None"
| "first_err f (x # xs) = (case f x of Some e \<Rightarrow> Some e | None \<Rightarrow> first_err f xs)"

lemma first_err_None: "first_err f xs = None \<longleftrightarrow> (\<forall>x \<in> set xs. f x = None)"
  by (induction xs) (auto split: option.splits)

text \<open>The elements that satisfy a predicate have different keys.\<close>

definition uniq :: "('a \<Rightarrow> 'b) \<Rightarrow> ('a \<Rightarrow> bool) \<Rightarrow> 'a list \<Rightarrow> bool" where
  "uniq f P xs \<longleftrightarrow> distinct (map f (filter P xs))"

lemma uniq_simps [simp]:
  "uniq f P []"
  "uniq f P (x # xs) \<longleftrightarrow> (P x \<longrightarrow> (\<forall>y \<in> set xs. P y \<longrightarrow> f y \<noteq> f x)) \<and> uniq f P xs"
  by (auto simp: uniq_def image_iff)

lemma uniq_nth:
  "uniq f P xs \<longleftrightarrow> (\<forall>i < length xs. \<forall>j < length xs. P (xs ! i) \<longrightarrow> P (xs ! j) \<longrightarrow> f (xs ! i) = f (xs ! j) \<longrightarrow> i = j)"
proof (induction xs)
  case Nil
  show ?case by simp
next
  case (Cons x xs)
  show ?case
    unfolding uniq_simps Cons.IH all_set_conv_all_nth
    by (simp add: All_less_Suc2 eq_commute [of "f x"]) blast
qed

lemma uniq_update:
  assumes "uniq f P xs" and "P x \<Longrightarrow> (\<forall>j < length xs. j \<noteq> i \<longrightarrow> P (xs ! j) \<longrightarrow> f (xs ! j) \<noteq> f x)"
  shows "uniq f P (xs[i := x])"
  unfolding uniq_nth
proof (intro allI impI)
  fix a b
  assume ab: "a < length (xs[i := x])" "b < length (xs[i := x])" "P (xs[i := x] ! a)" "P (xs[i := x] ! b)"
    "f (xs[i := x] ! a) = f (xs[i := x] ! b)"
  show "a = b"
  proof (cases "a = i \<or> b = i")
    case True
    with ab assms(2) show ?thesis by (auto simp: nth_list_update split: if_splits)
  next
    case False
    with ab have "P (xs ! a)" "P (xs ! b)" "f (xs ! a) = f (xs ! b)" by simp_all
    with ab assms(1) show ?thesis by (simp add: uniq_nth)
  qed
qed

lemma uniq_update_same:
  "uniq f P xs \<Longrightarrow> P x = P (xs ! i) \<Longrightarrow> f x = f (xs ! i) \<Longrightarrow> uniq f P (xs[i := x])"
proof -
  assume "P x = P (xs ! i)" and "f x = f (xs ! i)"
  then have "map f (filter P (xs[i := x])) = map f (filter P xs)"
  proof (induction xs arbitrary: i)
    case Nil
    show ?case by simp
  next
    case (Cons y ys)
    then show ?case by (cases i) auto
  qed
  then show "uniq f P xs \<Longrightarrow> uniq f P (xs[i := x])" by (simp add: uniq_def)
qed

lemma uniq_none: "(\<forall>x \<in> set xs. \<not> P x) \<Longrightarrow> uniq f P xs"
  by (simp add: uniq_def filter_False)

lemma uniq_map:
  assumes "uniq f P xs" and "\<And>x. x \<in> set xs \<Longrightarrow> P (g x) \<Longrightarrow> P x \<and> f (g x) = f x"
  shows "uniq f P (map g xs)"
  using assms unfolding uniq_nth by simp

text \<open>\<open>dst[..src.len()].copy_from_slice(src)\<close>: overwrite a prefix, keep the tail.\<close>

definition copy_prefix :: "'a list \<Rightarrow> 'a list \<Rightarrow> 'a list" where
  "copy_prefix src dst = src @ drop (length src) dst"

lemma length_copy_prefix [simp]:
  "length src \<le> length dst \<Longrightarrow> length (copy_prefix src dst) = length dst"
  by (simp add: copy_prefix_def)

lemma take_copy_prefix [simp]: "n = length src \<Longrightarrow> take n (copy_prefix src dst) = src"
  by (simp add: copy_prefix_def)

text \<open>\<open>slice.split(|&b| b == sep)\<close>: always at least one piece.\<close>

fun split_on :: "'a \<Rightarrow> 'a list \<Rightarrow> 'a list list" where
  "split_on sep [] = [[]]"
| "split_on sep (x # xs) =
     (if x = sep then [] # split_on sep xs
      else case split_on sep xs of [] \<Rightarrow> [[x]] | p # ps \<Rightarrow> (x # p) # ps)"

lemma split_on_nonempty [simp]: "split_on sep xs \<noteq> []"
  by (induction xs) (auto split: list.splits)

lemma split_on_no_sep: "p \<in> set (split_on sep xs) \<Longrightarrow> sep \<notin> set p"
  by (induction xs arbitrary: p) (auto split: list.splits if_splits)

lemma set_update_iff:
  "i < length xs \<Longrightarrow> y \<in> set (xs[i := x]) \<longleftrightarrow> y = x \<or> (\<exists>j < length xs. j \<noteq> i \<and> xs ! j = y)"
  by (auto simp: in_set_conv_nth nth_list_update)

lemma filter_after_sorted:
  fixes f :: "'a \<Rightarrow> 'b::linorder"
  assumes "sorted_wrt (\<lambda>x y. f x < f y) xs" and "k < length xs"
  shows "filter (\<lambda>x. f (xs ! k) < f x) xs = drop (Suc k) xs"
proof -
  have "filter (\<lambda>x. f (xs ! k) < f x) (take (Suc k) xs @ drop (Suc k) xs) = drop (Suc k) xs"
    unfolding filter_append
  proof -
    have "f x \<le> f (xs ! k)" if "x \<in> set (take (Suc k) xs)" for x
    proof -
      from that obtain i where "i \<le> k" "x = xs ! i"
        using assms(2) by (auto simp: in_set_conv_nth less_Suc_eq_le)
      with assms show ?thesis
        by (cases "i = k") (auto simp: sorted_wrt_iff_nth_less intro: less_imp_le)
    qed
    then have "filter (\<lambda>x. f (xs ! k) < f x) (take (Suc k) xs) = []"
      by (auto simp: filter_empty_conv leD)
    moreover have "f (xs ! k) < f x" if "x \<in> set (drop (Suc k) xs)" for x
    proof -
      from that obtain i where "Suc k + i < length xs" "x = xs ! (Suc k + i)"
        by (metis in_set_conv_nth add.commute length_drop less_diff_conv nth_drop
            assms(2) Suc_leI)
      with assms show ?thesis by (auto simp: sorted_wrt_iff_nth_less)
    qed
    then have "filter (\<lambda>x. f (xs ! k) < f x) (drop (Suc k) xs) = drop (Suc k) xs"
      by simp
    ultimately show "filter (\<lambda>x. f (xs ! k) < f x) (take (Suc k) xs)
        @ filter (\<lambda>x. f (xs ! k) < f x) (drop (Suc k) xs) = drop (Suc k) xs"
      by simp
  qed
  then show ?thesis by simp
qed

lemma list_all_update: "list_all P xs \<Longrightarrow> P x \<Longrightarrow> list_all P (xs[i := x])"
  by (auto simp: list_all_iff dest!: set_update_subset_insert [THEN subsetD])

lemma list_all_tl: "list_all P xs \<Longrightarrow> list_all P (tl xs)"
  by (cases xs) auto

lemma tl_snoc_nth: "Suc i < length xs \<Longrightarrow> (tl xs @ [x]) ! i = xs ! Suc i"
  by (simp add: nth_append nth_tl less_diff_conv)

lemma sorted_wrt_filter: "sorted_wrt R xs \<Longrightarrow> sorted_wrt R (filter P xs)"
  by (induction xs) auto

section \<open>Ring buffers\<close>

text \<open>
  The contents of a ring: \<open>n\<close> cells from \<open>start\<close>, wrapping at the end of the array.
\<close>

definition ring_window :: "'a list \<Rightarrow> usize \<Rightarrow> usize \<Rightarrow> 'a list" where
  "ring_window buf start n = map (\<lambda>i. buf ! ((start + i) mod length buf)) [0..<n]"

lemma length_ring_window [simp]: "length (ring_window buf start n) = n"
  by (simp add: ring_window_def)

lemma ring_window_0 [simp]: "ring_window buf start 0 = []"
  by (simp add: ring_window_def)

lemma ring_window_nth: "i < n \<Longrightarrow> ring_window buf start n ! i = buf ! ((start + i) mod length buf)"
  by (simp add: ring_window_def)

lemma mod_add_inj:
  fixes i j m s :: nat
  assumes "(s + i) mod m = (s + j) mod m" and "i < m" and "j < m"
  shows "i = j"
proof (cases "i \<le> j")
  case True
  with assms(1) have "m dvd (s + j) - (s + i)"
    by (metis add_le_cancel_left mod_eq_dvd_iff_nat)
  with True assms(3) show ?thesis by (auto dest: dvd_imp_le)
next
  case False
  with assms(1) have "m dvd (s + i) - (s + j)"
    by (metis add_le_cancel_left mod_eq_dvd_iff_nat nat_le_linear)
  with False assms(2) show ?thesis by (auto dest: dvd_imp_le)
qed

text \<open>Writing the cell behind the window extends it.\<close>

lemma ring_window_push:
  assumes "n < length buf"
  shows "ring_window (buf[(start + n) mod length buf := x]) start (Suc n) = ring_window buf start n @ [x]"
proof (rule nth_equalityI)
  fix i
  assume "i < length (ring_window (buf[(start + n) mod length buf := x]) start (Suc n))"
  then have i: "i < Suc n" by simp
  have lt: "(start + n) mod length buf < length buf"
    using assms by (intro mod_less_divisor) auto
  show "ring_window (buf[(start + n) mod length buf := x]) start (Suc n) ! i
      = (ring_window buf start n @ [x]) ! i"
  proof (cases "i = n")
    case True
    then show ?thesis using lt by (simp add: ring_window_nth nth_append)
  next
    case False
    with i have "i < n" by simp
    moreover have "(start + i) mod length buf \<noteq> (start + n) mod length buf"
      using mod_add_inj [of start i "length buf" n] assms \<open>i < n\<close> by auto
    ultimately show ?thesis using i by (simp add: ring_window_nth nth_append)
  qed
qed simp

text \<open>Overwriting the oldest cell of a full ring and moving on drops the oldest element.\<close>

lemma ring_window_push_full:
  assumes "start < length buf"
  shows "ring_window (buf[start := x]) ((start + 1) mod length buf) (length buf)
       = tl (ring_window buf start (length buf)) @ [x]"
proof (rule nth_equalityI)
  have len: "0 < length buf" using assms by (cases buf) auto
  show "length (ring_window (buf[start := x]) ((start + 1) mod length buf) (length buf))
      = length (tl (ring_window buf start (length buf)) @ [x])"
    using len by simp
  fix i
  assume "i < length (ring_window (buf[start := x]) ((start + 1) mod length buf) (length buf))"
  then have i: "i < length buf" by simp
  have shift: "((start + 1) mod length buf + i) mod length buf = (start + Suc i) mod length buf"
    by (simp add: mod_simps)
  show "ring_window (buf[start := x]) ((start + 1) mod length buf) (length buf) ! i
      = (tl (ring_window buf start (length buf)) @ [x]) ! i"
  proof (cases "Suc i = length buf")
    case True
    then have "(start + Suc i) mod length buf = start" using assms by simp
    moreover have "i = length buf - Suc 0" using True by simp
    ultimately show ?thesis using i shift assms by (simp add: ring_window_nth nth_append)
  next
    case False
    with i have Suc_i: "Suc i < length buf" by simp
    have "(start + Suc i) mod length buf \<noteq> (start + 0) mod length buf"
      using mod_add_inj [of start "Suc i" "length buf" 0] Suc_i len by auto
    then have "(start + Suc i) mod length buf \<noteq> start" using assms by simp
    then have "ring_window (buf[start := x]) ((start + 1) mod length buf) (length buf) ! i
        = buf ! ((start + Suc i) mod length buf)"
      using i by (simp only: ring_window_nth length_list_update shift nth_list_update_neq)
    moreover have "(tl (ring_window buf start (length buf)) @ [x]) ! i = ring_window buf start (length buf) ! Suc i"
      using Suc_i by (simp add: tl_snoc_nth)
    ultimately show ?thesis using Suc_i by (simp only: ring_window_nth)
  qed
qed

text \<open>Advancing the start by \<open>k\<close> drops the \<open>k\<close> oldest elements.\<close>

lemma ring_window_advance:
  assumes "k \<le> n"
  shows "ring_window buf ((start + k) mod length buf) (n - k) = drop k (ring_window buf start n)"
proof (rule nth_equalityI)
  fix i
  assume "i < length (ring_window buf ((start + k) mod length buf) (n - k))"
  then have i: "i < n - k" by simp
  have "((start + k) mod length buf + i) mod length buf = (start + (k + i)) mod length buf"
    by (simp only: mod_add_left_eq add.assoc)
  then have "ring_window buf ((start + k) mod length buf) (n - k) ! i = ring_window buf start n ! (k + i)"
    using i by (simp only: ring_window_nth less_diff_conv2 assms add.commute less_diff_conv)
  then show "ring_window buf ((start + k) mod length buf) (n - k) ! i
      = drop k (ring_window buf start n) ! i"
    using assms by simp
qed (use assms in simp)

lemma ring_window_Suc: "ring_window buf start (Suc n) = ring_window buf start n @ [buf ! ((start + n) mod length buf)]"
  by (simp add: ring_window_def)

lemma take_ring_window: "k \<le> n \<Longrightarrow> take k (ring_window buf start n) = ring_window buf start k"
  by (simp add: ring_window_def take_map take_upt)

lemma ring_window_outside:
  assumes "n \<le> m" and "m < length buf"
  shows "ring_window (buf[(start + m) mod length buf := x]) start n = ring_window buf start n"
proof (rule nth_equalityI)
  fix i
  assume "i < length (ring_window (buf[(start + m) mod length buf := x]) start n)"
  then have "i < n" by simp
  moreover have "(start + i) mod length buf \<noteq> (start + m) mod length buf"
    using mod_add_inj [of start i "length buf" m] assms \<open>i < n\<close> by auto
  ultimately show "ring_window (buf[(start + m) mod length buf := x]) start n ! i = ring_window buf start n ! i"
    by (simp add: ring_window_nth)
qed simp

text \<open>
  The contract of a bounded log that overwrites its oldest record when it is full.  Its client's
  question is what a run of appends leaves in it: the last \<open>cap\<close> records, in order.
\<close>

locale bounded_log =
  fixes cap :: nat
    and empty :: 's
    and push :: "'a \<Rightarrow> 's \<Rightarrow> 's"
    and contents :: "'s \<Rightarrow> 'b list"
    and rec :: "'a \<Rightarrow> 'b"
    and invar :: "'s \<Rightarrow> bool"
  assumes cap_pos: "0 < cap"
    and contents_empty: "contents empty = []"
    and contents_push: "invar s \<Longrightarrow> contents (push x s)
          = (if length (contents s) < cap then contents s else tl (contents s)) @ [rec x]"
    and length_contents: "invar s \<Longrightarrow> length (contents s) \<le> cap"
    and invar_empty: "invar empty"
    and invar_push: "invar s \<Longrightarrow> invar (push x s)"
begin

lemma invar_fold: "invar s \<Longrightarrow> invar (fold push xs s)"
  by (induction xs arbitrary: s) (auto intro: invar_push)

lemma contents_fold:
  "contents (fold push xs empty) = drop (length xs - cap) (map rec xs)"
proof (induction xs rule: rev_induct)
  case Nil
  show ?case by (simp add: contents_empty)
next
  case (snoc x xs)
  have inv: "invar (fold push xs empty)"
    by (rule invar_fold) (rule invar_empty)
  show ?case
  proof (cases "length xs < cap")
    case True
    then show ?thesis using snoc.IH by (simp add: contents_push [OF inv])
  next
    case False
    then have "tl (drop (length xs - cap) (map rec xs)) @ [rec x]
        = drop (Suc (length xs) - cap) (map rec xs @ [rec x])"
      using length_contents [OF inv] cap_pos by (auto simp: Suc_diff_le drop_Suc tl_drop snoc.IH)
    with False show ?thesis
      using snoc.IH by (simp add: contents_push [OF inv])
  qed
qed

end

section \<open>State machines\<close>

text \<open>
  The states a component can be in: those its operations reach from the initial state, where
  \<open>ok\<close> says which calls its caller may make.
\<close>

inductive reachable :: "('op \<Rightarrow> bool) \<Rightarrow> ('op \<Rightarrow> 's \<Rightarrow> 's) \<Rightarrow> 's \<Rightarrow> 's \<Rightarrow> bool"
  for ok :: "'op \<Rightarrow> bool" and step :: "'op \<Rightarrow> 's \<Rightarrow> 's" and init :: 's where
  reachable_init: "reachable ok step init init"
| reachable_step: "reachable ok step init s \<Longrightarrow> ok op \<Longrightarrow> reachable ok step init (step op s)"

lemma reachable_fold:
  "list_all ok ops \<Longrightarrow> reachable ok step init s \<Longrightarrow> reachable ok step init (fold step ops s)"
  by (induction ops arbitrary: s) (auto intro: reachable.intros)

text \<open>The contract of a component with an invariant: it starts in it and every call keeps it.\<close>

locale invariant_machine =
  fixes ok :: "'op \<Rightarrow> bool"
    and step :: "'op \<Rightarrow> 's \<Rightarrow> 's"
    and init :: 's
    and inv :: "'s \<Rightarrow> bool"
  assumes inv_init: "inv init"
    and inv_step: "inv s \<Longrightarrow> ok op \<Longrightarrow> inv (step op s)"
begin

lemma reachable_inv: "reachable ok step init s \<Longrightarrow> inv s"
  by (induction rule: reachable.induct) (auto intro: inv_init inv_step)

lemma run_inv: "list_all ok ops \<Longrightarrow> inv (fold step ops init)"
  by (rule reachable_inv, rule reachable_fold) (auto intro: reachable.intros)

end

text \<open>
  The contract of a one-way switch (the policy freeze of the access-control module, the lock of
  the firewall): once it is on no call turns it off, and what it protects no longer changes.
\<close>

locale latch =
  fixes ok :: "'op \<Rightarrow> bool"
    and step :: "'op \<Rightarrow> 's \<Rightarrow> 's"
    and latched :: "'s \<Rightarrow> bool"
    and protected :: "'s \<Rightarrow> 'p"
  assumes latched_step: "latched s \<Longrightarrow> ok op \<Longrightarrow> latched (step op s)"
    and protected_step: "latched s \<Longrightarrow> ok op \<Longrightarrow> protected (step op s) = protected s"
begin

lemma latched_forever:
  "reachable ok step s t \<Longrightarrow> latched s \<Longrightarrow> latched t \<and> protected t = protected s"
  by (induction rule: reachable.induct) (simp_all add: latched_step protected_step)

end

end
