(* ===== verification/Klog.thy ===== *)
theory Klog
  imports Prelude
begin

text \<open>
  The structured kernel log (\<open>src/kernel/rust/klog.rs\<close>): a ring of 256 records that overwrites its
  oldest record when it is full, the filtered and resumable query over it, and the functions the C
  kernel calls.  A pointer argument is an option (\<open>None\<close> is NULL) over the slice it points to.
\<close>

section \<open>Data\<close>

definition KLOG_CAPACITY :: usize where [kconst]: "KLOG_CAPACITY = 256"
definition KLOG_FACILITY_MAX :: usize where [kconst]: "KLOG_FACILITY_MAX = 16"
definition KLOG_MSG_MAX :: usize where [kconst]: "KLOG_MSG_MAX = 128"

abbreviation KLOG_SEV_ERR :: u32 where "KLOG_SEV_ERR \<equiv> 3"
abbreviation KLOG_SEV_WARN :: u32 where "KLOG_SEV_WARN \<equiv> 4"
abbreviation KLOG_SEV_NOTICE :: u32 where "KLOG_SEV_NOTICE \<equiv> 5"
abbreviation KLOG_SEV_INFO :: u32 where "KLOG_SEV_INFO \<equiv> 6"
abbreviation KLOG_SEV_DEBUG :: u32 where "KLOG_SEV_DEBUG \<equiv> 7"
abbreviation KLOG_SEV_ANY :: u32 where "KLOG_SEV_ANY \<equiv> 0xFFFFFFFF"

record klog_entry =
  seq :: u64
  timestamp_ticks :: u32
  pid :: u32
  severity :: u32
  facility :: bytes
  msg :: bytes

definition klog_entry_empty :: klog_entry where
  "klog_entry_empty = \<lparr>seq = 0, timestamp_ticks = 0, pid = 0, severity = KLOG_SEV_INFO,
     facility = replicate KLOG_FACILITY_MAX 0, msg = replicate KLOG_MSG_MAX 0\<rparr>"

record klog_ring =
  entries :: "klog_entry list"
  head :: usize
  tail :: usize
  count :: usize
  next_seq :: u64
  dropped_count :: u64
  total_logged :: u64

definition klog_ring_new :: klog_ring where
  "klog_ring_new = \<lparr>entries = replicate KLOG_CAPACITY klog_entry_empty, head = 0, tail = 0, count = 0,
     next_seq = 1, dropped_count = 0, total_logged = 0\<rparr>"

section \<open>Operations\<close>

text \<open>\<open>KlogRing::append\<close>: the copies stop one byte short of the field, so it stays NUL-terminated.\<close>

definition klog_append ::
  "u32 \<Rightarrow> bytes \<Rightarrow> bytes \<Rightarrow> u32 \<Rightarrow> u32 \<Rightarrow> klog_ring \<Rightarrow> u64 \<times> klog_ring" where
  "klog_append sev fac m p ticks r =
    (let s = next_seq r;
         r1 = r\<lparr>next_seq := next_seq r + 1, total_logged := total_logged r + 1\<rparr>;
         fac_len = (if length fac < KLOG_FACILITY_MAX - 1 then length fac else KLOG_FACILITY_MAX - 1);
         msg_len = (if length m < KLOG_MSG_MAX - 1 then length m else KLOG_MSG_MAX - 1);
         entry = \<lparr>seq = s, timestamp_ticks = ticks, pid = p, severity = sev,
                  facility = copy_prefix (take fac_len fac) (replicate KLOG_FACILITY_MAX 0),
                  msg = copy_prefix (take msg_len m) (replicate KLOG_MSG_MAX 0)\<rparr>
     in if count r1 = KLOG_CAPACITY
        then (s, r1\<lparr>entries := (entries r1)[head r1 := entry],
                    head := (head r1 + 1) mod KLOG_CAPACITY,
                    tail := (tail r1 + 1) mod KLOG_CAPACITY,
                    dropped_count := dropped_count r1 + 1\<rparr>)
        else (s, r1\<lparr>entries := (entries r1)[head r1 := entry],
                    head := (head r1 + 1) mod KLOG_CAPACITY,
                    count := count r1 + 1\<rparr>))"

text \<open>The facility test inside \<open>KlogRing::read\<close>: every byte of the filter, then a NUL.\<close>

definition facility_matched :: "klog_entry \<Rightarrow> bytes \<Rightarrow> bool" where
  "facility_matched e f =
    (let matched = list_all (\<lambda>j. \<not> (j \<ge> KLOG_FACILITY_MAX \<or> facility e ! j \<noteq> f ! j)) [0..<length f]
     in if matched \<and> length f < KLOG_FACILITY_MAX \<and> facility e ! length f \<noteq> 0 then False else matched)"

text \<open>The loop of \<open>KlogRing::read\<close> over the positions \<open>is\<close> still to visit.\<close>

fun klog_read_loop ::
  "klog_ring \<Rightarrow> u64 \<Rightarrow> u32 \<Rightarrow> bytes \<Rightarrow> usize list \<Rightarrow> usize \<Rightarrow> u64 \<Rightarrow> klog_entry list
    \<Rightarrow> usize \<times> u64 \<times> klog_entry list" where
  "klog_read_loop r start_seq max_severity filt [] written highest out = (written, highest, out)"
| "klog_read_loop r start_seq max_severity filt (i # is) written highest out =
    (let entry = entries r ! ((tail r + i) mod KLOG_CAPACITY) in
     if start_seq > 0 \<and> seq entry < start_seq
     then klog_read_loop r start_seq max_severity filt is written highest out
     else if max_severity \<le> KLOG_SEV_DEBUG \<and> severity entry > max_severity
     then klog_read_loop r start_seq max_severity filt is written highest out
     else if filt \<noteq> [] \<and> \<not> facility_matched entry filt
     then klog_read_loop r start_seq max_severity filt is written highest out
     else if written + 1 = length out
     then (written + 1, seq entry, out[written := entry])
     else klog_read_loop r start_seq max_severity filt is (written + 1) (seq entry) (out[written := entry]))"

definition klog_read ::
  "klog_ring \<Rightarrow> u64 \<Rightarrow> u32 \<Rightarrow> bytes \<Rightarrow> klog_entry list \<Rightarrow> (usize \<times> u64 \<times> u64 \<times> u64) \<times> klog_entry list" where
  "klog_read r start_seq max_severity filt out =
    (if out = [] \<or> count r = 0 then ((0, next_seq r, dropped_count r, total_logged r), out)
     else case klog_read_loop r start_seq max_severity filt [0..<count r] 0 0 out of
       (written, highest, out') \<Rightarrow>
         let nxt = (if highest > 0 then highest + 1 else if start_seq > 0 then start_seq else next_seq r)
         in ((written, nxt, dropped_count r, total_logged r), out'))"

definition klog_info :: "klog_ring \<Rightarrow> u64 \<times> u64 \<times> u64 \<times> u64 \<times> u32 \<times> u32" where
  "klog_info r =
    (let oldest = (if count r > 0 then seq (entries r ! tail r) else 0);
         newest = (if count r > 0
                   then seq (entries r ! ((head r + KLOG_CAPACITY - 1) mod KLOG_CAPACITY)) else 0)
     in (oldest, newest, total_logged r, dropped_count r, of_nat KLOG_CAPACITY, of_nat (count r)))"

section \<open>The C boundary\<close>

definition rust_klog_append ::
  "u32 \<Rightarrow> bytes option \<Rightarrow> bytes option \<Rightarrow> u32 \<Rightarrow> u32 \<Rightarrow> klog_ring \<Rightarrow> u64 \<times> klog_ring" where
  "rust_klog_append sev facility_ptr msg_ptr p ticks r =
    (case (facility_ptr, msg_ptr) of
       (Some fac, Some m) \<Rightarrow> klog_append sev fac m p ticks r
     | _ \<Rightarrow> (0, r))"

fun strip_newlines :: "bytes \<Rightarrow> bytes" where
  "strip_newlines raw =
    (if raw \<noteq> [] \<and> (last raw = 0x0A \<or> last raw = 0x0D) then strip_newlines (butlast raw) else raw)"

declare strip_newlines.simps [simp del]

definition starts_with :: "bytes \<Rightarrow> bytes \<Rightarrow> bool" where
  "starts_with raw p \<longleftrightarrow> take (length p) raw = p"

text \<open>The severity and facility a line's prefix tag stands for.\<close>

definition line_class :: "bytes \<Rightarrow> u32 \<times> bytes" where
  "line_class raw =
    (if starts_with raw (byte_str ''[PANIC]'') \<or> starts_with raw (byte_str ''[FAULT]'')
       then (KLOG_SEV_ERR, byte_str ''kernel'')
     else if starts_with raw (byte_str ''[WARN]'') then (KLOG_SEV_WARN, byte_str ''kernel'')
     else if starts_with raw (byte_str ''[ OK ]'') then (KLOG_SEV_INFO, byte_str ''kernel'')
     else if starts_with raw (byte_str ''[ .. ]'') then (KLOG_SEV_NOTICE, byte_str ''kernel'')
     else if starts_with raw (byte_str ''[SYSCALL]'') then (KLOG_SEV_DEBUG, byte_str ''syscall'')
     else if starts_with raw (byte_str ''[FW]'') then (KLOG_SEV_NOTICE, byte_str ''firewall'')
     else if starts_with raw (byte_str ''[sandbox]'') then (KLOG_SEV_INFO, byte_str ''sandbox'')
     else (KLOG_SEV_INFO, byte_str ''kernel''))"

definition rust_klog_log_kernel_line ::
  "bytes option \<Rightarrow> u32 \<Rightarrow> u32 \<Rightarrow> klog_ring \<Rightarrow> u64 \<times> klog_ring" where
  "rust_klog_log_kernel_line line_ptr ticks p r =
    (case line_ptr of None \<Rightarrow> (0, r)
     | Some line \<Rightarrow>
        if line = [] then (0, r)
        else let raw = strip_newlines line in
          if raw = [] then (0, r)
          else case line_class raw of (sev, fac) \<Rightarrow> klog_append sev fac raw p ticks r)"

text \<open>
  \<open>rust_klog_read\<close> gives the status, the four statistics words and the caller's buffer; the
  buffer has \<open>max_entries\<close> records.
\<close>

definition rust_klog_read ::
  "u64 \<Rightarrow> u32 \<Rightarrow> bytes option \<Rightarrow> klog_entry list option \<Rightarrow> u64 list option \<Rightarrow> klog_ring
    \<Rightarrow> i32 \<times> u64 list option \<times> klog_entry list option" where
  "rust_klog_read start_seq max_severity filter_ptr out_entries out_stats r =
    (case (out_entries, out_stats) of
       (Some out, Some stats) \<Rightarrow>
         let filt = (case filter_ptr of Some f \<Rightarrow> f | None \<Rightarrow> []) in
         (case klog_read r start_seq max_severity filt out of
            ((written, nxt, dropped, tot), out') \<Rightarrow>
              (int written, Some (stats[0 := nxt, 1 := dropped, 2 := tot, 3 := of_nat written]), Some out'))
     | _ \<Rightarrow> (- 14, out_stats, out_entries))"

definition rust_klog_info :: "u64 list option \<Rightarrow> klog_ring \<Rightarrow> i32 \<times> u64 list option" where
  "rust_klog_info out_info r =
    (case out_info of None \<Rightarrow> (- 14, None)
     | Some out \<Rightarrow>
        (case klog_info r of (oldest, newest, tot, dropped, cap, cnt) \<Rightarrow>
          (0, Some (out[0 := oldest, 1 := newest, 2 := tot, 3 := dropped,
                        4 := ucast cap OR push_bit 32 (ucast cnt)]))))"

section \<open>The boot self-test\<close>

definition klog_bit :: "bool \<Rightarrow> nat \<Rightarrow> u32 \<Rightarrow> u32" where
  "klog_bit failed k err = (if failed then err OR push_bit k 1 else err)"

fun klog_stress :: "nat \<Rightarrow> nat \<Rightarrow> klog_ring \<Rightarrow> klog_ring" where
  "klog_stress i 0 r = r"
| "klog_stress i (Suc n) r =
     klog_stress (Suc i) n (snd (klog_append KLOG_SEV_DEBUG (byte_str ''stress'') (byte_str ''data'') 0 (of_nat i) r))"

definition rust_klog_selftest :: u32 where
  "rust_klog_selftest =
    (case klog_append KLOG_SEV_INFO (byte_str ''init'') (byte_str ''boot message 1'') 1 100 klog_ring_new of
     (seq1, t1) \<Rightarrow>
     let err0 = klog_bit (seq1 \<noteq> 1) 0 0 in
     case klog_read t1 0 KLOG_SEV_ANY [] (replicate 10 klog_entry_empty) of ((n, nx, dropped, tot), buf1) \<Rightarrow>
     let err1 = (if n \<noteq> 1 \<or> nx \<noteq> 2 \<or> dropped \<noteq> 0 \<or> tot \<noteq> 1 then klog_bit True 1 err0
                 else klog_bit (seq (buf1 ! 0) \<noteq> 1 \<or> severity (buf1 ! 0) \<noteq> KLOG_SEV_INFO \<or> pid (buf1 ! 0) \<noteq> 1
                    \<or> timestamp_ticks (buf1 ! 0) \<noteq> 100 \<or> take 4 (facility (buf1 ! 0)) \<noteq> byte_str ''init''
                    \<or> take 14 (msg (buf1 ! 0)) \<noteq> byte_str ''boot message 1'') 2 err0);
         t2 = snd (klog_append KLOG_SEV_WARN (byte_str ''vfs'') (byte_str ''disk mount warning'') 0 150 t1);
         t3 = snd (klog_append KLOG_SEV_ERR (byte_str ''net'') (byte_str ''packet drop error'') 2 200 t2) in
     case klog_read t3 2 KLOG_SEV_ANY [] buf1 of ((n2, nx2, _, _), buf2) \<Rightarrow>
     let err3 = klog_bit (n2 \<noteq> 2 \<or> nx2 \<noteq> 4 \<or> seq (buf2 ! 0) \<noteq> 2 \<or> seq (buf2 ! 1) \<noteq> 3) 3 err1 in
     case klog_read t3 0 KLOG_SEV_WARN [] buf2 of ((n3, _, _, _), buf3) \<Rightarrow>
     let err4 = klog_bit (n3 \<noteq> 2 \<or> seq (buf3 ! 0) \<noteq> 2 \<or> seq (buf3 ! 1) \<noteq> 3) 4 err3 in
     case klog_read t3 0 KLOG_SEV_ANY (byte_str ''vfs'') buf3 of ((n4, _, _, _), buf4) \<Rightarrow>
     let err5 = klog_bit (n4 \<noteq> 1 \<or> seq (buf4 ! 0) \<noteq> 2 \<or> take 3 (facility (buf4 ! 0)) \<noteq> byte_str ''vfs'') 5 err4 in
     case klog_info (klog_stress 0 300 klog_ring_new) of (oldest, newest, total_w, dropped_w, cap, cnt) \<Rightarrow>
     let err6 = klog_bit (total_w \<noteq> 300 \<or> dropped_w \<noteq> 44 \<or> cnt \<noteq> 256 \<or> cap \<noteq> 256) 6 err5
     in klog_bit (oldest \<noteq> 45 \<or> newest \<noteq> 300) 7 err6)"

section \<open>Contents and invariant\<close>

definition klog_contents :: "klog_ring \<Rightarrow> klog_entry list" where
  "klog_contents r = ring_window (entries r) (tail r) (count r)"

definition klog_entry_wf :: "klog_entry \<Rightarrow> bool" where
  "klog_entry_wf e \<longleftrightarrow>
     length (facility e) = KLOG_FACILITY_MAX \<and> last (facility e) = 0
   \<and> length (msg e) = KLOG_MSG_MAX \<and> last (msg e) = 0"

definition klog_inv :: "klog_ring \<Rightarrow> bool" where
  "klog_inv r \<longleftrightarrow>
     length (entries r) = KLOG_CAPACITY \<and> tail r < KLOG_CAPACITY \<and> count r \<le> KLOG_CAPACITY
   \<and> head r = (tail r + count r) mod KLOG_CAPACITY
   \<and> next_seq r = total_logged r + 1
   \<and> total_logged r = dropped_count r + of_nat (count r)
   \<and> (\<forall>i < count r. seq (klog_contents r ! i) = next_seq r - of_nat (count r - i))
   \<and> list_all klog_entry_wf (klog_contents r)"

text \<open>The record that one call of \<open>append\<close> stores, and what it keeps of the call's arguments.\<close>

definition klog_record :: "u32 \<Rightarrow> bytes \<Rightarrow> bytes \<Rightarrow> u32 \<Rightarrow> u32 \<Rightarrow> u64 \<Rightarrow> klog_entry" where
  "klog_record sev fac m p ticks s =
    \<lparr>seq = s, timestamp_ticks = ticks, pid = p, severity = sev,
     facility = take 15 fac @ replicate (16 - min 15 (length fac)) 0,
     msg = take 127 m @ replicate (128 - min 127 (length m)) 0\<rparr>"

lemma klog_append_eq:
  "klog_append sev fac m p ticks r =
    (next_seq r,
     if count r = KLOG_CAPACITY
     then r\<lparr>next_seq := next_seq r + 1, total_logged := total_logged r + 1,
            entries := (entries r)[head r := klog_record sev fac m p ticks (next_seq r)],
            head := (head r + 1) mod KLOG_CAPACITY, tail := (tail r + 1) mod KLOG_CAPACITY,
            dropped_count := dropped_count r + 1\<rparr>
     else r\<lparr>next_seq := next_seq r + 1, total_logged := total_logged r + 1,
            entries := (entries r)[head r := klog_record sev fac m p ticks (next_seq r)],
            head := (head r + 1) mod KLOG_CAPACITY, count := count r + 1\<rparr>)"
  by (simp add: klog_append_def Let_def klog_record_def copy_prefix_def kconst min_def not_less)

lemma klog_record_wf: "klog_entry_wf (klog_record sev fac m p ticks s)"
  by (auto simp: klog_record_def klog_entry_wf_def kconst min_def)

lemma klog_record_seq [simp]: "seq (klog_record sev fac m p ticks s) = s"
  by (simp add: klog_record_def)

lemma length_klog_contents [simp]: "length (klog_contents r) = count r"
  by (simp add: klog_contents_def)

text \<open>The log as a sequence: an append adds its record behind, and drops the oldest when full.\<close>

lemma klog_append_contents:
  assumes "klog_inv r"
  shows "klog_contents (snd (klog_append sev fac m p ticks r))
       = (if count r < KLOG_CAPACITY then klog_contents r else tl (klog_contents r))
         @ [klog_record sev fac m p ticks (next_seq r)]"
proof (cases "count r = KLOG_CAPACITY")
  case True
  with assms have "head r = tail r"
    by (simp add: klog_inv_def)
  with True assms show ?thesis
    using ring_window_push_full [of "tail r" "entries r"]
    by (simp add: klog_append_eq klog_contents_def klog_inv_def)
next
  case False
  with assms have "count r < length (entries r)"
    by (simp add: klog_inv_def)
  with False assms show ?thesis
    using ring_window_push [of "count r" "entries r" "tail r"]
    by (simp add: klog_append_eq klog_contents_def klog_inv_def)
qed

lemma klog_inv_new: "klog_inv klog_ring_new"
  by (simp add: klog_inv_def klog_ring_new_def klog_contents_def kconst)

lemma klog_append_fields:
  assumes "klog_inv r"
  shows "next_seq (snd (klog_append sev fac m p ticks r)) = next_seq r + 1"
    and "total_logged (snd (klog_append sev fac m p ticks r)) = total_logged r + 1"
    and "count (snd (klog_append sev fac m p ticks r)) = min KLOG_CAPACITY (count r + 1)"
    and "fst (klog_append sev fac m p ticks r) = next_seq r"
  using assms by (auto simp: klog_append_eq klog_inv_def min_def)

lemma klog_inv_append:
  assumes "klog_inv r"
  shows "klog_inv (snd (klog_append sev fac m p ticks r))" (is "klog_inv ?r'")
proof -
  let ?C = "klog_contents r" and ?e = "klog_record sev fac m p ticks (next_seq r)"
  have C': "klog_contents ?r' = (if count r < KLOG_CAPACITY then ?C else tl ?C) @ [?e]"
    using assms by (rule klog_append_contents)
  have cnt: "count r \<le> KLOG_CAPACITY" "length ?C = count r"
    and seqs: "\<And>i. i < count r \<Longrightarrow> seq (?C ! i) = next_seq r - of_nat (count r - i)"
    and wf: "list_all klog_entry_wf ?C"
    using assms by (auto simp: klog_inv_def)
  have "seq (klog_contents ?r' ! i) = next_seq ?r' - of_nat (count ?r' - i)" if "i < count ?r'" for i
  proof (cases "count r < KLOG_CAPACITY")
    case True
    then have "count ?r' = Suc (count r)" using assms by (simp add: klog_append_fields)
    with True that seqs [of i] show ?thesis
      by (auto simp: C' nth_append klog_append_fields [OF assms] Suc_diff_le less_Suc_eq)
  next
    case False
    with cnt have full: "count r = KLOG_CAPACITY" by simp
    then have c': "count ?r' = count r" using assms by (simp add: klog_append_fields)
    show ?thesis
    proof (cases "Suc i < count r")
      case True
      with full that seqs [of "Suc i"] show ?thesis
        by (simp add: C' tl_snoc_nth klog_append_fields [OF assms] c' of_nat_diff algebra_simps)
    next
      case False
      with that c' full have "i = 255" and "count r = 256" by (simp_all add: kconst)
      then show ?thesis
        by (simp add: C' nth_append klog_append_fields [OF assms] c' kconst)
    qed
  qed
  moreover have "list_all klog_entry_wf (klog_contents ?r')"
    using wf by (simp add: C' klog_record_wf list_all_tl)
  moreover have "head ?r' = (tail ?r' + count ?r') mod KLOG_CAPACITY"
    using assms by (auto simp: klog_append_eq klog_inv_def mod_simps)
  ultimately show ?thesis
    using assms by (auto simp: klog_inv_def klog_append_eq kconst algebra_simps)
qed

section \<open>Queries\<close>

text \<open>Which records a query asks for.\<close>

definition klog_wanted :: "u64 \<Rightarrow> u32 \<Rightarrow> bytes \<Rightarrow> klog_entry \<Rightarrow> bool" where
  "klog_wanted start_seq max_severity filt e \<longleftrightarrow>
     (start_seq = 0 \<or> start_seq \<le> seq e)
   \<and> (max_severity \<le> KLOG_SEV_DEBUG \<longrightarrow> severity e \<le> max_severity)
   \<and> (filt = [] \<or> facility_matched e filt)"

text \<open>The loop without its filters: copy until the records or the buffer run out.\<close>

fun klog_fill :: "klog_entry list \<Rightarrow> usize \<Rightarrow> u64 \<Rightarrow> klog_entry list \<Rightarrow> usize \<times> u64 \<times> klog_entry list" where
  "klog_fill [] w h out = (w, h, out)"
| "klog_fill (e # es) w h out =
    (if w + 1 = length out then (w + 1, seq e, out[w := e]) else klog_fill es (w + 1) (seq e) (out[w := e]))"

lemma klog_read_loop_fill:
  "klog_read_loop r s v f ks w h out
   = klog_fill (filter (klog_wanted s v f) (map (\<lambda>i. entries r ! ((tail r + i) mod KLOG_CAPACITY)) ks)) w h out"
proof (induction ks arbitrary: w h out)
  case Nil
  show ?case by simp
next
  case (Cons i ks)
  let ?e = "entries r ! ((tail r + i) mod KLOG_CAPACITY)"
  show ?case
  proof (cases "klog_wanted s v f ?e")
    case False
    then have "klog_read_loop r s v f (i # ks) w h out = klog_read_loop r s v f ks w h out"
      by (auto simp: klog_wanted_def Let_def word_gt_0 not_le)
    with False show ?thesis by (simp only: Cons.IH list.map filter.simps if_False)
  next
    case True
    then have "klog_read_loop r s v f (i # ks) w h out
        = (if w + 1 = length out then (w + 1, seq ?e, out[w := ?e])
           else klog_read_loop r s v f ks (w + 1) (seq ?e) (out[w := ?e]))"
      by (auto simp: klog_wanted_def Let_def word_gt_0 not_le)
    with True show ?thesis by (simp only: Cons.IH list.map filter.simps if_True klog_fill.simps)
  qed
qed

lemma klog_fill_spec:
  assumes "w < length out"
  shows "klog_fill M w h out
       = (let k = min (length M) (length out - w)
          in (w + k, if k = 0 then h else seq (M ! (k - 1)), take w out @ take k M @ drop (w + k) out))"
  using assms
proof (induction M arbitrary: w h out)
  case Nil
  then show ?case by simp
next
  case (Cons e es)
  have upd: "take (Suc w) (out[w := e]) = take w out @ [e]"
    using Cons.prems by (simp add: take_Suc_conv_app_nth)
  show ?case
  proof (cases "w + 1 = length out")
    case True
    then have "out[w := e] = take w out @ [e]"
      using upd by simp
    moreover have "length out - w = Suc 0" using True by simp
    ultimately show ?thesis using True by (simp add: Let_def)
  next
    case False
    with Cons.prems have lt: "w + 1 < length (out[w := e])" by simp
    define k where "k = min (length es) (length out - Suc w)"
    have mm: "min (length (e # es)) (length out - w) = Suc k"
      using Cons.prems by (auto simp: k_def)
    have dr: "drop (Suc w + k) (out[w := e]) = drop (w + Suc k) out"
      by simp
    have "klog_fill (e # es) w h out = klog_fill es (w + 1) (seq e) (out[w := e])"
      using False by simp
    also have "\<dots> = (w + 1 + k, if k = 0 then seq e else seq (es ! (k - 1)),
        take (w + 1) (out[w := e]) @ take k es @ drop (w + 1 + k) (out[w := e]))"
      using Cons.IH [OF lt, of "seq e"] by (simp only: Let_def k_def length_list_update Suc_eq_plus1)
    also have "\<dots> = (w + Suc k, if Suc k = 0 then h else seq ((e # es) ! (Suc k - 1)),
        take w out @ take (Suc k) (e # es) @ drop (w + Suc k) out)"
      using upd dr by (simp add: nth_Cons')
    finally show ?thesis
      by (simp only: mm Let_def)
  qed
qed

lemma map_ring_upt:
  "length (entries r) = KLOG_CAPACITY \<Longrightarrow>
   map (\<lambda>i. entries r ! ((tail r + i) mod KLOG_CAPACITY)) [0..<count r] = klog_contents r"
  by (simp add: klog_contents_def ring_window_def)

text \<open>A query returns the oldest matching records, as many as the buffer holds.\<close>

lemma klog_read_spec:
  assumes "klog_inv r" and "out \<noteq> []"
  shows "klog_read r s v f out =
    (let M = filter (klog_wanted s v f) (klog_contents r); k = min (length M) (length out);
         h = (if k = 0 then 0 else seq (M ! (k - 1)))
     in ((k, if h > 0 then h + 1 else if s > 0 \<and> count r > 0 then s else next_seq r, dropped_count r, total_logged r),
         take k M @ drop k out))"
proof (cases "count r = 0")
  case True
  then have "klog_contents r = []"
    by (simp add: klog_contents_def)
  with True assms show ?thesis by (simp add: klog_read_def)
next
  case False
  define M where "M = filter (klog_wanted s v f) (klog_contents r)"
  have len: "length (entries r) = KLOG_CAPACITY" and lt: "0 < length out"
    using assms by (simp_all add: klog_inv_def)
  have "klog_read_loop r s v f [0..<count r] 0 0 out = klog_fill M 0 0 out"
    by (simp only: klog_read_loop_fill map_ring_upt [OF len] M_def)
  with False assms(2) show ?thesis
    by (simp add: klog_read_def klog_fill_spec [OF lt] Let_def flip: M_def)
qed



section \<open>Histories\<close>

text \<open>The calls that change the log, as C makes them.\<close>

datatype klog_op =
    KAppend u32 "bytes option" "bytes option" u32 u32
  | KLine "bytes option" u32 u32

fun klog_step :: "klog_op \<Rightarrow> klog_ring \<Rightarrow> klog_ring" where
  "klog_step (KAppend sev fac m p ticks) r = snd (rust_klog_append sev fac m p ticks r)"
| "klog_step (KLine line ticks p) r = snd (rust_klog_log_kernel_line line ticks p r)"

abbreviation klog_reachable :: "klog_ring \<Rightarrow> bool" where
  "klog_reachable \<equiv> reachable (\<lambda>_. True) klog_step klog_ring_new"

interpretation klm: invariant_machine "\<lambda>_. True" klog_step klog_ring_new klog_inv
proof
  show "klog_inv klog_ring_new" by (rule klog_inv_new)
next
  fix r op
  assume "klog_inv r"
  then show "klog_inv (klog_step op r)"
    by (cases op) (auto simp: rust_klog_append_def rust_klog_log_kernel_line_def klog_inv_append
        Let_def split: option.splits prod.splits)
qed

text \<open>What a record keeps of a request, and a run of requests.\<close>

type_synonym klog_request = "u32 \<times> bytes \<times> bytes \<times> u32 \<times> u32"

definition klog_payload :: "klog_entry \<Rightarrow> u32 \<times> bytes \<times> bytes \<times> u32 \<times> u32" where
  "klog_payload e = (severity e, facility e, msg e, pid e, timestamp_ticks e)"

fun klog_push :: "klog_request \<Rightarrow> klog_ring \<Rightarrow> klog_ring" where
  "klog_push (sev, fac, m, p, ticks) r = snd (klog_append sev fac m p ticks r)"

definition klog_kept :: "klog_request \<Rightarrow> klog_request" where
  "klog_kept q = (case q of (sev, fac, m, p, ticks) \<Rightarrow> klog_payload (klog_record sev fac m p ticks 0))"

lemma klog_payload_record: "klog_payload (klog_record sev fac m p ticks s) = klog_kept (sev, fac, m, p, ticks)"
  by (simp add: klog_payload_def klog_kept_def klog_record_def)

interpretation kl: bounded_log KLOG_CAPACITY klog_ring_new klog_push
  "\<lambda>r. map klog_payload (klog_contents r)" klog_kept klog_inv
proof
  show "0 < KLOG_CAPACITY" by (simp add: kconst)
  show "map klog_payload (klog_contents klog_ring_new) = []"
    by (simp add: klog_contents_def klog_ring_new_def)
  show "klog_inv klog_ring_new" by (rule klog_inv_new)
  fix r and x :: klog_request
  assume r: "klog_inv r"
  obtain sev fac m p ticks where x: "x = (sev, fac, m, p, ticks)" by (cases x) auto
  show "map klog_payload (klog_contents (klog_push x r))
      = (if length (map klog_payload (klog_contents r)) < KLOG_CAPACITY
         then map klog_payload (klog_contents r) else tl (map klog_payload (klog_contents r))) @ [klog_kept x]"
    by (simp add: x klog_append_contents [OF r] klog_payload_record map_tl)
  show "length (map klog_payload (klog_contents r)) \<le> KLOG_CAPACITY"
    using r by (simp add: klog_inv_def)
  show "klog_inv (klog_push x r)"
    using r by (simp add: x klog_inv_append)
qed

lemma klog_push_inv: "klog_inv (fold klog_push qs klog_ring_new)"
  by (rule kl.invar_fold) (rule klog_inv_new)

lemma klog_push_count: "count (fold klog_push qs klog_ring_new) = min KLOG_CAPACITY (length qs)"
proof -
  have "length (map klog_payload (klog_contents (fold klog_push qs klog_ring_new)))
      = length (drop (length qs - KLOG_CAPACITY) (map klog_kept qs))"
    by (simp only: kl.contents_fold)
  then show ?thesis by simp
qed

lemma klog_push_total: "total_logged (fold klog_push qs klog_ring_new) = of_nat (length qs)"
proof (induction qs rule: rev_induct)
  case Nil
  show ?case by (simp add: klog_ring_new_def)
next
  case (snoc q qs)
  then show ?case
    using klog_append_fields(2) [OF klog_push_inv [of qs]] by (cases q) simp
qed

lemma klog_push_next_seq: "next_seq (fold klog_push qs klog_ring_new) = of_nat (length qs + 1)"
  using klog_push_inv [of qs] by (simp add: klog_inv_def klog_push_total)

lemma klog_push_dropped:
  "dropped_count (fold klog_push qs klog_ring_new) = of_nat (length qs - KLOG_CAPACITY)"
proof -
  have "dropped_count (fold klog_push qs klog_ring_new)
      = total_logged (fold klog_push qs klog_ring_new) - of_nat (count (fold klog_push qs klog_ring_new))"
    using klog_push_inv [of qs] by (simp add: klog_inv_def)
  also have "\<dots> = of_nat (length qs) - of_nat (min KLOG_CAPACITY (length qs))"
    by (simp only: klog_push_total klog_push_count)
  also have "\<dots> = of_nat (length qs - KLOG_CAPACITY)"
    by (simp add: of_nat_diff min_def)
  finally show ?thesis .
qed

lemma klog_push_seqs:
  assumes "i < min KLOG_CAPACITY (length qs)"
  shows "seq (klog_contents (fold klog_push qs klog_ring_new) ! i)
       = of_nat (length qs - min KLOG_CAPACITY (length qs) + i + 1)"
proof -
  let ?r = "fold klog_push qs klog_ring_new"
  have "seq (klog_contents ?r ! i) = next_seq ?r - of_nat (count ?r - i)"
    using klog_push_inv [of qs] assms by (simp add: klog_inv_def klog_push_count)
  also have "\<dots> = of_nat (length qs + 1) - of_nat (min KLOG_CAPACITY (length qs) - i)"
    by (simp only: klog_push_next_seq klog_push_count)
  also have "\<dots> = of_nat (length qs + 1 - (min KLOG_CAPACITY (length qs) - i))"
    using assms by (intro of_nat_diff [symmetric]) auto
  also have "length qs + 1 - (min KLOG_CAPACITY (length qs) - i) = length qs - min KLOG_CAPACITY (length qs) + i + 1"
    using assms by auto
  finally show ?thesis .
qed





lemma klog_stress_fold:
  "klog_stress i n r = fold klog_push
     (map (\<lambda>j. (KLOG_SEV_DEBUG, byte_str ''stress'', byte_str ''data'', 0, of_nat j)) [i..<i + n]) r"
  by (induction n arbitrary: i r) (simp_all add: upt_conv_Cons del: upt_Suc)

text \<open>The statistics call after any run of requests.\<close>

lemma klog_info_push:
  assumes "qs \<noteq> []"
  shows "klog_info (fold klog_push qs klog_ring_new) =
    (of_nat (length qs - min KLOG_CAPACITY (length qs) + 1), of_nat (length qs), of_nat (length qs),
     of_nat (length qs - KLOG_CAPACITY), of_nat KLOG_CAPACITY, of_nat (min KLOG_CAPACITY (length qs)))"
proof -
  let ?r = "fold klog_push qs klog_ring_new" and ?n = "min KLOG_CAPACITY (length qs)"
  have inv: "klog_inv ?r" by (rule klog_push_inv)
  have cnt: "count ?r = ?n" by (rule klog_push_count)
  have pos: "0 < ?n" using assms by (simp add: kconst)
  have len: "length (entries ?r) = KLOG_CAPACITY" "tail ?r < KLOG_CAPACITY"
    and hd: "head ?r = (tail ?r + ?n) mod KLOG_CAPACITY"
    using inv by (simp_all only: klog_inv_def cnt)
  have "seq (entries ?r ! tail ?r) = seq (klog_contents ?r ! 0)"
    using len pos by (simp add: klog_contents_def ring_window_nth cnt)
  moreover have "seq (entries ?r ! ((head ?r + KLOG_CAPACITY - 1) mod KLOG_CAPACITY)) = seq (klog_contents ?r ! (?n - 1))"
  proof -
    have "(head ?r + KLOG_CAPACITY - 1) mod KLOG_CAPACITY = (head ?r + (KLOG_CAPACITY - 1)) mod KLOG_CAPACITY"
      using len by simp
    also have "\<dots> = (tail ?r + ?n + (KLOG_CAPACITY - 1)) mod KLOG_CAPACITY"
      by (simp only: hd mod_add_left_eq)
    also have "tail ?r + ?n + (KLOG_CAPACITY - 1) = tail ?r + (?n - 1) + KLOG_CAPACITY"
      using pos len by linarith
    finally have "(head ?r + KLOG_CAPACITY - 1) mod KLOG_CAPACITY = (tail ?r + (?n - 1)) mod KLOG_CAPACITY"
      by simp
    moreover have "?n - 1 < ?n" using pos by linarith
    ultimately show ?thesis using len(1) by (simp only: klog_contents_def ring_window_nth cnt)
  qed
  moreover have "seq (klog_contents ?r ! 0) = of_nat (length qs - ?n + 1)"
    using klog_push_seqs [OF pos] by (simp only: add_0_right)
  moreover have "seq (klog_contents ?r ! (?n - 1)) = of_nat (length qs)"
  proof -
    have lt: "?n - 1 < ?n" using pos by linarith
    have "length qs - ?n + (?n - 1) + 1 = length qs" using pos by linarith
    with klog_push_seqs [OF lt] show ?thesis by (simp only:)
  qed
  ultimately show ?thesis
    using pos by (simp only: klog_info_def cnt klog_push_total klog_push_dropped Let_def if_True)
qed

lemma klog_append_short:
  assumes "klog_inv r" and "count r < KLOG_CAPACITY"
  shows "klog_contents (snd (klog_append sev fac m p ticks r))
       = klog_contents r @ [klog_record sev fac m p ticks (next_seq r)]"
  using assms by (simp add: klog_append_contents)

lemma klog_ring_new_fields:
  "count klog_ring_new = 0" "next_seq klog_ring_new = 1" "total_logged klog_ring_new = 0"
  "klog_contents klog_ring_new = []"
  by (simp_all add: klog_ring_new_def klog_contents_def)

section \<open>Properties\<close>

text \<open>
  (C11) However many requests are logged, the log holds the last 256 of them in order, each with its
  severity, facility, message, process and time (strings cut at 15 and 127 bytes), and the counters
  say exactly how many were logged and how many were overwritten.
\<close>

theorem klog_keeps_last_requests:
  "map klog_payload (klog_contents (fold klog_push qs klog_ring_new))
     = drop (length qs - KLOG_CAPACITY) (map klog_kept qs)
   \<and> total_logged (fold klog_push qs klog_ring_new) = of_nat (length qs)
   \<and> dropped_count (fold klog_push qs klog_ring_new) = of_nat (length qs - KLOG_CAPACITY)"
  by (simp only: kl.contents_fold klog_push_total klog_push_dropped)

text \<open>
  In every state the kernel can reach, a query with room for at least one record returns the
  oldest retained records that satisfy its filters, in order, as many as fit, leaves the rest of
  the caller's buffer alone and reports the log's counters.
\<close>

theorem klog_read_oldest_matches:
  assumes "klog_reachable r" and "out \<noteq> []"
  shows "case klog_read r s v f out of ((n, nxt, dropped, tot), out') \<Rightarrow>
      n = min (length (filter (klog_wanted s v f) (klog_contents r))) (length out)
    \<and> out' = take n (filter (klog_wanted s v f) (klog_contents r)) @ drop n out
    \<and> dropped = dropped_count r \<and> tot = total_logged r"
  using klog_read_spec [OF klm.reachable_inv [OF assms(1)] assms(2), of s v f]
  by (simp add: Let_def)


text \<open>
  In every state the kernel can reach, the ring's indices and counters agree with its contents,
  the retained records carry consecutive sequence numbers ending just before \<open>next_seq\<close>, and
  both strings of every record are NUL-terminated.
\<close>

theorem klog_reachable_inv:
  assumes "klog_reachable r"
  shows "klog_inv r"
  using assms by (rule klm.reachable_inv)

text \<open>The boot self-test of the log reports no failure.\<close>

theorem klog_selftest_passes: "rust_klog_selftest = 0"
proof -
  define r1 where "r1 = klog_record KLOG_SEV_INFO (byte_str ''init'') (byte_str ''boot message 1'') 1 100 1"
  define r2 where "r2 = klog_record KLOG_SEV_WARN (byte_str ''vfs'') (byte_str ''disk mount warning'') 0 150 2"
  define r3 where "r3 = klog_record KLOG_SEV_ERR (byte_str ''net'') (byte_str ''packet drop error'') 2 200 3"
  define t1 where "t1 = snd (klog_append KLOG_SEV_INFO (byte_str ''init'') (byte_str ''boot message 1'') 1 100 klog_ring_new)"
  define t2 where "t2 = snd (klog_append KLOG_SEV_WARN (byte_str ''vfs'') (byte_str ''disk mount warning'') 0 150 t1)"
  define t3 where "t3 = snd (klog_append KLOG_SEV_ERR (byte_str ''net'') (byte_str ''packet drop error'') 2 200 t2)"
  have i1: "klog_inv t1" unfolding t1_def by (intro klog_inv_append klog_inv_new)
  have i2: "klog_inv t2" unfolding t2_def by (intro klog_inv_append i1)
  have i3: "klog_inv t3" unfolding t3_def by (intro klog_inv_append i2)
  have f1: "count t1 = 1 \<and> next_seq t1 = 2 \<and> total_logged t1 = 1"
    unfolding t1_def by (simp add: klog_append_fields [OF klog_inv_new] klog_ring_new_fields kconst)
  have f2: "count t2 = 2 \<and> next_seq t2 = 3 \<and> total_logged t2 = 2"
    unfolding t2_def by (simp add: klog_append_fields [OF i1] f1 kconst)
  have f3: "count t3 = 3 \<and> next_seq t3 = 4 \<and> total_logged t3 = 3"
    unfolding t3_def by (simp add: klog_append_fields [OF i2] f2 kconst)
  have d1: "dropped_count t1 = 0"
    using i1 f1 by (simp add: klog_inv_def)
  have c1: "klog_contents t1 = [r1]"
    unfolding t1_def r1_def
    by (subst klog_append_short [OF klog_inv_new])
       (simp_all add: klog_ring_new_fields kconst)
  have c2: "klog_contents t2 = [r1, r2]"
    unfolding t2_def by (subst klog_append_short [OF i1]) (simp_all add: c1 r2_def f1 kconst)
  have c3: "klog_contents t3 = [r1, r2, r3]"
    unfolding t3_def by (subst klog_append_short [OF i2]) (simp_all add: c2 r3_def f2 kconst)
  have a1: "klog_append KLOG_SEV_INFO (byte_str ''init'') (byte_str ''boot message 1'') 1 100 klog_ring_new = (1, t1)"
    unfolding t1_def by (simp add: prod_eq_iff klog_append_fields [OF klog_inv_new] klog_ring_new_fields)
  have seqs: "seq r1 = 1" "seq r2 = 2" "seq r3 = 3"
    by (simp_all add: r1_def r2_def r3_def)
  have sevs: "severity r1 = 6" "severity r2 = 4" "severity r3 = 3"
    by (simp_all add: r1_def r2_def r3_def klog_record_def)
  have facs: "\<not> facility_matched r1 (byte_str ''vfs'')" "facility_matched r2 (byte_str ''vfs'')"
    "\<not> facility_matched r3 (byte_str ''vfs'')" "byte_str ''vfs'' \<noteq> []"
    unfolding r1_def r2_def r3_def by code_simp+
  let ?b = "replicate 9 klog_entry_empty"
  have buf: "replicate 10 klog_entry_empty = klog_entry_empty # ?b" by (simp add: eval_nat_numeral)
  have rd1: "klog_read t1 0 KLOG_SEV_ANY [] (replicate 10 klog_entry_empty) = ((1, 2, 0, 1), r1 # ?b)"
    by (simp add: klog_read_spec [OF i1] c1 klog_wanted_def sevs seqs Let_def d1 f1 buf)
  have le: "\<not> (2::u64) \<le> 1" by (simp add: word_le_nat_alt)
  have rd2: "\<exists>tl2. klog_read t3 2 KLOG_SEV_ANY [] (r1 # ?b)
      = ((2, 4, dropped_count t3, total_logged t3), r2 # r3 # tl2) \<and> length tl2 = 8"
    by (simp add: klog_read_spec [OF i3] c3 klog_wanted_def sevs seqs le Let_def)
  then obtain tl2 where tl2: "klog_read t3 2 KLOG_SEV_ANY [] (r1 # ?b)
      = ((2, 4, dropped_count t3, total_logged t3), r2 # r3 # tl2)" "length tl2 = 8" by blast
  have rd3: "klog_read t3 0 KLOG_SEV_WARN [] (r2 # r3 # tl2)
      = ((2, 4, dropped_count t3, total_logged t3), r2 # r3 # tl2)"
    by (simp add: klog_read_spec [OF i3] c3 klog_wanted_def sevs seqs le Let_def)
  have rd4: "klog_read t3 0 KLOG_SEV_ANY (byte_str ''vfs'') (r2 # r3 # tl2)
      = ((1, 3, dropped_count t3, total_logged t3), r2 # r3 # tl2)"
    by (simp add: klog_read_spec [OF i3] c3 klog_wanted_def sevs seqs facs Let_def)
  have info: "klog_info (klog_stress 0 300 klog_ring_new) = (45, 300, 300, 44, 256, 256)"
    by (simp add: klog_stress_fold klog_info_push kconst)
  have m1: "pid r1 = 1" "timestamp_ticks r1 = 100" "take 4 (facility r1) = byte_str ''init''"
    "take 14 (msg r1) = byte_str ''boot message 1''" "take 3 (facility r2) = byte_str ''vfs''"
    unfolding r1_def r2_def by code_simp+
  show ?thesis
    by (simp add: rust_klog_selftest_def a1 rd1 tl2(1) rd3 rd4 info m1 seqs sevs klog_bit_def
        flip: t2_def t3_def)
qed

text \<open>A reachable state for the properties above: one line logged at boot.\<close>

definition klog_boot :: klog_ring where
  "klog_boot = klog_step (KLine (Some (byte_str ''[ OK ] up'')) 7 1) klog_ring_new"

lemma klog_boot_reachable: "klog_reachable klog_boot"
  unfolding klog_boot_def by (intro reachable.intros) simp

theorem klog_read_oldest_matches_witness:
  "klog_reachable klog_boot \<and> [klog_entry_empty] \<noteq> []
   \<and> (case klog_read klog_boot 0 KLOG_SEV_ANY [] [klog_entry_empty] of ((n, nxt, dropped, tot), out') \<Rightarrow>
      n = min (length (filter (klog_wanted 0 KLOG_SEV_ANY []) (klog_contents klog_boot))) (length [klog_entry_empty])
    \<and> out' = take n (filter (klog_wanted 0 KLOG_SEV_ANY []) (klog_contents klog_boot)) @ drop n [klog_entry_empty]
    \<and> dropped = dropped_count klog_boot \<and> tot = total_logged klog_boot)"
  by (intro conjI klog_boot_reachable klog_read_oldest_matches) simp_all


theorem klog_reachable_inv_witness: "klog_reachable klog_boot \<and> klog_inv klog_boot"
  using klog_reachable_inv [OF klog_boot_reachable] klog_boot_reachable by blast

end
