(* ===== verification/Pipe.thy ===== *)
theory Pipe
  imports Prelude
begin

text \<open>
  Kernel pipes (\<open>src/kernel/rust/pipe.rs\<close>): eight slots, each a ring of 1024 bytes with a flag per
  end.  The table is the state; a caller's buffer is an option (\<open>None\<close> is NULL).
\<close>

section \<open>Data\<close>

definition MAX_PIPES :: usize where [kconst]: "MAX_PIPES = 8"
definition PIPE_CAPACITY :: usize where [kconst]: "PIPE_CAPACITY = 1024"

record pipe =
  buf :: bytes
  read_pos :: usize
  write_pos :: usize
  count :: usize
  in_use :: bool
  reader_open :: bool
  writer_open :: bool

definition EMPTY_PIPE :: pipe where
  "EMPTY_PIPE = \<lparr>buf = replicate PIPE_CAPACITY 0, read_pos = 0, write_pos = 0, count = 0,
     in_use = False, reader_open = False, writer_open = False\<rparr>"

definition PIPES :: "pipe list" where
  "PIPES = replicate MAX_PIPES EMPTY_PIPE"

section \<open>Operations\<close>

definition rust_pipe_create :: "pipe list \<Rightarrow> i32 \<times> pipe list" where
  "rust_pipe_create ps =
    (case position (\<lambda>p. \<not> in_use p) ps of
       Some i \<Rightarrow> (int i, ps[i := (ps ! i)\<lparr>in_use := True, read_pos := 0, write_pos := 0, count := 0,
                                      reader_open := True, writer_open := True\<rparr>])
     | None \<Rightarrow> (- 1, ps))"

text \<open>The copy loop of \<open>rust_pipe_read\<close>: \<open>n\<close> bytes from the read position.\<close>

fun pipe_read_loop :: "nat \<Rightarrow> pipe \<Rightarrow> bytes \<times> pipe" where
  "pipe_read_loop 0 p = ([], p)"
| "pipe_read_loop (Suc n) p =
    (let b = buf p ! read_pos p;
         (bs, p') = pipe_read_loop n (p\<lparr>read_pos := (read_pos p + 1) mod PIPE_CAPACITY\<rparr>)
     in (b # bs, p'))"

definition rust_pipe_read ::
  "i32 \<Rightarrow> bytes option \<Rightarrow> u32 \<Rightarrow> pipe list \<Rightarrow> (i32 \<times> bytes option) \<times> pipe list" where
  "rust_pipe_read pid out max_len ps =
    (case out of None \<Rightarrow> ((- 1, out), ps)
     | Some dst \<Rightarrow>
      if pid < 0 \<or> nat pid \<ge> MAX_PIPES then ((- 1, out), ps)
      else let p = ps ! nat pid in
       if \<not> in_use p then ((- 1, out), ps)
       else if count p = 0 then ((if writer_open p then - 2 else 0, out), ps)
       else let to_copy = min (unat max_len) (count p) in
         case pipe_read_loop to_copy p of (bs, p') \<Rightarrow>
           ((int to_copy, Some (copy_prefix bs dst)), ps[nat pid := p'\<lparr>count := count p' - to_copy\<rparr>]))"

text \<open>The copy loop of \<open>rust_pipe_write\<close>.\<close>

fun pipe_write_loop :: "bytes \<Rightarrow> pipe \<Rightarrow> pipe" where
  "pipe_write_loop [] p = p"
| "pipe_write_loop (b # bs) p =
     pipe_write_loop bs (p\<lparr>buf := (buf p)[write_pos p := b], write_pos := (write_pos p + 1) mod PIPE_CAPACITY\<rparr>)"

definition rust_pipe_write :: "i32 \<Rightarrow> bytes option \<Rightarrow> u32 \<Rightarrow> pipe list \<Rightarrow> i32 \<times> pipe list" where
  "rust_pipe_write pid src len ps =
    (case src of None \<Rightarrow> (- 1, ps)
     | Some input \<Rightarrow>
      if pid < 0 \<or> nat pid \<ge> MAX_PIPES then (- 1, ps)
      else let p = ps ! nat pid in
       if \<not> in_use p \<or> \<not> reader_open p then (- 1, ps)
       else let space = PIPE_CAPACITY - count p;
                to_copy = min (unat len) space;
                p' = pipe_write_loop (take to_copy input) p
            in (int to_copy, ps[nat pid := p'\<lparr>count := count p' + to_copy\<rparr>]))"

definition rust_pipe_close :: "i32 \<Rightarrow> i32 \<Rightarrow> pipe list \<Rightarrow> pipe list" where
  "rust_pipe_close pid is_read_end ps =
    (if pid < 0 \<or> nat pid \<ge> MAX_PIPES then ps
     else let p = ps ! nat pid in
      if \<not> in_use p then ps
      else let p1 = (if is_read_end \<noteq> 0 then p\<lparr>reader_open := False\<rparr> else p\<lparr>writer_open := False\<rparr>)
           in ps[nat pid := (if \<not> reader_open p1 \<and> \<not> writer_open p1 then p1\<lparr>in_use := False\<rparr> else p1)])"

section \<open>A pipe as a bounded byte queue\<close>

definition pipe_contents :: "pipe \<Rightarrow> bytes" where
  "pipe_contents p = ring_window (buf p) (read_pos p) (count p)"

definition pipe_inv :: "pipe \<Rightarrow> bool" where
  "pipe_inv p \<longleftrightarrow>
     length (buf p) = PIPE_CAPACITY \<and> read_pos p < PIPE_CAPACITY \<and> count p \<le> PIPE_CAPACITY
   \<and> write_pos p = (read_pos p + count p) mod PIPE_CAPACITY
   \<and> (in_use p \<longleftrightarrow> reader_open p \<or> writer_open p)"

text \<open>What a read and a write do to the one slot they touch.\<close>

definition pipe_get :: "nat \<Rightarrow> pipe \<Rightarrow> bytes \<times> pipe" where
  "pipe_get n p = (case pipe_read_loop (min n (count p)) p of
     (bs, p') \<Rightarrow> (bs, p'\<lparr>count := count p' - min n (count p)\<rparr>))"

definition pipe_put :: "bytes \<Rightarrow> pipe \<Rightarrow> nat \<times> pipe" where
  "pipe_put bs p =
    (let k = min (length bs) (PIPE_CAPACITY - count p); p' = pipe_write_loop (take k bs) p
     in (k, p'\<lparr>count := count p' + k\<rparr>))"

text \<open>
  The contract of a bounded byte queue: a put takes what fits and appends it, a get removes from
  the front.  A client that interleaves them gets back what was accepted, in order.
\<close>

locale bounded_queue =
  fixes cap :: nat
    and contents :: "'s \<Rightarrow> 'a list"
    and invar :: "'s \<Rightarrow> bool"
    and put :: "'a list \<Rightarrow> 's \<Rightarrow> nat \<times> 's"
    and get :: "nat \<Rightarrow> 's \<Rightarrow> 'a list \<times> 's"
  assumes put_taken: "invar s \<Longrightarrow> fst (put xs s) = min (length xs) (cap - length (contents s))"
    and put_contents: "invar s \<Longrightarrow> contents (snd (put xs s)) = contents s @ take (fst (put xs s)) xs"
    and put_invar: "invar s \<Longrightarrow> invar (snd (put xs s))"
    and get_given: "invar s \<Longrightarrow> fst (get n s) = take n (contents s)"
    and get_contents: "invar s \<Longrightarrow> contents (snd (get n s)) = drop n (contents s)"
    and get_invar: "invar s \<Longrightarrow> invar (snd (get n s))"
begin

lemma put_conserves: "invar s \<Longrightarrow> contents s @ take (fst (put xs s)) xs = [] @ contents (snd (put xs s))"
  by (simp add: put_contents)

lemma get_conserves: "invar s \<Longrightarrow> contents s @ [] = fst (get n s) @ contents (snd (get n s))"
  by (simp add: get_given get_contents)

end

lemma pipe_read_loop_spec:
  "pipe_read_loop n p
   = (ring_window (buf p) (read_pos p) n, p\<lparr>read_pos := (if n = 0 then read_pos p else (read_pos p + n) mod PIPE_CAPACITY)\<rparr>)"
  if "length (buf p) = PIPE_CAPACITY" and "read_pos p < PIPE_CAPACITY"
  using that
proof (induction n arbitrary: p)
  case 0
  show ?case by simp
next
  case (Suc n)
  let ?q = "p\<lparr>read_pos := (read_pos p + 1) mod PIPE_CAPACITY\<rparr>"
  have q: "length (buf ?q) = PIPE_CAPACITY" "read_pos ?q < PIPE_CAPACITY"
    using Suc.prems by (simp_all add: kconst)
  have tl: "ring_window (buf p) ((read_pos p + 1) mod PIPE_CAPACITY) n
      = drop 1 (ring_window (buf p) (read_pos p) (Suc n))"
    using ring_window_advance [of 1 "Suc n" "buf p" "read_pos p"] Suc.prems by simp
  have hd: "buf p ! read_pos p = ring_window (buf p) (read_pos p) (Suc n) ! 0"
    using Suc.prems by (simp add: ring_window_nth)
  have "buf p ! read_pos p # drop 1 (ring_window (buf p) (read_pos p) (Suc n))
      = ring_window (buf p) (read_pos p) (Suc n)"
    unfolding hd using Cons_nth_drop_Suc [of 0 "ring_window (buf p) (read_pos p) (Suc n)"] by simp
  moreover have "((read_pos p + 1) mod PIPE_CAPACITY + n) mod PIPE_CAPACITY = (read_pos p + Suc n) mod PIPE_CAPACITY"
    by (simp only: mod_add_left_eq add.assoc plus_1_eq_Suc)
  ultimately show ?case
    using Suc.IH [OF q] tl by (auto simp: Let_def)
qed

lemma pipe_write_loop_spec:
  assumes "length (buf p) = PIPE_CAPACITY" and "write_pos p = (start + n) mod PIPE_CAPACITY"
    and "n + length bs \<le> PIPE_CAPACITY"
  shows "\<exists>b w. pipe_write_loop bs p = p\<lparr>buf := b, write_pos := w\<rparr> \<and> length b = PIPE_CAPACITY
    \<and> w = (start + n + length bs) mod PIPE_CAPACITY
    \<and> ring_window b start (n + length bs) = ring_window (buf p) start n @ bs"
  using assms
proof (induction bs arbitrary: p n)
  case Nil
  then have "pipe_write_loop [] p = p\<lparr>buf := buf p, write_pos := write_pos p\<rparr>" by simp
  with Nil show ?case by (metis add.right_neutral append_Nil2 list.size(3))
next
  case (Cons x bs)
  let ?q = "p\<lparr>buf := (buf p)[write_pos p := x], write_pos := (write_pos p + 1) mod PIPE_CAPACITY\<rparr>"
  have wp: "write_pos ?q = (start + Suc n) mod PIPE_CAPACITY"
    using Cons.prems(2) mod_Suc_eq [of "start + n"] by simp
  have push: "ring_window (buf ?q) start (Suc n) = ring_window (buf p) start n @ [x]"
    using ring_window_push [of n "buf p" start x] Cons.prems by simp
  obtain b w where "pipe_write_loop bs ?q = ?q\<lparr>buf := b, write_pos := w\<rparr>" "length b = PIPE_CAPACITY"
    "w = (start + Suc n + length bs) mod PIPE_CAPACITY"
    "ring_window b start (Suc n + length bs) = ring_window (buf ?q) start (Suc n) @ bs"
    using Cons.IH [of ?q "Suc n"] wp Cons.prems by auto
  with push have "pipe_write_loop (x # bs) p = p\<lparr>buf := b, write_pos := w\<rparr> \<and> length b = PIPE_CAPACITY
    \<and> w = (start + n + length (x # bs)) mod PIPE_CAPACITY
    \<and> ring_window b start (n + length (x # bs)) = ring_window (buf p) start n @ (x # bs)"
    by simp
  then show ?case by blast
qed

lemma pipe_put_spec:
  assumes "pipe_inv p"
  shows "fst (pipe_put xs p) = min (length xs) (PIPE_CAPACITY - count p)"
    and "pipe_contents (snd (pipe_put xs p)) = pipe_contents p @ take (fst (pipe_put xs p)) xs"
    and "pipe_inv (snd (pipe_put xs p))"
proof -
  define k where "k = min (length xs) (PIPE_CAPACITY - count p)"
  have k: "length (take k xs) = k" "count p + k \<le> PIPE_CAPACITY"
    using assms by (auto simp: k_def pipe_inv_def)
  obtain b w where loop: "pipe_write_loop (take k xs) p = p\<lparr>buf := b, write_pos := w\<rparr>" "length b = PIPE_CAPACITY"
    "w = (read_pos p + count p + k) mod PIPE_CAPACITY"
    "ring_window b (read_pos p) (count p + k) = ring_window (buf p) (read_pos p) (count p) @ take k xs"
    using pipe_write_loop_spec [of p "read_pos p" "count p" "take k xs"] assms k
    by (auto simp: pipe_inv_def)
  have put: "pipe_put xs p = (k, p\<lparr>buf := b, write_pos := w, count := count p + k\<rparr>)"
    using loop(1) by (simp add: pipe_put_def k_def Let_def)
  show "fst (pipe_put xs p) = min (length xs) (PIPE_CAPACITY - count p)"
    by (simp add: put k_def)
  show "pipe_contents (snd (pipe_put xs p)) = pipe_contents p @ take (fst (pipe_put xs p)) xs"
    using loop(4) by (simp add: put pipe_contents_def)
  show "pipe_inv (snd (pipe_put xs p))"
    using assms k loop by (simp add: put pipe_inv_def add.assoc)
qed

lemma pipe_get_spec:
  assumes "pipe_inv p"
  shows "fst (pipe_get n p) = take n (pipe_contents p)"
    and "pipe_contents (snd (pipe_get n p)) = drop n (pipe_contents p)"
    and "pipe_inv (snd (pipe_get n p))"
proof -
  define k where "k = min n (count p)"
  have inv: "length (buf p) = PIPE_CAPACITY" "read_pos p < PIPE_CAPACITY" "k \<le> count p"
    using assms by (simp_all add: pipe_inv_def k_def)
  have rp: "(if k = 0 then read_pos p else (read_pos p + k) mod PIPE_CAPACITY) = (read_pos p + k) mod PIPE_CAPACITY"
    using inv by simp
  have get: "pipe_get n p = (ring_window (buf p) (read_pos p) k,
      p\<lparr>read_pos := (read_pos p + k) mod PIPE_CAPACITY, count := count p - k\<rparr>)"
    using pipe_read_loop_spec [OF inv(1,2), of k] unfolding rp by (simp add: pipe_get_def k_def)
  have all: "take k (pipe_contents p) = take n (pipe_contents p)" "drop k (pipe_contents p) = drop n (pipe_contents p)"
    by (auto simp: k_def pipe_contents_def min_def)
  show "fst (pipe_get n p) = take n (pipe_contents p)"
    using all(1) take_ring_window [OF inv(3), of "buf p" "read_pos p"] by (simp add: get pipe_contents_def)
  show "pipe_contents (snd (pipe_get n p)) = drop n (pipe_contents p)"
    using all(2) ring_window_advance [OF inv(3), of "buf p" "read_pos p"] inv(1)
    by (simp add: get pipe_contents_def)
  have "((read_pos p + k) mod PIPE_CAPACITY + (count p - k)) mod PIPE_CAPACITY = (read_pos p + count p) mod PIPE_CAPACITY"
    using inv(3) by (simp only: mod_add_left_eq add.assoc le_add_diff_inverse)
  then show "pipe_inv (snd (pipe_get n p))"
    using assms by (auto simp: get pipe_inv_def kconst intro: le_trans [OF diff_le_self])
qed

lemma length_pipe_contents [simp]: "length (pipe_contents p) = count p"
  by (simp add: pipe_contents_def)

interpretation pq: bounded_queue PIPE_CAPACITY pipe_contents pipe_inv pipe_put pipe_get
  by unfold_locales (simp_all add: pipe_put_spec pipe_get_spec)

lemma pipe_put_flags [simp]:
  "in_use (snd (pipe_put xs p)) = in_use p" "reader_open (snd (pipe_put xs p)) = reader_open p"
  "writer_open (snd (pipe_put xs p)) = writer_open p"
proof -
  have "in_use (pipe_write_loop bs p) = in_use p \<and> reader_open (pipe_write_loop bs p) = reader_open p
      \<and> writer_open (pipe_write_loop bs p) = writer_open p" for bs
    by (induction bs arbitrary: p) simp_all
  then show "in_use (snd (pipe_put xs p)) = in_use p" "reader_open (snd (pipe_put xs p)) = reader_open p"
    "writer_open (snd (pipe_put xs p)) = writer_open p" by (simp_all add: pipe_put_def Let_def)
qed

lemma pipe_get_flags [simp]:
  "in_use (snd (pipe_get n p)) = in_use p" "reader_open (snd (pipe_get n p)) = reader_open p"
  "writer_open (snd (pipe_get n p)) = writer_open p"
proof -
  have "in_use (snd (pipe_read_loop k p)) = in_use p \<and> reader_open (snd (pipe_read_loop k p)) = reader_open p
      \<and> writer_open (snd (pipe_read_loop k p)) = writer_open p" for k
    by (induction k arbitrary: p) (simp_all add: Let_def case_prod_beta)
  then show "in_use (snd (pipe_get n p)) = in_use p" "reader_open (snd (pipe_get n p)) = reader_open p"
    "writer_open (snd (pipe_get n p)) = writer_open p"
    by (simp_all add: pipe_get_def case_prod_beta)
qed

section \<open>The table\<close>

definition pipes_inv :: "pipe list \<Rightarrow> bool" where
  "pipes_inv ps \<longleftrightarrow> length ps = MAX_PIPES \<and> list_all pipe_inv ps"

text \<open>The calls; a caller's buffer is at least as long as the length it passes.\<close>

datatype pipe_op =
    PCreate
  | PRead i32 "bytes option" u32
  | PWrite i32 "bytes option" u32
  | PClose i32 i32

fun pipe_op_ok :: "pipe_op \<Rightarrow> bool" where
  "pipe_op_ok (PRead _ (Some b) n) \<longleftrightarrow> unat n \<le> length b"
| "pipe_op_ok (PWrite _ (Some b) n) \<longleftrightarrow> unat n \<le> length b"
| "pipe_op_ok _ \<longleftrightarrow> True"

fun pipe_step :: "pipe_op \<Rightarrow> pipe list \<Rightarrow> pipe list" where
  "pipe_step PCreate ps = snd (rust_pipe_create ps)"
| "pipe_step (PRead i b n) ps = snd (rust_pipe_read i b n ps)"
| "pipe_step (PWrite i b n) ps = snd (rust_pipe_write i b n ps)"
| "pipe_step (PClose i e) ps = rust_pipe_close i e ps"

abbreviation pipes_reachable :: "pipe list \<Rightarrow> bool" where
  "pipes_reachable \<equiv> reachable pipe_op_ok pipe_step PIPES"

text \<open>The bytes one call puts into pipe \<open>i\<close>, and the bytes it hands out, by what it returns.\<close>

fun pipe_accepted :: "i32 \<Rightarrow> pipe_op \<Rightarrow> pipe list \<Rightarrow> bytes" where
  "pipe_accepted i (PWrite j (Some src) n) ps =
     (if i = j then take (nat (fst (rust_pipe_write j (Some src) n ps))) src else [])"
| "pipe_accepted i _ ps = []"

fun pipe_delivered :: "i32 \<Rightarrow> pipe_op \<Rightarrow> pipe list \<Rightarrow> bytes" where
  "pipe_delivered i (PRead j (Some dst) n) ps =
     (if i = j then case fst (rust_pipe_read j (Some dst) n ps) of
         (r, Some out) \<Rightarrow> take (nat r) out | (r, None) \<Rightarrow> [] else [])"
| "pipe_delivered i _ ps = []"

fun pipe_run :: "i32 \<Rightarrow> pipe_op list \<Rightarrow> pipe list \<Rightarrow> bytes \<times> bytes \<times> pipe list" where
  "pipe_run i [] ps = ([], [], ps)"
| "pipe_run i (op # ops) ps =
    (case pipe_run i ops (pipe_step op ps) of
       (acc, del, ps') \<Rightarrow> (pipe_accepted i op ps @ acc, pipe_delivered i op ps @ del, ps'))"

fun stays_open :: "i32 \<Rightarrow> pipe_op list \<Rightarrow> pipe list \<Rightarrow> bool" where
  "stays_open i [] ps \<longleftrightarrow> in_use (ps ! nat i)"
| "stays_open i (op # ops) ps \<longleftrightarrow> in_use (ps ! nat i) \<and> stays_open i ops (pipe_step op ps)"

lemma pipes_inv_nth: "pipes_inv ps \<Longrightarrow> i < MAX_PIPES \<Longrightarrow> pipe_inv (ps ! i)"
  by (simp add: pipes_inv_def list_all_length)

lemma pipes_inv_update: "pipes_inv ps \<Longrightarrow> pipe_inv p \<Longrightarrow> pipes_inv (ps[i := p])"
  by (auto simp: pipes_inv_def list_all_iff dest!: set_update_subset_insert [THEN subsetD])

lemma pipe_null_buffer:
  "rust_pipe_read i None n ps = ((- 1, None), ps)" "rust_pipe_write i None n ps = (- 1, ps)"
  by (simp_all add: rust_pipe_read_def rust_pipe_write_def)

lemma rust_pipe_write_eq:
  assumes "pipes_inv ps" and "unat n \<le> length src"
  shows "rust_pipe_write i (Some src) n ps =
    (if i < 0 \<or> nat i \<ge> MAX_PIPES \<or> \<not> in_use (ps ! nat i) \<or> \<not> reader_open (ps ! nat i) then (- 1, ps)
     else (int (fst (pipe_put (take (unat n) src) (ps ! nat i))),
           ps[nat i := snd (pipe_put (take (unat n) src) (ps ! nat i))]))"
  using assms by (simp add: rust_pipe_write_def pipe_put_def Let_def min.commute)

lemma rust_pipe_read_eq:
  assumes "pipes_inv ps"
  shows "rust_pipe_read i (Some dst) n ps =
    (if i < 0 \<or> nat i \<ge> MAX_PIPES \<or> \<not> in_use (ps ! nat i) then ((- 1, Some dst), ps)
     else if count (ps ! nat i) = 0 then ((if writer_open (ps ! nat i) then - 2 else 0, Some dst), ps)
     else ((int (min (unat n) (count (ps ! nat i))), Some (copy_prefix (fst (pipe_get (unat n) (ps ! nat i))) dst)),
           ps[nat i := snd (pipe_get (unat n) (ps ! nat i))]))"
  by (simp add: rust_pipe_read_def pipe_get_def Let_def split: prod.splits)

lemma pipe_close_inv:
  assumes "pipes_inv ps"
  shows "pipes_inv (rust_pipe_close i e ps)"
proof (cases "i < 0 \<or> nat i \<ge> MAX_PIPES \<or> \<not> in_use (ps ! nat i)")
  case True
  with assms show ?thesis by (auto simp: rust_pipe_close_def Let_def)
next
  case False
  with assms have "pipe_inv (ps ! nat i)" by (intro pipes_inv_nth) auto
  with False assms show ?thesis
    unfolding rust_pipe_close_def Let_def
    by (auto intro!: pipes_inv_update simp: pipe_inv_def)
qed

lemma pipe_create_inv:
  assumes "pipes_inv ps"
  shows "pipes_inv (snd (rust_pipe_create ps))"
proof (cases "position (\<lambda>p. \<not> in_use p) ps")
  case None
  with assms show ?thesis by (simp add: rust_pipe_create_def)
next
  case (Some i)
  then have "i < length ps" by (rule position_SomeD)
  with assms have "pipe_inv (ps ! i)" by (simp add: pipes_inv_def list_all_length)
  with Some assms show ?thesis
    by (auto simp: rust_pipe_create_def pipe_inv_def kconst intro!: pipes_inv_update)
qed

lemma pipes_inv_step:
  assumes "pipes_inv ps" and "pipe_op_ok op"
  shows "pipes_inv (pipe_step op ps)"
proof (cases op)
  case PCreate
  with assms show ?thesis by (simp add: pipe_create_inv)
next
  case (PRead i b n)
  then show ?thesis
    using assms by (cases b) (auto simp: rust_pipe_read_eq pipe_null_buffer pipes_inv_update pq.get_invar pipes_inv_nth)
next
  case (PWrite i b n)
  then show ?thesis
    using assms by (cases b) (auto simp: rust_pipe_write_eq pipe_null_buffer pipes_inv_update pq.put_invar pipes_inv_nth)
next
  case (PClose i e)
  with assms show ?thesis by (simp add: pipe_close_inv)
qed

lemma pipes_inv_init: "pipes_inv PIPES"
  by (simp add: pipes_inv_def PIPES_def EMPTY_PIPE_def pipe_inv_def kconst list_all_iff)

interpretation pm: invariant_machine pipe_op_ok pipe_step PIPES pipes_inv
  by unfold_locales (simp_all add: pipes_inv_init pipes_inv_step)

text \<open>One call conserves the bytes of pipe \<open>i\<close>, whichever pipe the call is about.\<close>

lemma pipe_step_conserves:
  assumes inv: "pipes_inv ps" and ok: "pipe_op_ok op" and i: "0 \<le> i" "nat i < MAX_PIPES"
    and used: "in_use (ps ! nat i)"
  shows "pipe_contents (ps ! nat i) @ pipe_accepted i op ps
       = pipe_delivered i op ps @ pipe_contents (pipe_step op ps ! nat i)"
proof (cases op)
  case PCreate
  have "position (\<lambda>p. \<not> in_use p) ps \<noteq> Some (nat i)"
    using assms(5) by (auto dest: position_SomeD)
  then show ?thesis
    by (auto simp: PCreate rust_pipe_create_def split: option.splits)
next
  case (PRead j b n)
  show ?thesis
  proof (cases b)
    case None
    then show ?thesis by (simp add: PRead pipe_null_buffer)
  next
    case (Some dst)
    have p: "pipe_inv (ps ! nat i)" using inv i(2) by (rule pipes_inv_nth)
    show ?thesis
    proof (cases "j = i")
      case True
      have len: "nat i < length ps" using inv i(2) by (simp add: pipes_inv_def)
      have g: "length (fst (pipe_get (unat n) (ps ! nat i))) = min (unat n) (count (ps ! nat i))"
        by (simp add: pq.get_given [OF p] min.commute)
      show ?thesis
        using True assms(5) i len g pq.get_conserves [OF p, of "unat n"] inv
        by (auto simp: PRead Some rust_pipe_read_eq)
    next
      case False
      moreover have "0 \<le> j \<Longrightarrow> nat j \<noteq> nat i" using False i(1) by auto
      ultimately show ?thesis using inv by (auto simp: PRead Some rust_pipe_read_eq)
    qed
  qed
next
  case (PWrite j b n)
  show ?thesis
  proof (cases b)
    case None
    then show ?thesis by (simp add: PWrite pipe_null_buffer)
  next
    case (Some src)
    have n: "unat n \<le> length src" using ok by (simp add: PWrite Some)
    have p: "pipe_inv (ps ! nat i)" using inv i(2) by (rule pipes_inv_nth)
    show ?thesis
    proof (cases "j = i")
      case True
      have len: "nat i < length ps" using inv i(2) by (simp add: pipes_inv_def)
      have "fst (pipe_put (take (unat n) src) (ps ! nat i)) \<le> unat n"
        by (simp add: pq.put_taken [OF p])
      then show ?thesis
        using True assms(5) i len pq.put_contents [OF p, of "take (unat n) src"]
        by (simp add: PWrite Some rust_pipe_write_eq [OF inv n] min_absorb1)
    next
      case False
      moreover have "0 \<le> j \<Longrightarrow> nat j \<noteq> nat i" using False i(1) by auto
      ultimately show ?thesis by (auto simp: PWrite Some rust_pipe_write_eq [OF inv n])
    qed
  qed
next
  case (PClose j e)
  have "pipe_contents (rust_pipe_close j e ps ! nat i) = pipe_contents (ps ! nat i)"
    using inv i by (auto simp: rust_pipe_close_def Let_def nth_list_update pipes_inv_def pipe_contents_def)
  then show ?thesis by (simp add: PClose)
qed

lemma pipe_run_conserves:
  assumes "pipes_inv ps" and "list_all pipe_op_ok ops" and "0 \<le> i" "nat i < MAX_PIPES"
    and "stays_open i ops ps" and "pipe_run i ops ps = (acc, del, ps')"
  shows "pipe_contents (ps ! nat i) @ acc = del @ pipe_contents (ps' ! nat i)"
  using assms
proof (induction ops arbitrary: ps acc del)
  case Nil
  then show ?case by simp
next
  case (Cons op ops)
  obtain a d q where run: "pipe_run i ops (pipe_step op ps) = (a, d, q)"
    by (cases "pipe_run i ops (pipe_step op ps)") auto
  with Cons.prems have eqs: "acc = pipe_accepted i op ps @ a" "del = pipe_delivered i op ps @ d" "ps' = q"
    by simp_all
  have "pipe_contents (pipe_step op ps ! nat i) @ a = d @ pipe_contents (ps' ! nat i)"
    using Cons.prems run eqs(3) by (intro Cons.IH) (auto intro: pipes_inv_step)
  moreover have "pipe_contents (ps ! nat i) @ pipe_accepted i op ps
       = pipe_delivered i op ps @ pipe_contents (pipe_step op ps ! nat i)"
    using Cons.prems by (intro pipe_step_conserves) auto
  ultimately show ?case by (simp add: eqs) (metis append_assoc)
qed

section \<open>Properties\<close>

text \<open>
  (C10) A pipe is a reliable byte stream.  However reads, writes, closes and creations of any pipes
  are interleaved, while pipe \<open>i\<close> is not freed the bytes in it followed by the bytes its writers were
  told were accepted are the bytes its readers were given followed by the bytes still in it.
\<close>

theorem pipe_stream_integrity:
  assumes "pipes_reachable ps" and "list_all pipe_op_ok ops" and "0 \<le> i" and "nat i < MAX_PIPES"
    and "stays_open i ops ps"
  shows "case pipe_run i ops ps of (acc, del, ps') \<Rightarrow>
      pipe_contents (ps ! nat i) @ acc = del @ pipe_contents (ps' ! nat i)"
proof (cases "pipe_run i ops ps")
  case (fields acc del ps')
  with assms pm.reachable_inv show ?thesis
    by (simp add: pipe_run_conserves)
qed

text \<open>
  Every answer of a read, in every reachable state: -1 for a NULL buffer, a number that is no
  slot or a slot not in use; -2 when the pipe is empty and may still be written; 0 when it is empty
  and its write end is closed; otherwise the oldest bytes, as many as were asked for and are there,
  placed at the front of the caller's buffer and removed from the pipe, every other pipe untouched.
\<close>

theorem pipe_read_result:
  assumes "pipes_reachable ps" and "unat n \<le> length dst"
  shows "rust_pipe_read i None n ps = ((- 1, None), ps)
   \<and> (if i < 0 \<or> nat i \<ge> MAX_PIPES \<or> \<not> in_use (ps ! nat i)
      then rust_pipe_read i (Some dst) n ps = ((- 1, Some dst), ps)
      else if pipe_contents (ps ! nat i) = []
      then rust_pipe_read i (Some dst) n ps = ((if writer_open (ps ! nat i) then - 2 else 0, Some dst), ps)
      else case rust_pipe_read i (Some dst) n ps of ((r, out), ps') \<Rightarrow>
           r = int (min (unat n) (length (pipe_contents (ps ! nat i))))
         \<and> out = Some (take (nat r) (pipe_contents (ps ! nat i)) @ drop (nat r) dst)
         \<and> pipe_contents (ps' ! nat i) = drop (nat r) (pipe_contents (ps ! nat i))
         \<and> (\<forall>j. j \<noteq> nat i \<longrightarrow> ps' ! j = ps ! j))"
proof -
  have inv: "pipes_inv ps" using assms(1) by (rule pm.reachable_inv)
  have emp: "pipe_contents p = [] \<longleftrightarrow> count p = 0" for p
    using length_pipe_contents [of p] by (metis length_0_conv)
  show ?thesis
  proof (cases "i < 0 \<or> nat i \<ge> MAX_PIPES \<or> \<not> in_use (ps ! nat i) \<or> pipe_contents (ps ! nat i) = []")
    case True
    then show ?thesis by (auto simp: rust_pipe_read_eq [OF inv] pipe_null_buffer emp)
  next
    case False
    then have p: "pipe_inv (ps ! nat i)" and len: "nat i < length ps"
      using inv by (auto intro: pipes_inv_nth simp: pipes_inv_def)
    have all: "take (min (unat n) (count (ps ! nat i))) (pipe_contents (ps ! nat i)) = take (unat n) (pipe_contents (ps ! nat i))"
      "drop (min (unat n) (count (ps ! nat i))) (pipe_contents (ps ! nat i)) = drop (unat n) (pipe_contents (ps ! nat i))"
      by (simp_all add: min_def)
    from False have "count (ps ! nat i) \<noteq> 0" by (simp add: emp)
    with False all len show ?thesis
      by (simp add: rust_pipe_read_eq [OF inv] pipe_null_buffer pq.get_given [OF p] pq.get_contents [OF p]
          copy_prefix_def min.commute)
  qed
qed

text \<open>
  Every answer of a write: -1 and no change for a NULL buffer, a number that is no slot, a slot
  not in use or a pipe whose read end is closed; otherwise a write takes the longest prefix of the
  caller's bytes that fits into the 1024-byte buffer, says how long it is and adds it at the end of
  the stream, every other pipe untouched.
\<close>

theorem pipe_write_result:
  assumes "pipes_reachable ps" and "unat n \<le> length src"
  shows "rust_pipe_write i None n ps = (- 1, ps)
   \<and> (if i < 0 \<or> nat i \<ge> MAX_PIPES \<or> \<not> in_use (ps ! nat i) \<or> \<not> reader_open (ps ! nat i)
      then rust_pipe_write i (Some src) n ps = (- 1, ps)
      else case rust_pipe_write i (Some src) n ps of (r, ps') \<Rightarrow>
           r = int (min (unat n) (1024 - length (pipe_contents (ps ! nat i))))
         \<and> pipe_contents (ps' ! nat i) = pipe_contents (ps ! nat i) @ take (nat r) src
         \<and> length (pipe_contents (ps' ! nat i)) \<le> 1024
         \<and> (\<forall>j. j \<noteq> nat i \<longrightarrow> ps' ! j = ps ! j))"
proof -
  have inv: "pipes_inv ps" using assms(1) by (rule pm.reachable_inv)
  show ?thesis
  proof (cases "i < 0 \<or> nat i \<ge> MAX_PIPES \<or> \<not> in_use (ps ! nat i) \<or> \<not> reader_open (ps ! nat i)")
    case True
    then show ?thesis by (auto simp: rust_pipe_write_eq [OF inv assms(2)] pipe_null_buffer)
  next
    case False
    then have p: "pipe_inv (ps ! nat i)" and len: "nat i < length ps"
      using inv by (auto intro: pipes_inv_nth simp: pipes_inv_def)
    have "pipe_inv (snd (pipe_put (take (unat n) src) (ps ! nat i)))" using p by (rule pq.put_invar)
    then have "count (snd (pipe_put (take (unat n) src) (ps ! nat i))) \<le> 1024"
      by (simp add: pipe_inv_def kconst)
    with False len assms(2) show ?thesis
      by (simp add: rust_pipe_write_eq [OF inv assms(2)] pipe_null_buffer pq.put_taken [OF p]
          pq.put_contents [OF p] min_absorb1 kconst)
  qed
qed

text \<open>
  In every reachable state a creation fails, changing nothing, exactly when all eight slots are
  in use, and otherwise gives the lowest free slot an empty pipe with both ends open; a slot is in
  use exactly while one of its ends is open, so closing both ends makes it available again.
\<close>

theorem pipe_slots:
  assumes "pipes_reachable ps"
  shows "(\<forall>i < MAX_PIPES. in_use (ps ! i) \<longleftrightarrow> reader_open (ps ! i) \<or> writer_open (ps ! i))
   \<and> (case rust_pipe_create ps of (r, ps') \<Rightarrow>
        if \<forall>i < MAX_PIPES. in_use (ps ! i) then r = - 1 \<and> ps' = ps
        else 0 \<le> r \<and> nat r < MAX_PIPES \<and> \<not> in_use (ps ! nat r) \<and> (\<forall>j < nat r. in_use (ps ! j))
           \<and> pipe_contents (ps' ! nat r) = [] \<and> reader_open (ps' ! nat r) \<and> writer_open (ps' ! nat r)
           \<and> (\<forall>j. j \<noteq> nat r \<longrightarrow> ps' ! j = ps ! j))"
proof -
  have inv: "pipes_inv ps" using assms by (rule pm.reachable_inv)
  then have len: "length ps = MAX_PIPES" by (simp add: pipes_inv_def)
  have flags: "\<forall>i < MAX_PIPES. in_use (ps ! i) \<longleftrightarrow> reader_open (ps ! i) \<or> writer_open (ps ! i)"
    using pipes_inv_nth [OF inv] by (simp add: pipe_inv_def)
  show ?thesis
  proof (cases "position (\<lambda>p. \<not> in_use p) ps")
    case None
    then have "\<forall>i < MAX_PIPES. in_use (ps ! i)"
      using len by (simp add: position_None all_set_conv_all_nth)
    with None flags show ?thesis by (simp add: rust_pipe_create_def)
  next
    case (Some k)
    then have k: "k < MAX_PIPES" "\<not> in_use (ps ! k)" "\<forall>j < k. in_use (ps ! j)"
      using len by (auto simp: position_Some)
    then have "\<not> (\<forall>i < MAX_PIPES. in_use (ps ! i))" by blast
    with Some flags k len show ?thesis
      by (simp add: rust_pipe_create_def pipe_contents_def)
  qed
qed


text \<open>Witnesses: a pipe is created, written and read.\<close>

definition pipe_demo :: "pipe list" where
  "pipe_demo = snd (rust_pipe_create PIPES)"

lemma pipe_demo_reachable: "pipes_reachable pipe_demo"
proof -
  have "pipes_reachable (pipe_step PCreate PIPES)" by (intro reachable.intros) simp
  then show ?thesis by (simp add: pipe_demo_def)
qed

theorem pipe_stream_integrity_witness:
  "let ops = [PWrite 0 (Some [1, 2]) 2, PCreate, PRead 0 (Some [0, 0, 0]) 1, PClose 0 0]
   in stays_open 0 ops pipe_demo
    \<and> (case pipe_run 0 ops pipe_demo of (acc, del, ps') \<Rightarrow>
        acc = [1, 2] \<and> del = [1] \<and> pipe_contents (pipe_demo ! nat 0) @ acc = del @ pipe_contents (ps' ! nat 0))"
proof -
  let ?ops = "[PWrite 0 (Some [1, 2]) 2, PCreate, PRead 0 (Some [0, 0, 0]) 1, PClose 0 0]"
  have op: "stays_open 0 ?ops pipe_demo" by code_simp
  have run: "case pipe_run 0 ?ops pipe_demo of (acc, del, ps') \<Rightarrow> acc = [1, 2] \<and> del = [1]" by code_simp
  have "case pipe_run 0 ?ops pipe_demo of (acc, del, ps') \<Rightarrow>
      pipe_contents (pipe_demo ! nat 0) @ acc = del @ pipe_contents (ps' ! nat 0)"
    by (rule pipe_stream_integrity [OF pipe_demo_reachable _ _ _ op]) (simp_all add: kconst)
  with op run show ?thesis by (simp add: Let_def case_prod_beta)
qed

theorem pipe_read_result_witness:
  "pipes_reachable pipe_demo \<and> rust_pipe_read 0 (Some [0]) 1 pipe_demo = ((- 2, Some [0]), pipe_demo)"
proof -
  have "in_use (pipe_demo ! nat 0)" "pipe_contents (pipe_demo ! nat 0) = []" "writer_open (pipe_demo ! nat 0)"
    by code_simp+
  then show ?thesis
    using pipe_read_result [OF pipe_demo_reachable, of 1 "[0]" 0] pipe_demo_reachable by (simp add: kconst)
qed

theorem pipe_write_result_witness:
  "pipes_reachable pipe_demo \<and> fst (rust_pipe_write 0 (Some [4, 5]) 2 pipe_demo) = 2"
proof -
  have "in_use (pipe_demo ! nat 0)" "pipe_contents (pipe_demo ! nat 0) = []" "reader_open (pipe_demo ! nat 0)"
    by code_simp+
  then show ?thesis
    using pipe_write_result [OF pipe_demo_reachable, of 2 "[4, 5]" 0] pipe_demo_reachable
    by (simp add: kconst case_prod_beta)
qed

theorem pipe_slots_witness:
  "pipes_reachable pipe_demo \<and> in_use (pipe_demo ! 0) \<and> 0 \<le> fst (rust_pipe_create pipe_demo)"
proof -
  have "in_use (pipe_demo ! 0)" "\<not> in_use (pipe_demo ! 1)" by code_simp+
  moreover from this have "\<not> (\<forall>i < MAX_PIPES. in_use (pipe_demo ! i))" by (auto simp: kconst intro!: exI [of _ "Suc 0"])
  ultimately show ?thesis
    using pipe_slots [OF pipe_demo_reachable] pipe_demo_reachable by (simp add: case_prod_beta split: if_splits)
qed

end
