(* ===== verification/Growtable.thy ===== *)
theory Growtable
  imports Prelude
begin

text \<open>
  Growable kernel tables (\<open>src/kernel/rust/growtable.rs\<close>): a table is a list of chunks that the
  kernel heap provides; growing appends a chunk and never moves one.  \<open>usize\<close> arithmetic is 32-bit
  and wraps, a pointer is a 32-bit address (0 is NULL) and the memory is a function from addresses.
  The allocator \<open>kmalloc\<close> is C code and a parameter: it takes the heap's state and a size.
\<close>

section \<open>Data\<close>

definition MAX_CHUNKS :: nat where [kconst]: "MAX_CHUNKS = 64"
definition MAX_TABLES :: nat where [kconst]: "MAX_TABLES = 16"

type_synonym ptr = u32
type_synonym 'h kmalloc = "'h \<Rightarrow> u32 \<Rightarrow> ptr \<times> 'h"

record gtable =
  in_use :: bool
  element_size :: u32
  slots_per_chunk :: u32
  max_chunks :: u32
  chunks :: "ptr list"
  chunk_count :: u32

definition EMPTY_TABLE :: gtable where
  "EMPTY_TABLE = \<lparr>in_use = False, element_size = 0, slots_per_chunk = 0, max_chunks = 0,
     chunks = replicate MAX_CHUNKS 0, chunk_count = 0\<rparr>"

text \<open>The tables, the state of the C heap and the memory.\<close>

record 'h gstate =
  tables :: "gtable list"
  heap :: 'h
  memory :: "ptr \<Rightarrow> u8"

definition gstate_init :: "'h \<Rightarrow> (ptr \<Rightarrow> u8) \<Rightarrow> 'h gstate" where
  "gstate_init h m = \<lparr>tables = replicate MAX_TABLES EMPTY_TABLE, heap = h, memory = m\<rparr>"

section \<open>Operations\<close>

definition table_mut :: "i32 \<Rightarrow> gtable list \<Rightarrow> gtable option" where
  "table_mut handle ts = (if handle < 0 \<or> nat handle \<ge> MAX_TABLES then None else Some (ts ! nat handle))"

definition rust_growtable_create :: "u32 \<Rightarrow> u32 \<Rightarrow> u32 \<Rightarrow> gtable list \<Rightarrow> i32 \<times> gtable list" where
  "rust_growtable_create esize spc mchunks ts =
    (if esize = 0 \<or> spc = 0 \<or> mchunks = 0 then (- 1, ts)
     else if unat mchunks > MAX_CHUNKS then (- 1, ts)
     else case position (\<lambda>t. \<not> in_use t) ts of
        Some i \<Rightarrow> (int i, ts[i := (ts ! i)\<lparr>in_use := True, element_size := esize, slots_per_chunk := spc,
                                       max_chunks := mchunks, chunk_count := 0\<rparr>])
      | None \<Rightarrow> (- 1, ts))"

definition rust_growtable_capacity :: "i32 \<Rightarrow> gtable list \<Rightarrow> u32" where
  "rust_growtable_capacity handle ts =
    (case table_mut handle ts of
       Some t \<Rightarrow> if in_use t then chunk_count t * slots_per_chunk t else 0
     | None \<Rightarrow> 0)"

definition write_bytes :: "ptr \<Rightarrow> u8 \<Rightarrow> u32 \<Rightarrow> (ptr \<Rightarrow> u8) \<Rightarrow> ptr \<Rightarrow> u8" where
  "write_bytes p b n m = (\<lambda>a. if a - p < n then b else m a)"

text \<open>The loop of \<open>rust_growtable_ensure_capacity\<close>: one more chunk each time round.\<close>

function grow_loop ::
  "'h kmalloc \<Rightarrow> u32 \<Rightarrow> gtable \<Rightarrow> 'h \<Rightarrow> (ptr \<Rightarrow> u8) \<Rightarrow> bool \<times> gtable \<times> 'h \<times> (ptr \<Rightarrow> u8)" where
  "grow_loop kmalloc at_least t h m =
    (if chunk_count t * slots_per_chunk t < at_least then
       if chunk_count t \<ge> max_chunks t then (False, t, h, m)
       else let bytes = element_size t * slots_per_chunk t in
         case kmalloc h bytes of (mem, h') \<Rightarrow>
           if mem = 0 then (False, t, h', m)
           else grow_loop kmalloc at_least
                  (t\<lparr>chunks := (chunks t)[unat (chunk_count t) := mem], chunk_count := chunk_count t + 1\<rparr>)
                  h' (write_bytes mem 0 bytes m)
     else (True, t, h, m))"
  by pat_completeness auto
termination
proof (relation "measure (\<lambda>(_, _, t, _, _). unat (max_chunks t) - unat (chunk_count t))")
  show "wf (measure (\<lambda>(_, _, t :: gtable, _, _). unat (max_chunks t) - unat (chunk_count t)))" by simp
  fix kmalloc :: "'h kmalloc" and at_least :: u32 and t :: gtable and h m b x y and mem :: ptr and h'
  assume "\<not> max_chunks t \<le> chunk_count t"
  then have lt: "chunk_count t < max_chunks t" by simp
  from unat_inc [OF this] lt show "((kmalloc, at_least, t\<lparr>chunks := (chunks t)[unat (chunk_count t) := mem], chunk_count := chunk_count t + 1\<rparr>,
        h', write_bytes mem 0 b m), kmalloc, at_least, t, h, m)
      \<in> measure (\<lambda>(_, _, t, _, _). unat (max_chunks t) - unat (chunk_count t))" by (simp add: word_less_nat_alt)
qed

declare grow_loop.simps [simp del]

definition rust_growtable_ensure_capacity :: "'h kmalloc \<Rightarrow> i32 \<Rightarrow> u32 \<Rightarrow> 'h gstate \<Rightarrow> bool \<times> 'h gstate" where
  "rust_growtable_ensure_capacity kmalloc handle at_least s =
    (case table_mut handle (tables s) of
       Some t \<Rightarrow>
        if in_use t then case grow_loop kmalloc at_least t (heap s) (memory s) of
          (r, t', h', m') \<Rightarrow> (r, s\<lparr>tables := (tables s)[nat handle := t'], heap := h', memory := m'\<rparr>)
        else (False, s)
     | None \<Rightarrow> (False, s))"

definition rust_growtable_slot_ptr :: "i32 \<Rightarrow> u32 \<Rightarrow> gtable list \<Rightarrow> ptr" where
  "rust_growtable_slot_ptr handle index ts =
    (case table_mut handle ts of
       Some t \<Rightarrow>
        if in_use t then
          let capacity = chunk_count t * slots_per_chunk t in
          if index \<ge> capacity then 0
          else let chunk_index = index div slots_per_chunk t;
                   offset_in_chunk = index mod slots_per_chunk t;
                   chunk = chunks t ! unat chunk_index
               in chunk + offset_in_chunk * element_size t
        else 0
     | None \<Rightarrow> 0)"

section \<open>The table's invariant\<close>

text \<open>
  A table whose sizes do not overflow 32 bits.  \<open>rust_growtable_create\<close> does not check this; it is
  what its callers have to respect.
\<close>

definition sizes_fit :: "u32 \<Rightarrow> u32 \<Rightarrow> u32 \<Rightarrow> bool" where
  "sizes_fit esize spc mchunks \<longleftrightarrow> unat esize * unat spc < 2 ^ 32 \<and> unat mchunks * unat spc < 2 ^ 32"

definition gtable_inv :: "gtable \<Rightarrow> bool" where
  "gtable_inv t \<longleftrightarrow>
     length (chunks t) = MAX_CHUNKS \<and> unat (max_chunks t) \<le> MAX_CHUNKS \<and> chunk_count t \<le> max_chunks t
   \<and> (in_use t \<longrightarrow> 0 < element_size t \<and> 0 < slots_per_chunk t)
   \<and> sizes_fit (element_size t) (slots_per_chunk t) (max_chunks t)"

text \<open>The capacity and the chunk size as numbers.\<close>

definition gcap :: "gtable \<Rightarrow> nat" where
  "gcap t = unat (chunk_count t) * unat (slots_per_chunk t)"

definition gbytes :: "gtable \<Rightarrow> nat" where
  "gbytes t = unat (element_size t) * unat (slots_per_chunk t)"

lemma gcap_unat:
  assumes "gtable_inv t"
  shows "unat (chunk_count t * slots_per_chunk t) = gcap t"
proof -
  have "unat (chunk_count t) * unat (slots_per_chunk t) \<le> unat (max_chunks t) * unat (slots_per_chunk t)"
    using assms by (intro mult_le_mono1) (simp add: gtable_inv_def word_le_nat_alt)
  also have "\<dots> < 2 ^ LENGTH(32)"
    using assms by (simp add: gtable_inv_def sizes_fit_def)
  finally show ?thesis
    unfolding gcap_def by (rule unat_mult_small)
qed

lemma gbytes_unat: "gtable_inv t \<Longrightarrow> unat (element_size t * slots_per_chunk t) = gbytes t"
  unfolding gbytes_def by (rule unat_mult_small) (simp add: gtable_inv_def sizes_fit_def)

text \<open>A table after growth: the same shape, the old chunks in place, perhaps more behind them.\<close>

definition extends :: "gtable \<Rightarrow> gtable \<Rightarrow> bool" where
  "extends t t' \<longleftrightarrow>
     in_use t' = in_use t \<and> element_size t' = element_size t \<and> slots_per_chunk t' = slots_per_chunk t
   \<and> max_chunks t' = max_chunks t \<and> chunk_count t \<le> chunk_count t'
   \<and> (\<forall>a < unat (chunk_count t). chunks t' ! a = chunks t ! a)"

lemma extends_refl [simp]: "extends t t"
  by (simp add: extends_def)

lemma extends_trans: "extends t u \<Longrightarrow> extends u v \<Longrightarrow> extends t v"
  by (auto simp: extends_def word_le_nat_alt)

abbreviation grow_one :: "ptr \<Rightarrow> gtable \<Rightarrow> gtable" where
  "grow_one p t \<equiv> t\<lparr>chunks := (chunks t)[unat (chunk_count t) := p], chunk_count := chunk_count t + 1\<rparr>"

lemma grow_one_count:
  assumes "\<not> max_chunks t \<le> chunk_count t"
  shows "unat (chunk_count t + 1) = unat (chunk_count t) + 1"
  using assms by (intro unat_inc [of _ "max_chunks t"]) simp

lemma grow_one_extends:
  assumes "\<not> max_chunks t \<le> chunk_count t"
  shows "extends t (grow_one p t)"
  using grow_one_count [OF assms] by (simp add: extends_def word_le_nat_alt)

lemma grow_one_inv:
  assumes "gtable_inv t" and "\<not> max_chunks t \<le> chunk_count t"
  shows "gtable_inv (grow_one p t)"
  using assms grow_one_count [OF assms(2)] by (simp add: gtable_inv_def word_le_nat_alt)

lemma grow_loop_inv:
  assumes "gtable_inv t" and "grow_loop km n t h m = (r, t', h', m')"
  shows "gtable_inv t' \<and> extends t t' \<and> (r \<longleftrightarrow> unat n \<le> gcap t')"
  using assms
proof (induction km n t h m rule: grow_loop.induct)
  case (1 km n t h m)
  show ?case
  proof (cases "chunk_count t * slots_per_chunk t < n \<and> \<not> max_chunks t \<le> chunk_count t
      \<and> fst (km h (element_size t * slots_per_chunk t)) \<noteq> 0")
    case True
    obtain p h1 where km: "km h (element_size t * slots_per_chunk t) = (p, h1)" by force
    have "grow_loop km n (grow_one p t) h1 (write_bytes p 0 (element_size t * slots_per_chunk t) m) = (r, t', h', m')"
      using 1(3) True km by (subst (asm) grow_loop.simps) (simp add: Let_def)
    then have "gtable_inv t' \<and> extends (grow_one p t) t' \<and> (r \<longleftrightarrow> unat n \<le> gcap t')"
      using True km by (intro 1(1) [OF _ _ refl km [symmetric]]) (auto intro: grow_one_inv [OF 1(2)])
    with True show ?thesis using grow_one_extends extends_trans by blast
  next
    case False
    then have "t' = t \<and> (r \<longleftrightarrow> \<not> chunk_count t * slots_per_chunk t < n)"
      using 1(3) by (subst (asm) grow_loop.simps) (auto simp: Let_def split: if_splits prod.splits)
    then show ?thesis using 1(2) gcap_unat [OF 1(2)] by (auto simp: word_less_nat_alt)
  qed
qed

text \<open>Where slot \<open>i\<close> of a table is.\<close>

definition slot_addr :: "gtable \<Rightarrow> u32 \<Rightarrow> ptr" where
  "slot_addr t i = chunks t ! (unat i div unat (slots_per_chunk t)) + (i mod slots_per_chunk t) * element_size t"

lemma slot_ptr_eq:
  assumes "list_all gtable_inv ts" and "length ts = MAX_TABLES"
  shows "rust_growtable_slot_ptr handle i ts =
    (if 0 \<le> handle \<and> nat handle < MAX_TABLES \<and> in_use (ts ! nat handle) \<and> unat i < gcap (ts ! nat handle)
     then slot_addr (ts ! nat handle) i else 0)"
proof (cases "0 \<le> handle \<and> nat handle < MAX_TABLES")
  case True
  with assms have "gtable_inv (ts ! nat handle)" by (simp add: list_all_length)
  from gcap_unat [OF this] True show ?thesis
    by (simp add: rust_growtable_slot_ptr_def table_mut_def Let_def slot_addr_def word_le_nat_alt unat_div)
next
  case False
  then show ?thesis by (auto simp: rust_growtable_slot_ptr_def table_mut_def)
qed

lemma gcap_index:
  assumes "gtable_inv t" and "unat i < gcap t"
  shows "unat i div unat (slots_per_chunk t) < unat (chunk_count t)"
  using assms(2) by (simp add: gcap_def less_mult_imp_div_less)

lemma extends_slot:
  assumes "extends t t'" and "unat i < gcap t"
  shows "slot_addr t' i = slot_addr t i \<and> unat i < gcap t'"
proof -
  have "unat i div unat (slots_per_chunk t) < unat (chunk_count t)"
    using assms(2) by (simp add: gcap_def less_mult_imp_div_less)
  moreover have "gcap t \<le> gcap t'"
    using assms(1) by (simp add: gcap_def extends_def word_le_nat_alt)
  ultimately show ?thesis
    using assms by (auto simp: slot_addr_def extends_def)
qed

section \<open>Histories\<close>

datatype grow_op = GCreate u32 u32 u32 | GEnsure i32 u32

fun grow_op_ok :: "grow_op \<Rightarrow> bool" where
  "grow_op_ok (GCreate e s c) \<longleftrightarrow> sizes_fit e s c"
| "grow_op_ok (GEnsure _ _) \<longleftrightarrow> True"

fun grow_step :: "'h kmalloc \<Rightarrow> grow_op \<Rightarrow> 'h gstate \<Rightarrow> 'h gstate" where
  "grow_step km (GCreate e c n) s = s\<lparr>tables := snd (rust_growtable_create e c n (tables s))\<rparr>"
| "grow_step km (GEnsure h n) s = snd (rust_growtable_ensure_capacity km h n s)"

definition gstate_inv :: "'h gstate \<Rightarrow> bool" where
  "gstate_inv s \<longleftrightarrow> length (tables s) = MAX_TABLES \<and> list_all gtable_inv (tables s)"

lemma gtable_inv_nth: "gstate_inv s \<Longrightarrow> i < MAX_TABLES \<Longrightarrow> gtable_inv (tables s ! i)"
  by (simp add: gstate_inv_def list_all_length)

lemma ensure_cases:
  assumes "gstate_inv s"
  obtains "rust_growtable_ensure_capacity km handle n s = (False, s)"
      "\<not> (0 \<le> handle \<and> nat handle < MAX_TABLES \<and> in_use (tables s ! nat handle))"
    | r t' h' m' where "0 \<le> handle" "nat handle < MAX_TABLES" "in_use (tables s ! nat handle)"
      "grow_loop km n (tables s ! nat handle) (heap s) (memory s) = (r, t', h', m')"
      "rust_growtable_ensure_capacity km handle n s =
        (r, s\<lparr>tables := (tables s)[nat handle := t'], heap := h', memory := m'\<rparr>)"
      "gtable_inv t'" "extends (tables s ! nat handle) t'" "r \<longleftrightarrow> unat n \<le> gcap t'"
proof (cases "0 \<le> handle \<and> nat handle < MAX_TABLES \<and> in_use (tables s ! nat handle)")
  case True
  obtain r t' h' m' where g: "grow_loop km n (tables s ! nat handle) (heap s) (memory s) = (r, t', h', m')"
    using prod_cases4 by blast
  have "gtable_inv (tables s ! nat handle)" using assms True by (intro gtable_inv_nth) auto
  from grow_loop_inv [OF this g] True g show ?thesis
    by (intro that(2)) (auto simp: rust_growtable_ensure_capacity_def table_mut_def)
next
  case False
  then show ?thesis
    by (intro that(1)) (auto simp: rust_growtable_ensure_capacity_def table_mut_def)
qed

text \<open>One call: the invariant stays, and a table in use only grows.\<close>

lemma create_inv:
  assumes "gstate_inv s" and "sizes_fit e c n"
  shows "gstate_inv (s\<lparr>tables := snd (rust_growtable_create e c n (tables s))\<rparr>)"
proof (cases "e = 0 \<or> c = 0 \<or> n = 0 \<or> unat n > MAX_CHUNKS \<or> position (\<lambda>t. \<not> in_use t) (tables s) = None")
  case True
  with assms show ?thesis by (auto simp: rust_growtable_create_def)
next
  case False
  then obtain i where i: "position (\<lambda>t. \<not> in_use t) (tables s) = Some i" by auto
  then have "i < length (tables s)" by (rule position_SomeD)
  with assms have "gtable_inv (tables s ! i)" by (simp add: gstate_inv_def list_all_length)
  with False i assms show ?thesis
    by (auto simp: rust_growtable_create_def gstate_inv_def gtable_inv_def word_gt_0 not_less intro!: list_all_update)
qed


lemma grow_step_inv:
  assumes "gstate_inv s" and "grow_op_ok op"
  shows "gstate_inv (grow_step km op s)"
proof (cases op)
  case (GCreate e c n)
  with assms show ?thesis by (simp add: create_inv)
next
  case (GEnsure handle n)
  show ?thesis
    by (rule ensure_cases [OF assms(1), of km handle n])
      (use assms in \<open>auto simp: GEnsure gstate_inv_def intro: list_all_update\<close>)
qed



lemma gstate_inv_init: "gstate_inv (gstate_init h m)"
  by (simp add: gstate_inv_def gstate_init_def EMPTY_TABLE_def gtable_inv_def sizes_fit_def kconst list_all_iff)

interpretation gm: invariant_machine grow_op_ok "grow_step km" "gstate_init h m" gstate_inv
  by unfold_locales (simp_all add: gstate_inv_init grow_step_inv)


section \<open>What the heap promises\<close>

text \<open>Two blocks of memory, each an address and a length, that do not overlap.\<close>

definition apart :: "ptr \<times> nat \<Rightarrow> ptr \<times> nat \<Rightarrow> bool" where
  "apart a b \<longleftrightarrow> unat (fst a) + snd a \<le> unat (fst b) \<or> unat (fst b) + snd b \<le> unat (fst a)"

text \<open>
  The documented behaviour of the C allocator: a block it returns lies inside the address space and
  apart from every block it has given out before.  \<open>blocks\<close> reads the blocks given out off its state.
\<close>

definition kmalloc_ok :: "'h kmalloc \<Rightarrow> ('h \<Rightarrow> (ptr \<times> nat) set) \<Rightarrow> bool" where
  "kmalloc_ok km blocks \<longleftrightarrow> (\<forall>h n. case km h n of (p, h') \<Rightarrow>
     blocks h \<subseteq> blocks h'
   \<and> (p \<noteq> 0 \<longrightarrow> unat p + unat n \<le> 2 ^ 32 \<and> (p, unat n) \<in> blocks h'
        \<and> (\<forall>b \<in> blocks h. apart (p, unat n) b)))"

lemma kmalloc_okD:
  assumes "kmalloc_ok km blocks" and "km h n = (p, h')"
  shows "blocks h \<subseteq> blocks h'"
    and "p \<noteq> 0 \<Longrightarrow> unat p + unat n \<le> 2 ^ 32 \<and> (p, unat n) \<in> blocks h' \<and> (\<forall>b \<in> blocks h. apart (p, unat n) b)"
proof -
  have "case km h n of (p, h') \<Rightarrow> blocks h \<subseteq> blocks h'
   \<and> (p \<noteq> 0 \<longrightarrow> unat p + unat n \<le> 2 ^ 32 \<and> (p, unat n) \<in> blocks h' \<and> (\<forall>b \<in> blocks h. apart (p, unat n) b))"
    by (rule assms(1) [unfolded kmalloc_ok_def, THEN spec, THEN spec])
  then have "blocks h \<subseteq> blocks h'
   \<and> (p \<noteq> 0 \<longrightarrow> unat p + unat n \<le> 2 ^ 32 \<and> (p, unat n) \<in> blocks h' \<and> (\<forall>b \<in> blocks h. apart (p, unat n) b))"
    unfolding assms(2) prod.case .
  then show "blocks h \<subseteq> blocks h'"
    and "p \<noteq> 0 \<Longrightarrow> unat p + unat n \<le> 2 ^ 32 \<and> (p, unat n) \<in> blocks h' \<and> (\<forall>b \<in> blocks h. apart (p, unat n) b)"
    by blast+
qed

text \<open>The chunks a set of tables holds, by table and position.\<close>

definition held :: "gtable list \<Rightarrow> nat \<Rightarrow> nat \<Rightarrow> bool" where
  "held ts k a \<longleftrightarrow> k < length ts \<and> a < unat (chunk_count (ts ! k))"

definition chunk_block :: "gtable list \<Rightarrow> nat \<Rightarrow> nat \<Rightarrow> ptr \<times> nat" where
  "chunk_block ts k a = (chunks (ts ! k) ! a, gbytes (ts ! k))"

definition heap_inv :: "('h \<Rightarrow> (ptr \<times> nat) set) \<Rightarrow> gtable list \<Rightarrow> 'h \<Rightarrow> bool" where
  "heap_inv blocks ts h \<longleftrightarrow>
     (\<forall>k a. held ts k a \<longrightarrow> chunk_block ts k a \<in> blocks h
        \<and> unat (fst (chunk_block ts k a)) + snd (chunk_block ts k a) \<le> 2 ^ 32)
   \<and> (\<forall>k a l b. held ts k a \<longrightarrow> held ts l b \<longrightarrow> (k, a) \<noteq> (l, b)
        \<longrightarrow> apart (chunk_block ts k a) (chunk_block ts l b))"

lemma apart_sym: "apart a b \<longleftrightarrow> apart b a"
  by (auto simp: apart_def)

lemma heap_inv_limit:
  "heap_inv blocks ts h \<Longrightarrow> held ts k a \<Longrightarrow> unat (chunks (ts ! k) ! a) + gbytes (ts ! k) \<le> 2 ^ 32"
  by (simp add: heap_inv_def chunk_block_def)

lemma heap_inv_grow:
  assumes km: "kmalloc_ok km blocks" and inv: "heap_inv blocks ts h" and k: "k < length ts"
    and t: "gtable_inv (ts ! k)" "\<not> max_chunks (ts ! k) \<le> chunk_count (ts ! k)"
    and got: "km h (element_size (ts ! k) * slots_per_chunk (ts ! k)) = (p, h')" "p \<noteq> 0"
  shows "heap_inv blocks (ts[k := grow_one p (ts ! k)]) h'" (is "heap_inv blocks ?ts h'")
proof -
  let ?c = "unat (chunk_count (ts ! k))"
  have size: "unat (element_size (ts ! k) * slots_per_chunk (ts ! k)) = gbytes (ts ! k)"
    using t(1) by (rule gbytes_unat)
  have new: "blocks h \<subseteq> blocks h'" "unat p + gbytes (ts ! k) \<le> 2 ^ 32" "(p, gbytes (ts ! k)) \<in> blocks h'"
    "\<And>b. b \<in> blocks h \<Longrightarrow> apart (p, gbytes (ts ! k)) b"
    using kmalloc_okD [OF km got(1)] got(2) unfolding size by auto
  have cnt: "unat (chunk_count (ts ! k) + 1) = ?c + 1" using t(2) by (rule grow_one_count)
  have "?c < unat (max_chunks (ts ! k))" using t(2) by (simp add: word_le_nat_alt)
  then have lt: "?c < length (chunks (ts ! k))"
    using t(1) by (simp add: gtable_inv_def)
  have held': "held ?ts l a \<longleftrightarrow> held ts l a \<or> (l = k \<and> a = ?c)" for l a
    using k cnt by (auto simp: held_def nth_list_update)
  have blk: "chunk_block ?ts l a = (if l = k \<and> a = ?c then (p, gbytes (ts ! k)) else chunk_block ts l a)"
    if "held ?ts l a" for l a
    using that k lt by (auto simp: chunk_block_def nth_list_update gbytes_def held_def)
  have old: "held ts l a \<Longrightarrow> \<not> (l = k \<and> a = ?c)" for l a by (auto simp: held_def)
  show ?thesis
    unfolding heap_inv_def
  proof (intro conjI allI impI)
    fix l a assume h: "held ?ts l a"
    then show "chunk_block ?ts l a \<in> blocks h'"
      using inv new held' by (auto simp: blk [OF h] heap_inv_def)
    show "unat (fst (chunk_block ?ts l a)) + snd (chunk_block ?ts l a) \<le> 2 ^ 32"
      using inv new h held' by (auto simp: blk [OF h] heap_inv_def)
  next
    fix l a i b assume h: "held ?ts l a" "held ?ts i b" and ne: "(l, a) \<noteq> (i, b)"
    have new_old: "apart (p, gbytes (ts ! k)) (chunk_block ts j d)" if "held ts j d" for j d
      using inv that by (intro new(4)) (simp add: heap_inv_def)
    consider "l = k" "a = ?c" "held ts i b" | "i = k" "b = ?c" "held ts l a" | "held ts l a" "held ts i b"
      using h ne held' by auto
    then show "apart (chunk_block ?ts l a) (chunk_block ?ts i b)"
    proof cases
      case 1
      have "chunk_block ?ts l a = (p, gbytes (ts ! k))" unfolding blk [OF h(1)] using 1(1,2) by (simp only: simp_thms if_True)
      moreover have "chunk_block ?ts i b = chunk_block ts i b" unfolding blk [OF h(2)] using old [OF 1(3)] by (rule if_not_P)
      ultimately show ?thesis using new_old [OF 1(3)] by (simp only:)
    next
      case 2
      have "chunk_block ?ts i b = (p, gbytes (ts ! k))" unfolding blk [OF h(2)] using 2(1,2) by (simp only: simp_thms if_True)
      moreover have "chunk_block ?ts l a = chunk_block ts l a" unfolding blk [OF h(1)] using old [OF 2(3)] by (rule if_not_P)
      ultimately show ?thesis using new_old [OF 2(3)] by (simp only: apart_sym [of "chunk_block ts l a"])
    next
      case 3
      have "apart (chunk_block ts l a) (chunk_block ts i b)" using inv ne 3 by (simp add: heap_inv_def)
      with old [OF 3(1)] old [OF 3(2)] show ?thesis by (simp only: blk [OF h(1)] blk [OF h(2)] if_False)
    qed
  qed
qed

lemma kmalloc_fail_inv:
  assumes "kmalloc_ok km blocks" and "heap_inv blocks ts h" and "km h n = (p, h')"
  shows "heap_inv blocks ts h'"
proof -
  have "blocks h \<subseteq> blocks h'" using assms(1,3) by (rule kmalloc_okD)
  with assms(2) show ?thesis unfolding heap_inv_def by blast
qed

lemma grow_loop_heap:
  assumes "kmalloc_ok km blocks" and "gtable_inv t" and "heap_inv blocks (ts[k := t]) h" and "k < length ts"
    and "grow_loop km n t h m = (r, t', h', m')"
  shows "heap_inv blocks (ts[k := t']) h'"
  using assms
proof (induction km n t h m rule: grow_loop.induct)
  case (1 km n t h m)
  obtain p h1 where km: "km h (element_size t * slots_per_chunk t) = (p, h1)" by force
  show ?case
  proof (cases "chunk_count t * slots_per_chunk t < n \<and> \<not> max_chunks t \<le> chunk_count t \<and> p \<noteq> 0")
    case True
    have rec: "grow_loop km n (grow_one p t) h1 (write_bytes p 0 (element_size t * slots_per_chunk t) m) = (r, t', h', m')"
      using 1(6) True km by (subst (asm) grow_loop.simps) (simp add: Let_def)
    have "heap_inv blocks (ts[k := grow_one p t]) h1"
      using heap_inv_grow [OF 1(2) 1(4), of k p h1] 1(3,5) True km by simp
    then show ?thesis
      using True rec km 1(2,3,5) by (intro 1(1) [OF _ _ refl km [symmetric]]) (auto intro: grow_one_inv)
  next
    case False
    then have "t' = t \<and> (h' = h \<or> h' = h1)"
      using 1(6) km by (subst (asm) grow_loop.simps) (auto simp: Let_def split: if_splits)
    then show ?thesis using 1(4) kmalloc_fail_inv [OF 1(2,4) km] by auto
  qed
qed

lemma create_heap:
  assumes "heap_inv blocks ts h" and "length ts = MAX_TABLES"
  shows "heap_inv blocks (snd (rust_growtable_create e c n ts)) h"
proof (cases "snd (rust_growtable_create e c n ts) = ts")
  case True
  with assms show ?thesis by simp
next
  case False
  then obtain i where i: "position (\<lambda>t. \<not> in_use t) ts = Some i"
    and ts': "snd (rust_growtable_create e c n ts) = ts[i := (ts ! i)\<lparr>in_use := True, element_size := e,
      slots_per_chunk := c, max_chunks := n, chunk_count := 0\<rparr>]" (is "_ = ?ts")
    by (auto simp: rust_growtable_create_def split: option.splits if_splits)
  have "held ?ts k a \<Longrightarrow> held ts k a \<and> chunk_block ?ts k a = chunk_block ts k a" for k a
    by (cases "k = i") (auto simp: held_def chunk_block_def)
  with assms(1) show ?thesis unfolding ts' heap_inv_def by metis
qed

lemma grow_step_heap:
  assumes "kmalloc_ok km blocks" and "gstate_inv s" and "heap_inv blocks (tables s) (heap s)" and "grow_op_ok op"
  shows "heap_inv blocks (tables (grow_step km op s)) (heap (grow_step km op s))"
proof (cases op)
  case (GCreate e c n)
  with assms show ?thesis by (simp add: create_heap gstate_inv_def)
next
  case (GEnsure handle n)
  show ?thesis
  proof (rule ensure_cases [OF assms(2), of km handle n])
    assume "rust_growtable_ensure_capacity km handle n s = (False, s)"
    with assms show ?thesis by (simp add: GEnsure)
  next
    fix r t' h' m'
    assume g: "nat handle < MAX_TABLES" "grow_loop km n (tables s ! nat handle) (heap s) (memory s) = (r, t', h', m')"
      "rust_growtable_ensure_capacity km handle n s =
        (r, s\<lparr>tables := (tables s)[nat handle := t'], heap := h', memory := m'\<rparr>)"
    have "heap_inv blocks ((tables s)[nat handle := t']) h'"
      using assms g(1) by (intro grow_loop_heap [OF assms(1) _ _ _ g(2)]) (auto simp: gstate_inv_def gtable_inv_nth [OF assms(2)])
    with g(3) show ?thesis by (simp add: GEnsure)
  qed
qed

lemma reachable_heap:
  assumes "reachable grow_op_ok (grow_step km) (gstate_init h m) s" and "kmalloc_ok km blocks"
  shows "gstate_inv s \<and> heap_inv blocks (tables s) (heap s)"
  using assms
proof (induction rule: reachable.induct)
  case reachable_init
  show ?case
    using gstate_inv_init by (auto simp: gstate_init_def heap_inv_def held_def EMPTY_TABLE_def)
next
  case (reachable_step s op)
  then show ?case using grow_step_inv grow_step_heap by blast
qed

text \<open>A slot lies inside its chunk.\<close>

lemma slot_in_chunk:
  assumes "gstate_inv s" and "heap_inv blocks (tables s) (heap s)"
    and "rust_growtable_slot_ptr handle i (tables s) = p" and "p \<noteq> 0"
  defines "t \<equiv> tables s ! nat handle"
  shows "0 \<le> handle" and "in_use t" and "held (tables s) (nat handle) (unat i div unat (slots_per_chunk t))"
    and "unat p = unat (chunks t ! (unat i div unat (slots_per_chunk t)))
        + (unat i mod unat (slots_per_chunk t)) * unat (element_size t)"
    and "(unat i mod unat (slots_per_chunk t)) * unat (element_size t) + unat (element_size t) \<le> gbytes t"
proof -
  have s: "list_all gtable_inv (tables s)" "length (tables s) = MAX_TABLES"
    using assms(1) by (simp_all add: gstate_inv_def)
  have b: "0 \<le> handle" "nat handle < MAX_TABLES" "in_use t" "unat i < gcap t" "p = slot_addr t i"
    using assms(3,4) by (auto simp: slot_ptr_eq [OF s] t_def split: if_splits)
  then show "0 \<le> handle" "in_use t" by simp_all
  have t: "gtable_inv t" unfolding t_def using assms(1) b(2) by (rule gtable_inv_nth)
  let ?c = "unat i div unat (slots_per_chunk t)" and ?o = "unat i mod unat (slots_per_chunk t)"
  have c: "?c < unat (chunk_count t)" using t b(4) by (rule gcap_index)
  then show h: "held (tables s) (nat handle) ?c" using b(2) s(2) by (simp add: held_def t_def)
  have "0 < unat (slots_per_chunk t)" using t b(3) by (simp add: gtable_inv_def word_less_nat_alt)
  then have "Suc ?o \<le> unat (slots_per_chunk t)" by (simp add: Suc_leI)
  then have "Suc ?o * unat (element_size t) \<le> unat (slots_per_chunk t) * unat (element_size t)"
    by (rule mult_le_mono1)
  then show o: "?o * unat (element_size t) + unat (element_size t) \<le> gbytes t"
    by (simp add: gbytes_def mult.commute)
  have es: "0 < unat (element_size t)" using t b(3) by (simp add: gtable_inv_def word_less_nat_alt)
  have lim: "unat (chunks t ! ?c) + gbytes t \<le> 2 ^ 32" and small: "gbytes t < 2 ^ 32"
    using assms(2) h t by (auto simp: heap_inv_def chunk_block_def t_def gtable_inv_def sizes_fit_def gbytes_def)
  have m: "unat ((i mod slots_per_chunk t) * element_size t) = ?o * unat (element_size t)"
    using o es small by (subst unat_mult_small) (simp_all add: unat_mod)
  then show "unat p = unat (chunks t ! ?c) + ?o * unat (element_size t)"
    unfolding b(5) slot_addr_def using o es lim by (subst unat_add_small) simp_all
qed

text \<open>What growing writes: zeros, and only into the chunks it adds.\<close>

lemma grow_loop_memory:
  assumes "gtable_inv t" and "grow_loop km n t h m = (r, t', h', m')"
  shows "(\<forall>c a. unat (chunk_count t) \<le> c \<longrightarrow> c < unat (chunk_count t')
            \<longrightarrow> a - chunks t' ! c < element_size t * slots_per_chunk t \<longrightarrow> m' a = 0)
       \<and> (\<forall>a. m' a \<noteq> m a \<longrightarrow> (\<exists>c. unat (chunk_count t) \<le> c \<and> c < unat (chunk_count t')
            \<and> a - chunks t' ! c < element_size t * slots_per_chunk t) \<and> m' a = 0)"
  using assms
proof (induction km n t h m rule: grow_loop.induct)
  case (1 km n t h m)
  let ?b = "element_size t * slots_per_chunk t"
  obtain p h1 where km: "km h ?b = (p, h1)" by force
  show ?case
  proof (cases "chunk_count t * slots_per_chunk t < n \<and> \<not> max_chunks t \<le> chunk_count t \<and> p \<noteq> 0")
    case True
    let ?t = "grow_one p t" and ?m = "write_bytes p 0 ?b m"
    have rec: "grow_loop km n ?t h1 ?m = (r, t', h', m')"
      using 1(3) True km by (subst (asm) grow_loop.simps) (simp add: Let_def)
    have inv: "gtable_inv ?t" using 1(2) True by (auto intro: grow_one_inv)
    have cnt: "unat (chunk_count ?t) = Suc (unat (chunk_count t))"
      using grow_one_count [of t] True by simp
    have ext: "extends ?t t'" using grow_loop_inv [OF inv rec] by simp
    have len: "unat (chunk_count t) < length (chunks t)"
      using 1(2) True by (simp add: gtable_inv_def word_le_nat_alt)
    then have p: "chunks t' ! unat (chunk_count t) = p" "unat (chunk_count t) < unat (chunk_count t')"
      using ext cnt by (auto simp: extends_def word_le_nat_alt)
    have IH: "(\<forall>c a. Suc (unat (chunk_count t)) \<le> c \<longrightarrow> c < unat (chunk_count t') \<longrightarrow> a - chunks t' ! c < ?b \<longrightarrow> m' a = 0)"
      "(\<forall>a. m' a \<noteq> ?m a \<longrightarrow> (\<exists>c. Suc (unat (chunk_count t)) \<le> c \<and> c < unat (chunk_count t') \<and> a - chunks t' ! c < ?b) \<and> m' a = 0)"
      using 1(1) [OF _ _ refl km [symmetric] _ inv rec] True unfolding cnt by simp_all
    have "m' a = 0" if "unat (chunk_count t) \<le> c" "c < unat (chunk_count t')" "a - chunks t' ! c < ?b" for c a
    proof (cases "c = unat (chunk_count t)")
      case True
      with that p have "?m a = 0" by (simp add: write_bytes_def)
      with IH(2) [rule_format, of a] show ?thesis by metis
    next
      case False
      with that have "Suc (unat (chunk_count t)) \<le> c" by simp
      with that IH(1) show ?thesis by blast
    qed
    moreover have "(\<exists>c. unat (chunk_count t) \<le> c \<and> c < unat (chunk_count t') \<and> a - chunks t' ! c < ?b) \<and> m' a = 0"
      if ne: "m' a \<noteq> m a" for a
    proof (cases "m' a = ?m a")
      case True
      with ne have "a - p < ?b" "m' a = 0" by (auto simp: write_bytes_def split: if_splits)
      with p show ?thesis by (intro conjI exI [of _ "unat (chunk_count t)"]) simp_all
    next
      case False
      with IH(2) obtain c where "Suc (unat (chunk_count t)) \<le> c" "c < unat (chunk_count t')" "a - chunks t' ! c < ?b" "m' a = 0"
        by blast
      then show ?thesis by (intro conjI exI [of _ c]) simp_all
    qed
    ultimately show ?thesis by blast
  next
    case False
    then have "t' = t \<and> m' = m"
      using 1(3) km by (subst (asm) grow_loop.simps) (auto simp: Let_def split: if_splits)
    then show ?thesis by auto
  qed
qed

lemma in_block:
  assumes "unat p + unat b \<le> 2 ^ 32"
  shows "x - p < (b :: u32) \<longleftrightarrow> unat p \<le> unat x \<and> unat x < unat p + unat b"
  using assms unat_bound [of x] by (auto simp: word_less_nat_alt unat_sub_if')

text \<open>The bytes of a held chunk after growing table \<open>g\<close>: zero if the chunk is new, as before if not.\<close>

lemma grow_chunk_bytes:
  assumes inv: "gstate_inv s" and heap: "heap_inv blocks (tables s') (heap s')" and g: "nat g < MAX_TABLES"
    and loop: "grow_loop km n (tables s ! nat g) (heap s) (memory s) = (r, t', h', m')"
    and s': "s' = s\<lparr>tables := (tables s)[nat g := t'], heap := h', memory := m'\<rparr>"
    and held: "held (tables s') a c" and x: "unat (chunks (tables s' ! a) ! c) \<le> unat x"
    "unat x < unat (chunks (tables s' ! a) ! c) + gbytes (tables s' ! a)"
  shows "memory s' x = (if a = nat g \<and> unat (chunk_count (tables s ! nat g)) \<le> c then 0 else memory s x)"
proof -
  let ?t = "tables s ! nat g"
  have t: "gtable_inv ?t" using inv g by (rule gtable_inv_nth)
  have t': "gtable_inv t'" "extends ?t t'" using grow_loop_inv [OF t loop] by auto
  have tg: "tables s' ! nat g = t'" "memory s' = m'" using inv g by (simp_all add: s' gstate_inv_def)
  have b: "unat (element_size ?t * slots_per_chunk ?t) = gbytes t'"
    using gbytes_unat [OF t] t'(2) by (simp add: extends_def gbytes_def)
  have blk: "x - chunks t' ! d < element_size ?t * slots_per_chunk ?t
      \<longleftrightarrow> unat (chunks t' ! d) \<le> unat x \<and> unat x < unat (chunks t' ! d) + gbytes t'"
    if "d < unat (chunk_count t')" for d
  proof -
    have "held (tables s') (nat g) d" using that inv g by (simp add: held_def tg(1) s' gstate_inv_def)
    then have "unat (chunks t' ! d) + gbytes t' \<le> 2 ^ 32"
      using heap_inv_limit [OF heap] unfolding tg(1) [symmetric] by blast
    then show ?thesis unfolding b [symmetric] by (rule in_block)
  qed
  note M = grow_loop_memory [OF t loop]
  show ?thesis
  proof (cases "a = nat g \<and> unat (chunk_count ?t) \<le> c")
    case True
    with held have c: "c < unat (chunk_count t')" by (simp add: held_def tg)
    with True x have "x - chunks t' ! c < element_size ?t * slots_per_chunk ?t" by (simp add: blk tg)
    with M True c have "m' x = 0" by blast
    with True show ?thesis by (simp add: tg)
  next
    case False
    have "m' x = memory s x"
    proof (rule ccontr)
      assume "m' x \<noteq> memory s x"
      with M obtain d where d: "unat (chunk_count ?t) \<le> d" "d < unat (chunk_count t')"
        "x - chunks t' ! d < element_size ?t * slots_per_chunk ?t" by blast
      have "held (tables s') (nat g) d" using d inv g by (simp add: held_def tg(1) s' gstate_inv_def)
      moreover have "(a, c) \<noteq> (nat g, d)" using False d(1) by auto
      ultimately have "apart (chunk_block (tables s') a c) (chunk_block (tables s') (nat g) d)"
        using heap held by (simp add: heap_inv_def)
      moreover have "unat (chunks t' ! d) \<le> unat x \<and> unat x < unat (chunks t' ! d) + gbytes t'"
        using blk [OF d(2)] d(3) by simp
      ultimately show False using x by (auto simp: apart_def chunk_block_def tg)
    qed
    with False show ?thesis by (auto simp: tg)
  qed
qed

lemma grow_loop_least:
  assumes "gtable_inv t" and "grow_loop km n t h m = (r, t', h', m')"
  shows "gcap t' = gcap t \<or> gcap t' < unat n + unat (slots_per_chunk t)"
  using assms
proof (induction km n t h m rule: grow_loop.induct)
  case (1 km n t h m)
  obtain p h1 where km: "km h (element_size t * slots_per_chunk t) = (p, h1)" by force
  show ?case
  proof (cases "chunk_count t * slots_per_chunk t < n \<and> \<not> max_chunks t \<le> chunk_count t \<and> p \<noteq> 0")
    case True
    have rec: "grow_loop km n (grow_one p t) h1 (write_bytes p 0 (element_size t * slots_per_chunk t) m) = (r, t', h', m')"
      using 1(3) True km by (subst (asm) grow_loop.simps) (simp add: Let_def)
    have inv: "gtable_inv (grow_one p t)" using 1(2) True by (auto intro: grow_one_inv)
    have "gcap (grow_one p t) = gcap t + unat (slots_per_chunk t)"
      using grow_one_count [of t] True by (simp add: gcap_def)
    moreover have "gcap t < unat n"
      using True gcap_unat [OF 1(2)] by (simp add: word_less_nat_alt)
    ultimately show ?thesis
      using 1(1) [OF _ _ refl km [symmetric] _ inv rec] True by auto
  next
    case False
    then have "t' = t" using 1(3) km by (subst (asm) grow_loop.simps) (auto simp: Let_def split: if_splits)
    then show ?thesis by simp
  qed
qed

lemmas grow_eval = rust_growtable_create_def rust_growtable_ensure_capacity_def rust_growtable_slot_ptr_def
  rust_growtable_capacity_def table_mut_def grow_loop.simps EMPTY_TABLE_def position_replicate kconst Let_def

section \<open>Properties\<close>




text \<open>
  Growing keeps what is there and hands out zeroed memory.  After a call that makes room in
  table \<open>g\<close>, whether or not it could make enough, every slot of any table that was valid before has
  its old bytes, and every slot of \<open>g\<close> that has become valid reads as zero.
\<close>

theorem grow_contents:
  assumes "kmalloc_ok km blocks" and "reachable grow_op_ok (grow_step km) (gstate_init h m) s"
    and "rust_growtable_ensure_capacity km g n s = (r, s')"
    and "rust_growtable_slot_ptr a i (tables s') = p" and "p \<noteq> 0" and "k < element_size (tables s' ! nat a)"
  shows "if rust_growtable_slot_ptr a i (tables s) \<noteq> 0 then memory s' (p + k) = memory s (p + k)
         else a = g \<longrightarrow> memory s' (p + k) = 0"
proof -
  have inv: "gstate_inv s" "heap_inv blocks (tables s) (heap s)"
    using reachable_heap [OF assms(2,1)] by auto
  have "s' = grow_step km (GEnsure g n) s" using assms(3) by simp
  then have inv': "gstate_inv s'" "heap_inv blocks (tables s') (heap s')"
    using grow_step_inv [OF inv(1), of "GEnsure g n" km] grow_step_heap [OF assms(1) inv, of "GEnsure g n"] by simp_all
  note P = slot_in_chunk [OF inv' assms(4,5)]
  let ?t = "tables s' ! nat a"
  let ?c = "unat i div unat (slots_per_chunk ?t)"
  have lim: "unat (chunks ?t ! ?c) + gbytes ?t \<le> 2 ^ 32" and held: "held (tables s') (nat a) ?c"
    using inv'(2) P(3) by (auto simp: heap_inv_def chunk_block_def)
  have k: "unat k < unat (element_size ?t)" using assms(6) by (simp add: word_less_nat_alt)
  then have pk: "unat (p + k) = unat p + unat k"
    using P(4,5) lim by (intro unat_add_small) simp
  then have in_c: "unat (chunks ?t ! ?c) \<le> unat (p + k)" "unat (p + k) < unat (chunks ?t ! ?c) + gbytes ?t"
    using P(4,5) k by simp_all
  show ?thesis
  proof (rule ensure_cases [OF inv(1), of km g n])
    assume "rust_growtable_ensure_capacity km g n s = (False, s)"
    with assms(3-5) show ?thesis by auto
  next
    fix r0 t' h' m'
    assume g: "0 \<le> g" "nat g < MAX_TABLES" "in_use (tables s ! nat g)"
      "grow_loop km n (tables s ! nat g) (heap s) (memory s) = (r0, t', h', m')"
      "rust_growtable_ensure_capacity km g n s =
        (r0, s\<lparr>tables := (tables s)[nat g := t'], heap := h', memory := m'\<rparr>)"
      "gtable_inv t'" "extends (tables s ! nat g) t'"
    have s': "s' = s\<lparr>tables := (tables s)[nat g := t'], heap := h', memory := m'\<rparr>"
      using g(5) assms(3) by simp
    have val: "memory s' (p + k)
        = (if nat a = nat g \<and> unat (chunk_count (tables s ! nat g)) \<le> ?c then 0 else memory s (p + k))"
      by (rule grow_chunk_bytes [OF inv(1) inv'(2) g(2,4) s' held in_c])
    have new: "unat i < gcap (tables s' ! nat a)" "p = slot_addr (tables s' ! nat a) i"
      using assms(4,5) inv'(1) by (auto simp: gstate_inv_def slot_ptr_eq split: if_splits)
    show ?thesis
    proof (cases "nat a = nat g")
      case False
      with val show ?thesis by auto
    next
      case True
      then have ag: "a = g" using P(1) g(1) by (simp add: eq_nat_nat_iff)
      have ext: "extends (tables s ! nat a) (tables s' ! nat a)"
        using g(2,7) inv(1) by (simp add: s' ag gstate_inv_def)
      have spc: "slots_per_chunk ?t = slots_per_chunk (tables s ! nat a)" using ext by (simp add: extends_def)
      have "rust_growtable_slot_ptr a i (tables s) \<noteq> 0 \<longleftrightarrow> unat i < gcap (tables s ! nat a)"
        using g(1-3) inv(1) extends_slot [OF ext, of i] new(2) assms(5)
        by (auto simp: slot_ptr_eq gstate_inv_def ag)
      also have "\<dots> \<longleftrightarrow> ?c < unat (chunk_count (tables s ! nat a))"
        unfolding gcap_def spc using gtable_inv_nth [OF inv(1) g(2)] g(3)
        by (subst div_less_iff_less_mult) (simp_all add: ag gtable_inv_def word_less_nat_alt)
      finally show ?thesis using val by (simp add: ag)
    qed
  qed
qed

text \<open>
  Making room says whether it worked: it answers true exactly when the handle is a table in use
  whose capacity is now at least what was asked for, it never shrinks a table, keeps the chunks it got
  before the heap or the table's limit stopped it, and never adds a chunk it does not need.
\<close>

theorem ensure_capacity_result:
  assumes "reachable grow_op_ok (grow_step km) (gstate_init h m) s"
    and "rust_growtable_ensure_capacity km g n s = (r, s')"
  shows "(r \<longleftrightarrow> table_mut g (tables s) \<noteq> None \<and> in_use (tables s ! nat g) \<and> n \<le> rust_growtable_capacity g (tables s'))
    \<and> rust_growtable_capacity g (tables s) \<le> rust_growtable_capacity g (tables s')
    \<and> (rust_growtable_capacity g (tables s') = rust_growtable_capacity g (tables s)
       \<or> unat (rust_growtable_capacity g (tables s')) < unat n + unat (slots_per_chunk (tables s ! nat g)))"
proof (rule ensure_cases [OF gm.reachable_inv [OF assms(1)], of km g n])
  assume "rust_growtable_ensure_capacity km g n s = (False, s)"
    and "\<not> (0 \<le> g \<and> nat g < MAX_TABLES \<and> in_use (tables s ! nat g))"
  with assms(2) show ?thesis by (auto simp: table_mut_def)
next
  fix r0 t' h' m'
  assume g: "0 \<le> g" "nat g < MAX_TABLES" "in_use (tables s ! nat g)"
    "grow_loop km n (tables s ! nat g) (heap s) (memory s) = (r0, t', h', m')"
    "rust_growtable_ensure_capacity km g n s =
      (r0, s\<lparr>tables := (tables s)[nat g := t'], heap := h', memory := m'\<rparr>)"
    "gtable_inv t'" "extends (tables s ! nat g) t'" "r0 \<longleftrightarrow> unat n \<le> gcap t'"
  have inv: "gstate_inv s" using assms(1) by (rule gm.reachable_inv)
  have t: "gtable_inv (tables s ! nat g)" using inv g(2) by (rule gtable_inv_nth)
  have caps: "unat (rust_growtable_capacity g (tables s')) = gcap t'"
    "unat (rust_growtable_capacity g (tables s)) = gcap (tables s ! nat g)"
    using g assms(2) inv gcap_unat [OF g(6)] gcap_unat [OF t]
    by (auto simp: rust_growtable_capacity_def table_mut_def gstate_inv_def extends_def)
  have "gcap (tables s ! nat g) \<le> gcap t'"
    using g(7) by (simp add: gcap_def extends_def word_le_nat_alt)
  moreover have "r = r0" using g(5) assms(2) by simp
  ultimately show ?thesis
    using caps grow_loop_least [OF t g(4)] g(1-3,8)
    by (auto simp: table_mut_def word_le_nat_alt word_unat_eq)
qed


text \<open>Witnesses: a heap that hands out consecutive blocks, and a table grown to two chunks.\<close>

definition bump :: "(ptr \<times> (ptr \<times> nat) list) kmalloc" where
  "bump h n = (case h of (nxt, bs) \<Rightarrow>
     if nxt \<noteq> 0 \<and> unat nxt + unat n \<le> 2 ^ 32 \<and> list_all (apart (nxt, unat n)) bs
     then (nxt, (nxt + n, (nxt, unat n) # bs)) else (0, h))"

lemma bump_ok: "kmalloc_ok bump (set \<circ> snd)"
  by (auto simp: kmalloc_ok_def bump_def list_all_iff split: prod.splits if_splits)

definition grow_demo :: "(ptr \<times> (ptr \<times> nat) list) gstate" where
  "grow_demo = grow_step bump (GEnsure 0 5) (grow_step bump (GCreate 12 4 8) (gstate_init (0x1000, []) (\<lambda>_. 0xFF)))"

lemmas grow_demo_eval = grow_demo_def gstate_init_def bump_def apart_def

lemma grow_demo_reachable:
  "reachable grow_op_ok (grow_step bump) (gstate_init (0x1000, []) (\<lambda>_. 0xFF)) grow_demo"
  unfolding grow_demo_def by (intro reachable.intros) (simp_all add: sizes_fit_def)



theorem grow_contents_witness:
  "rust_growtable_slot_ptr 0 8 (tables grow_demo) = 0
   \<and> memory (snd (rust_growtable_ensure_capacity bump 0 9 grow_demo)) (0x1060 + 3) = 0"
proof -
  let ?e = "rust_growtable_ensure_capacity bump 0 9 grow_demo"
  have e: "?e = (fst ?e, snd ?e)" by simp
  have "rust_growtable_slot_ptr 0 8 (tables (snd ?e)) = 0x1060" "rust_growtable_slot_ptr 0 8 (tables grow_demo) = 0"
    "(3::u32) < element_size (tables (snd ?e) ! nat 0)"
    by (simp_all add: grow_eval grow_demo_eval)
  from grow_contents [OF bump_ok grow_demo_reachable e this(1) _ this(3)] this(2) show ?thesis by simp
qed

theorem ensure_capacity_result_witness:
  "fst (rust_growtable_ensure_capacity bump 0 40 grow_demo) = False
   \<and> rust_growtable_capacity 0 (tables grow_demo)
       \<le> rust_growtable_capacity 0 (tables (snd (rust_growtable_ensure_capacity bump 0 40 grow_demo)))"
proof -
  let ?e = "rust_growtable_ensure_capacity bump 0 40 grow_demo"
  have e: "?e = (fst ?e, snd ?e)" by simp
  have "fst ?e = False" by (simp add: grow_eval grow_demo_eval)
  with ensure_capacity_result [OF grow_demo_reachable e] show ?thesis by blast
qed

end
