(* ===== verification/Msg.thy ===== *)
theory Msg
  imports Prelude "HOL-Library.Multiset"
begin

text \<open>
  Messages between processes (\<open>src/kernel/rust/msg.rs\<close>): bounded inboxes with selective receive,
  sender policies, service names, and the glue functions the C kernel calls.  The \<open>Hal\<close> trait (is a
  process alive, what is its user, what time is it) is implemented in C and is a record argument, the
  answers the C side gives during one call.
\<close>

section \<open>Data\<close>

definition MAX_PAYLOAD :: usize where [kconst]: "MAX_PAYLOAD = 1024"
definition QUEUE_DEPTH :: usize where [kconst]: "QUEUE_DEPTH = 16"
definition MAX_PER_SENDER :: u32 where [kconst]: "MAX_PER_SENDER = 8"
definition MAX_INBOXES :: usize where [kconst]: "MAX_INBOXES = 32"
definition MAX_SERVICES :: usize where [kconst]: "MAX_SERVICES = 32"
definition MAX_NAMES_PER_PROC :: u32 where [kconst]: "MAX_NAMES_PER_PROC = 4"
definition MAX_ALLOW :: usize where [kconst]: "MAX_ALLOW = 8"
definition NAME_MAX :: usize where [kconst]: "NAME_MAX = 31"

abbreviation TICK_HZ :: u32 where "TICK_HZ \<equiv> 100"
abbreviation ACCEPT_ANY :: u32 where "ACCEPT_ANY \<equiv> 0"
abbreviation ACCEPT_SAME_UID :: u32 where "ACCEPT_SAME_UID \<equiv> 1"
abbreviation ACCEPT_ALLOWLIST :: u32 where "ACCEPT_ALLOWLIST \<equiv> 2"
abbreviation RECV_PEEK :: u32 where "RECV_PEEK \<equiv> 1"
abbreviation RECV_MATCH_TAG :: u32 where "RECV_MATCH_TAG \<equiv> 2"
abbreviation SVC_REGISTER :: u32 where "SVC_REGISTER \<equiv> 1"
abbreviation SVC_UNREGISTER :: u32 where "SVC_UNREGISTER \<equiv> 2"
abbreviation SVC_LOOKUP :: u32 where "SVC_LOOKUP \<equiv> 3"
abbreviation CTL_STAT :: u32 where "CTL_STAT \<equiv> 1"
abbreviation CTL_ALLOW :: u32 where "CTL_ALLOW \<equiv> 2"
abbreviation CTL_DENY :: u32 where "CTL_DENY \<equiv> 3"
abbreviation CTL_POLICY :: u32 where "CTL_POLICY \<equiv> 4"

abbreviation EPERM :: i32 where "EPERM \<equiv> 1"
abbreviation ENOENT :: i32 where "ENOENT \<equiv> 2"
abbreviation ESRCH :: i32 where "ESRCH \<equiv> 3"
abbreviation E2BIG :: i32 where "E2BIG \<equiv> 7"
abbreviation EBADF :: i32 where "EBADF \<equiv> 9"
abbreviation EAGAIN :: i32 where "EAGAIN \<equiv> 11"
abbreviation EACCES :: i32 where "EACCES \<equiv> 13"
abbreviation EEXIST :: i32 where "EEXIST \<equiv> 17"
abbreviation EINVAL :: i32 where "EINVAL \<equiv> 22"
abbreviation ENOSPC :: i32 where "ENOSPC \<equiv> 28"

record hal =
  pid_is_live :: "i32 \<Rightarrow> bool"
  uid_of :: "i32 \<Rightarrow> u32 option"
  ticks :: u32

record slot =
  used :: bool
  sender :: i32
  sender_uid :: u32
  mtype :: u32
  tag :: u32
  len :: u32
  tick :: u32
  seq :: u64
  data :: bytes

record inbox =
  in_use :: bool
  pid :: i32
  policy :: u32
  allow :: "i32 list"
  count :: u32
  next_seq :: u64
  delivered :: u32
  refused :: u32
  slots :: "slot list"

record service =
  svc_in_use :: bool
  svc_pid :: i32
  name_len :: u8
  name :: bytes

definition EMPTY_SLOT :: slot where
  "EMPTY_SLOT = \<lparr>used = False, sender = 0, sender_uid = 0, mtype = 0, tag = 0, len = 0, tick = 0, seq = 0,
     data = replicate MAX_PAYLOAD 0\<rparr>"

definition EMPTY_INBOX :: inbox where
  "EMPTY_INBOX = \<lparr>in_use = False, pid = 0, policy = 0, allow = replicate MAX_ALLOW 0, count = 0, next_seq = 0,
     delivered = 0, refused = 0, slots = replicate QUEUE_DEPTH EMPTY_SLOT\<rparr>"

definition EMPTY_SERVICE :: service where
  "EMPTY_SERVICE = \<lparr>svc_in_use = False, svc_pid = 0, name_len = 0, name = replicate 32 0\<rparr>"

record msg =
  inboxes :: "inbox list"
  services :: "service list"

datatype dest = Pid i32 | Name bytes

record recv_info =
  ri_sender :: i32
  ri_sender_uid :: u32
  ri_mtype :: u32
  ri_tag :: u32
  ri_len :: u32
  ri_tick :: u32
  ri_pending :: u32

definition recv_info_default :: recv_info where
  "recv_info_default = \<lparr>ri_sender = 0, ri_sender_uid = 0, ri_mtype = 0, ri_tag = 0, ri_len = 0, ri_tick = 0,
     ri_pending = 0\<rparr>"

record msg_stat =
  queued :: u32
  capacity :: u32
  max_payload :: u32
  st_policy :: u32
  st_delivered :: u32
  st_refused :: u32
  next_len :: u32
  next_type :: u32
  next_sender :: i32
  now_tick :: u32
  tick_hz :: u32

section \<open>Operations\<close>

definition valid_name :: "bytes \<Rightarrow> bool" where
  "valid_name n \<longleftrightarrow> n \<noteq> [] \<and> length n \<le> NAME_MAX
     \<and> list_all (\<lambda>c. is_ascii_alphanumeric c \<or> c = 0x2E \<or> c = 0x5F \<or> c = 0x2D) n"

definition msg_new :: msg where
  "msg_new = \<lparr>inboxes = replicate MAX_INBOXES EMPTY_INBOX, services = replicate MAX_SERVICES EMPTY_SERVICE\<rparr>"

definition find_inbox :: "msg \<Rightarrow> i32 \<Rightarrow> usize option" where
  "find_inbox m p = (if p \<le> 0 then None else position (\<lambda>b. in_use b \<and> pid b = p) (inboxes m))"

definition svc_name :: "service \<Rightarrow> bytes" where
  "svc_name s = take (unat (name_len s)) (name s)"

definition find_service :: "msg \<Rightarrow> bytes \<Rightarrow> usize option" where
  "find_service m n = position (\<lambda>s. svc_in_use s \<and> svc_name s = n) (services m)"

definition names_of :: "msg \<Rightarrow> i32 \<Rightarrow> u32" where
  "names_of m p = of_nat (count_if (\<lambda>s. svc_in_use s \<and> svc_pid s = p) (services m))"

definition msg_open :: "i32 \<Rightarrow> u32 \<Rightarrow> u32 \<Rightarrow> msg \<Rightarrow> (u32 \<times> u32, i32) result \<times> msg" where
  "msg_open p pol flags m =
    (if flags \<noteq> 0 \<or> pol > ACCEPT_ALLOWLIST \<or> p \<le> 0 then (Err EINVAL, m)
     else if find_inbox m p \<noteq> None then (Err EEXIST, m)
     else case position (\<lambda>b. \<not> in_use b) (inboxes m) of
        None \<Rightarrow> (Err ENOSPC, m)
      | Some i \<Rightarrow> (Ok (of_nat QUEUE_DEPTH, of_nat MAX_PAYLOAD),
                  m\<lparr>inboxes := (inboxes m)[i := EMPTY_INBOX\<lparr>in_use := True, pid := p, policy := pol\<rparr>]\<rparr>))"

definition drop_process :: "i32 \<Rightarrow> msg \<Rightarrow> msg" where
  "drop_process p m = m\<lparr>
     services := map (\<lambda>s. if svc_in_use s \<and> svc_pid s = p then EMPTY_SERVICE else s) (services m),
     inboxes := map (\<lambda>b. if in_use b \<and> pid b = p then EMPTY_INBOX
                         else if in_use b then b\<lparr>allow := map (\<lambda>a. if a = p then 0 else a) (allow b)\<rparr>
                         else b) (inboxes m)\<rparr>"

definition msg_close :: "i32 \<Rightarrow> msg \<Rightarrow> (unit, i32) result \<times> msg" where
  "msg_close p m = (if find_inbox m p = None then (Err EBADF, m) else (Ok (), drop_process p m))"

definition process_exit :: "i32 \<Rightarrow> msg \<Rightarrow> msg" where
  "process_exit p m = drop_process p m"

text \<open>\<open>send\<close>, in the parts the code has: who the message is for, ...\<close>

definition send_dest :: "hal \<Rightarrow> dest \<Rightarrow> msg \<Rightarrow> (i32, i32) result \<times> msg" where
  "send_dest h dst m =
    (case dst of
       Pid p \<Rightarrow> if p \<le> 0 then (Err EINVAL, m) else (Ok p, m)
     | Name n \<Rightarrow>
        if \<not> valid_name n then (Err EINVAL, m)
        else case find_service m n of
          None \<Rightarrow> (Err ENOENT, m)
        | Some si \<Rightarrow>
            let owner = svc_pid (services m ! si) in
            if \<not> pid_is_live h owner then (Err ENOENT, m\<lparr>services := (services m)[si := EMPTY_SERVICE]\<rparr>)
            else (Ok owner, m))"

text \<open>... whether the receiver's policy lets the sender in (with the inbox's count of refusals), ...\<close>

definition send_policy :: "hal \<Rightarrow> i32 \<Rightarrow> u32 \<Rightarrow> i32 \<Rightarrow> inbox \<Rightarrow> (unit, i32) result \<times> inbox" where
  "send_policy h from from_uid to ib =
    (if policy ib = ACCEPT_SAME_UID then
       case uid_of h to of None \<Rightarrow> (Err ESRCH, ib)
       | Some ru \<Rightarrow> if from_uid \<noteq> ru \<and> from_uid \<noteq> 0 then (Err EACCES, ib\<lparr>refused := refused ib + 1\<rparr>) else (Ok (), ib)
     else if policy ib = ACCEPT_ALLOWLIST then
       if \<not> list_ex (\<lambda>a. a = from) (allow ib) then (Err EACCES, ib\<lparr>refused := refused ib + 1\<rparr>) else (Ok (), ib)
     else (Ok (), ib))"

text \<open>... the scan for a free slot and the sender's share, ...\<close>

fun send_scan :: "i32 \<Rightarrow> usize \<Rightarrow> slot list \<Rightarrow> u32 \<Rightarrow> usize option \<Rightarrow> u32 \<times> usize option" where
  "send_scan from i [] mine free = (mine, free)"
| "send_scan from i (s # ss) mine free =
    (if used s then send_scan from (i + 1) ss (if sender s = from then mine + 1 else mine) free
     else send_scan from (i + 1) ss mine (if free = None then Some i else free))"

text \<open>... and the message itself.\<close>

definition send_enqueue :: "i32 \<Rightarrow> u32 \<Rightarrow> u32 \<Rightarrow> u32 \<Rightarrow> u32 \<Rightarrow> bytes \<Rightarrow> inbox \<Rightarrow> (unit, i32) result \<times> inbox" where
  "send_enqueue from from_uid ty tg now dat ib =
    (case send_scan from 0 (slots ib) 0 None of
       (mine, Some fi) \<Rightarrow>
         if mine < MAX_PER_SENDER then
           let s = slots ib ! fi;
               s' = s\<lparr>used := True, sender := from, sender_uid := from_uid, mtype := ty, tag := tg,
                      len := of_nat (length dat), tick := now, seq := next_seq ib, data := copy_prefix dat (data s)\<rparr>
           in (Ok (), ib\<lparr>slots := (slots ib)[fi := s'], next_seq := next_seq ib + 1, count := count ib + 1\<rparr>)
         else (Err EAGAIN, ib\<lparr>refused := refused ib + 1\<rparr>)
     | (mine, None) \<Rightarrow> (Err EAGAIN, ib\<lparr>refused := refused ib + 1\<rparr>))"

definition msg_send ::
  "hal \<Rightarrow> i32 \<Rightarrow> u32 \<Rightarrow> dest \<Rightarrow> u32 \<Rightarrow> u32 \<Rightarrow> u32 \<Rightarrow> bytes \<Rightarrow> msg \<Rightarrow> (unit, i32) result \<times> msg" where
  "msg_send h from from_uid dst ty tg flags dat m =
    (if flags \<noteq> 0 \<or> ty = 0 then (Err EINVAL, m)
     else if length dat > MAX_PAYLOAD then (Err E2BIG, m)
     else case send_dest h dst m of
       (Err e, m1) \<Rightarrow> (Err e, m1)
     | (Ok to, m1) \<Rightarrow>
        if \<not> pid_is_live h to then (Err ESRCH, m1)
        else case find_inbox m1 to of
          None \<Rightarrow> (Err ENOENT, m1)
        | Some ii \<Rightarrow>
           case send_policy h from from_uid to (inboxes m1 ! ii) of
             (Err e, ib) \<Rightarrow> (Err e, m1\<lparr>inboxes := (inboxes m1)[ii := ib]\<rparr>)
           | (Ok _, _) \<Rightarrow>
              case send_enqueue from from_uid ty tg (ticks h) dat (inboxes m1 ! ii) of
                (r, ib) \<Rightarrow> (r, m1\<lparr>inboxes := (inboxes m1)[ii := ib]\<rparr>))"

text \<open>\<open>recv\<close>: the filter, the scan for the oldest match, and the delivery.\<close>

definition recv_match :: "u32 \<Rightarrow> i32 \<Rightarrow> u32 \<Rightarrow> u32 \<Rightarrow> slot \<Rightarrow> bool" where
  "recv_match flags match_sender match_type match_tag s \<longleftrightarrow>
     \<not> (\<not> used s \<or> (match_sender \<noteq> 0 \<and> sender s \<noteq> match_sender) \<or> (match_type \<noteq> 0 \<and> mtype s \<noteq> match_type)
        \<or> (flags AND RECV_MATCH_TAG \<noteq> 0 \<and> tag s \<noteq> match_tag))"

fun best_scan :: "(slot \<Rightarrow> bool) \<Rightarrow> slot list \<Rightarrow> usize \<Rightarrow> slot list \<Rightarrow> usize option \<Rightarrow> usize option" where
  "best_scan P all i [] best = best"
| "best_scan P all i (s # ss) best =
    (if \<not> P s then best_scan P all (i + 1) ss best
     else if (case best of None \<Rightarrow> True | Some b \<Rightarrow> seq s < seq (all ! b)) then best_scan P all (i + 1) ss (Some i)
     else best_scan P all (i + 1) ss best)"

definition msg_recv ::
  "i32 \<Rightarrow> u32 \<Rightarrow> i32 \<Rightarrow> u32 \<Rightarrow> u32 \<Rightarrow> bytes \<Rightarrow> recv_info \<Rightarrow> msg \<Rightarrow> ((unit, i32) result \<times> bytes \<times> recv_info) \<times> msg" where
  "msg_recv p flags match_sender match_type match_tag out info m =
    (if flags AND NOT (RECV_PEEK OR RECV_MATCH_TAG) \<noteq> 0 then ((Err EINVAL, out, info), m)
     else case find_inbox m p of
       None \<Rightarrow> ((Err EBADF, out, info), m)
     | Some ii \<Rightarrow>
        let ib = inboxes m ! ii in
        case best_scan (recv_match flags match_sender match_type match_tag) (slots ib) 0 (slots ib) None of
          None \<Rightarrow> ((Err EAGAIN, out, info), m)
        | Some bi \<Rightarrow>
           let s = slots ib ! bi;
               n = unat (len s);
               info1 = \<lparr>ri_sender = sender s, ri_sender_uid = sender_uid s, ri_mtype = mtype s, ri_tag = tag s,
                        ri_len = of_nat n, ri_tick = tick s, ri_pending = count ib\<rparr>
           in if n > length out then ((Err E2BIG, out, info1), m)
              else let out1 = copy_prefix (take n (data s)) out in
                if flags AND RECV_PEEK = 0
                then let ib1 = ib\<lparr>slots := (slots ib)[bi := s\<lparr>used := False\<rparr>], count := count ib - 1,
                                  delivered := delivered ib + 1\<rparr>
                     in ((Ok (), out1, info1\<lparr>ri_pending := count ib1\<rparr>), m\<lparr>inboxes := (inboxes m)[ii := ib1]\<rparr>)
                else ((Ok (), out1, info1), m))"

definition service_register :: "hal \<Rightarrow> i32 \<Rightarrow> bytes \<Rightarrow> msg \<Rightarrow> (i32, i32) result \<times> msg" where
  "service_register h p n m =
    (if find_inbox m p = None then (Err EBADF, m)
     else case find_service m n of
       Some si \<Rightarrow>
        let owner = svc_pid (services m ! si) in
        if owner = p then (Ok 0, m)
        else if pid_is_live h owner then (Err EEXIST, m)
        else if names_of m p \<ge> MAX_NAMES_PER_PROC then (Err ENOSPC, m)
        else (Ok 0, m\<lparr>services := (services m)[si := (services m ! si)\<lparr>svc_pid := p\<rparr>]\<rparr>)
     | None \<Rightarrow>
        if names_of m p \<ge> MAX_NAMES_PER_PROC then (Err ENOSPC, m)
        else case position (\<lambda>s. \<not> svc_in_use s) (services m) of
          None \<Rightarrow> (Err ENOSPC, m)
        | Some f \<Rightarrow>
           (Ok 0, m\<lparr>services := (services m)[f := \<lparr>svc_in_use = True, svc_pid = p, name_len = of_nat (length n),
                                                name = copy_prefix n (replicate 32 0)\<rparr>]\<rparr>))"

definition msg_service :: "hal \<Rightarrow> i32 \<Rightarrow> u32 \<Rightarrow> bytes \<Rightarrow> msg \<Rightarrow> (i32, i32) result \<times> msg" where
  "msg_service h p op n m =
    (if \<not> valid_name n then (Err EINVAL, m)
     else if op = SVC_REGISTER then service_register h p n m
     else if op = SVC_UNREGISTER then
       (case find_service m n of
          None \<Rightarrow> (Err ENOENT, m)
        | Some si \<Rightarrow>
           if svc_pid (services m ! si) \<noteq> p then (Err EPERM, m)
           else (Ok 0, m\<lparr>services := (services m)[si := EMPTY_SERVICE]\<rparr>))
     else if op = SVC_LOOKUP then
       (case find_service m n of
          None \<Rightarrow> (Err ENOENT, m)
        | Some si \<Rightarrow>
           let owner = svc_pid (services m ! si) in
           if pid_is_live h owner then (Ok owner, m)
           else (Err ENOENT, m\<lparr>services := (services m)[si := EMPTY_SERVICE]\<rparr>))
     else (Err EINVAL, m))"

definition msg_stat_of :: "hal \<Rightarrow> i32 \<Rightarrow> msg \<Rightarrow> (msg_stat, i32) result" where
  "msg_stat_of h p m =
    (case find_inbox m p of
       None \<Rightarrow> Err EBADF
     | Some ii \<Rightarrow>
        let ib = inboxes m ! ii;
            st = \<lparr>queued = count ib, capacity = of_nat QUEUE_DEPTH, max_payload = of_nat MAX_PAYLOAD,
                  st_policy = policy ib, st_delivered = delivered ib, st_refused = refused ib,
                  next_len = 0, next_type = 0, next_sender = 0, now_tick = ticks h, tick_hz = TICK_HZ\<rparr>
        in case best_scan used (slots ib) 0 (slots ib) None of
             None \<Rightarrow> Ok st
           | Some b \<Rightarrow> Ok (st\<lparr>next_len := len (slots ib ! b), next_type := mtype (slots ib ! b),
                              next_sender := sender (slots ib ! b)\<rparr>))"

definition msg_allow :: "i32 \<Rightarrow> i32 \<Rightarrow> bool \<Rightarrow> msg \<Rightarrow> (unit, i32) result \<times> msg" where
  "msg_allow p target add m =
    (case find_inbox m p of
       None \<Rightarrow> (Err EBADF, m)
     | Some ii \<Rightarrow>
        if target \<le> 0 then (Err EINVAL, m)
        else let lst = allow (inboxes m ! ii);
                 upd = (\<lambda>l. m\<lparr>inboxes := (inboxes m)[ii := (inboxes m ! ii)\<lparr>allow := l\<rparr>]\<rparr>)
             in if add then
                  if list_ex (\<lambda>a. a = target) lst then (Ok (), m)
                  else (case position (\<lambda>a. a = 0) lst of
                          Some f \<Rightarrow> (Ok (), upd (lst[f := target]))
                        | None \<Rightarrow> (Err ENOSPC, m))
                else (Ok (), upd (map (\<lambda>a. if a = target then 0 else a) lst)))"

definition msg_set_policy :: "i32 \<Rightarrow> u32 \<Rightarrow> msg \<Rightarrow> (unit, i32) result \<times> msg" where
  "msg_set_policy p pol m =
    (case find_inbox m p of
       None \<Rightarrow> (Err EBADF, m)
     | Some ii \<Rightarrow>
        if pol > ACCEPT_ALLOWLIST then (Err EINVAL, m)
        else (Ok (), m\<lparr>inboxes := (inboxes m)[ii := (inboxes m ! ii)\<lparr>policy := pol\<rparr>]\<rparr>))"

section \<open>The module's own consistency check\<close>

fun check_allow :: "i32 list \<Rightarrow> string option" where
  "check_allow [] = None"
| "check_allow (a # as) =
    (if a < 0 then Some ''a negative pid in an allowlist''
     else if a \<noteq> 0 \<and> list_ex (\<lambda>x. x = a) as then Some ''a duplicate allowlist entry''
     else check_allow as)"

fun check_slots :: "u64 \<Rightarrow> slot list \<Rightarrow> string option" where
  "check_slots nseq [] = None"
| "check_slots nseq (s # ss) =
    (if \<not> used s then check_slots nseq ss
     else if mtype s = 0 \<or> unat (len s) > MAX_PAYLOAD \<or> sender s \<le> 0 then Some ''a queued message has impossible fields''
     else if list_ex (\<lambda>t. used t \<and> seq t = seq s) ss then Some ''two queued messages share an arrival number''
     else if seq s \<ge> nseq then Some ''a queued message is newer than the arrival counter''
     else check_slots nseq ss)"

definition check_share :: "slot list \<Rightarrow> i32 \<Rightarrow> string option" where
  "check_share ss p =
    (if (of_nat (count_if (\<lambda>s. used s \<and> sender s = p) ss) :: u32) > MAX_PER_SENDER
     then Some ''a sender holds more than its share of an inbox'' else None)"

definition check_inbox :: "msg \<Rightarrow> usize \<Rightarrow> string option" where
  "check_inbox m i =
    (let b = inboxes m ! i; n = of_nat (count_if used (slots b)) in
     if \<not> in_use b then (if n \<noteq> (0::u32) \<or> count b \<noteq> 0 then Some ''a free inbox holds messages'' else None)
     else if pid b \<le> 0 then Some ''an inbox belongs to no valid pid''
     else if count b \<noteq> n then Some ''an inbox's count disagrees with its used slots''
     else if policy b > ACCEPT_ALLOWLIST then Some ''an inbox has an invalid policy''
     else if list_ex (\<lambda>j. j \<noteq> i \<and> in_use (inboxes m ! j) \<and> pid (inboxes m ! j) = pid b) [0..<length (inboxes m)]
       then Some ''two inboxes belong to one pid''
     else case check_allow (allow b) of Some e \<Rightarrow> Some e
     | None \<Rightarrow> (case check_slots (next_seq b) (slots b) of Some e \<Rightarrow> Some e
       | None \<Rightarrow> first_err (check_share (slots b)) (map sender (filter used (slots b)))))"

definition check_service :: "msg \<Rightarrow> usize \<Rightarrow> string option" where
  "check_service m i =
    (let s = services m ! i in
     if \<not> svc_in_use s then None
     else if \<not> valid_name (svc_name s) then Some ''a service has an invalid name''
     else if find_inbox m (svc_pid s) = None then Some ''a service belongs to a process with no inbox''
     else if list_ex (\<lambda>t. svc_in_use t \<and> name_len t = name_len s \<and> svc_name t = svc_name s) (drop (i + 1) (services m))
       then Some ''two services share a name''
     else if names_of m (svc_pid s) > MAX_NAMES_PER_PROC then Some ''a process holds more names than the limit''
     else None)"

definition check_counts :: "msg \<Rightarrow> (unit, string) result" where
  "check_counts m =
    (case first_err (check_inbox m) [0..<length (inboxes m)] of
       Some e \<Rightarrow> Err e
     | None \<Rightarrow> (case first_err (check_service m) [0..<length (services m)] of Some e \<Rightarrow> Err e | None \<Rightarrow> Ok ()))"

definition msg_stats :: "msg \<Rightarrow> u32 \<times> u32 \<times> u32" where
  "msg_stats m =
    (of_nat (count_if in_use (inboxes m)), sum_list (map count (filter in_use (inboxes m))),
     of_nat (count_if svc_in_use (services m)))"

section \<open>The C boundary\<close>

text \<open>
  A pointer and a length are a byte list; out-parameters are the values they hold, before and after.
\<close>

definition rust_msg_open :: "i32 \<Rightarrow> u32 \<Rightarrow> u32 \<Rightarrow> u32 \<times> u32 \<Rightarrow> msg \<Rightarrow> (i32 \<times> u32 \<times> u32) \<times> msg" where
  "rust_msg_open p pol flags out m =
    (case msg_open p pol flags m of (Ok (d, x), m') \<Rightarrow> ((0, d, x), m') | (Err e, m') \<Rightarrow> ((- e, out), m'))"

definition rust_msg_close :: "i32 \<Rightarrow> msg \<Rightarrow> i32 \<times> msg" where
  "rust_msg_close p m = (case msg_close p m of (r, m') \<Rightarrow> (neg_errno r, m'))"

definition rust_msg_send ::
  "hal \<Rightarrow> i32 \<Rightarrow> u32 \<Rightarrow> i32 \<Rightarrow> bytes \<Rightarrow> u32 \<Rightarrow> u32 \<Rightarrow> u32 \<Rightarrow> bytes \<Rightarrow> msg \<Rightarrow> i32 \<times> msg" where
  "rust_msg_send h from from_uid dest_pid n ty tg flags dat m =
    (if length dat > MAX_PAYLOAD then (- E2BIG, m)
     else if length n > NAME_MAX + 1 then (- EINVAL, m)
     else let dst = (if n = [] then Pid dest_pid else Name n)
          in case msg_send h from from_uid dst ty tg flags dat m of (r, m') \<Rightarrow> (neg_errno r, m'))"

definition recv_info_words :: "recv_info \<Rightarrow> u32 list" where
  "recv_info_words ri = [of_int (ri_sender ri), ri_sender_uid ri, ri_mtype ri, ri_tag ri, ri_len ri, ri_tick ri,
     ri_pending ri, 0]"

text \<open>The buffer \<open>buf\<close> has \<open>cap\<close> bytes; the part past the largest payload is not used.\<close>

definition rust_msg_recv ::
  "i32 \<Rightarrow> u32 \<Rightarrow> i32 \<Rightarrow> u32 \<Rightarrow> u32 \<Rightarrow> bytes \<Rightarrow> u32 list \<Rightarrow> msg \<Rightarrow> (i32 \<times> bytes \<times> u32 list) \<times> msg" where
  "rust_msg_recv p flags match_sender match_type match_tag buf info m =
    (let cap = min (length buf) MAX_PAYLOAD in
     case msg_recv p flags match_sender match_type match_tag (take cap buf) recv_info_default m of
       ((r, out, ri), m') \<Rightarrow>
         ((neg_errno r, out @ drop cap buf,
           (if r = Ok () \<or> r = Err E2BIG then recv_info_words ri else info)), m'))"

definition rust_msg_service :: "hal \<Rightarrow> i32 \<Rightarrow> u32 \<Rightarrow> bytes \<Rightarrow> i32 \<Rightarrow> msg \<Rightarrow> (i32 \<times> i32) \<times> msg" where
  "rust_msg_service h p op n out_pid m =
    (if length n > NAME_MAX + 1 then ((- EINVAL, out_pid), m)
     else case msg_service h p op n m of (Ok q, m') \<Rightarrow> ((0, q), m') | (Err e, m') \<Rightarrow> ((- e, out_pid), m'))"

definition stat_words :: "msg_stat \<Rightarrow> u32 list" where
  "stat_words s = [queued s, capacity s, max_payload s, st_policy s, st_delivered s, st_refused s, next_len s,
     next_type s, of_int (next_sender s), now_tick s, tick_hz s, 0]"

definition rust_msg_ctl :: "hal \<Rightarrow> i32 \<Rightarrow> u32 \<Rightarrow> u32 \<Rightarrow> u32 list \<Rightarrow> msg \<Rightarrow> (i32 \<times> u32 list) \<times> msg" where
  "rust_msg_ctl h p op arg out m =
    (if op = CTL_STAT then
       (case msg_stat_of h p m of Ok s \<Rightarrow> ((0, stat_words s), m) | Err e \<Rightarrow> ((- e, out), m))
     else if op = CTL_ALLOW then (case msg_allow p (sint arg) True m of (r, m') \<Rightarrow> ((neg_errno r, out), m'))
     else if op = CTL_DENY then (case msg_allow p (sint arg) False m of (r, m') \<Rightarrow> ((neg_errno r, out), m'))
     else if op = CTL_POLICY then (case msg_set_policy p arg m of (r, m') \<Rightarrow> ((neg_errno r, out), m'))
     else ((- EINVAL, out), m))"

definition rust_msg_process_exit :: "i32 \<Rightarrow> msg \<Rightarrow> msg" where
  "rust_msg_process_exit p m = process_exit p m"

definition rust_msg_selftest :: "msg \<Rightarrow> u32 \<times> u32 \<times> u32 \<times> u32" where
  "rust_msg_selftest m = (case msg_stats m of (i, q, s) \<Rightarrow> (if check_counts m = Ok () then 0 else 1, i, q, s))"

text \<open>The calls the kernel makes.  A sender is a process, so its number is positive.\<close>

datatype msg_op =
    MOpen i32 u32 u32
  | MClose i32
  | MSend hal i32 u32 i32 bytes u32 u32 u32 bytes
  | MRecv i32 u32 i32 u32 u32 bytes
  | MService hal i32 u32 bytes
  | MCtl hal i32 u32 u32
  | MExit i32

fun msg_op_ok :: "msg_op \<Rightarrow> bool" where
  "msg_op_ok (MSend h from _ _ _ _ _ _ _) \<longleftrightarrow> 0 < from"
| "msg_op_ok _ \<longleftrightarrow> True"

fun msg_step :: "msg_op \<Rightarrow> msg \<Rightarrow> msg" where
  "msg_step (MOpen p pol flags) m = snd (rust_msg_open p pol flags (0, 0) m)"
| "msg_step (MClose p) m = snd (rust_msg_close p m)"
| "msg_step (MSend h from uid d n ty tg flags dat) m = snd (rust_msg_send h from uid d n ty tg flags dat m)"
| "msg_step (MRecv p flags ms mt mtag buf) m = snd (rust_msg_recv p flags ms mt mtag buf [] m)"
| "msg_step (MService h p op n) m = snd (rust_msg_service h p op n 0 m)"
| "msg_step (MCtl h p op arg) m = snd (rust_msg_ctl h p op arg [] m)"
| "msg_step (MExit p) m = rust_msg_process_exit p m"

section \<open>Invariant of an inbox\<close>

definition slot_ok :: "u64 \<Rightarrow> slot \<Rightarrow> bool" where
  "slot_ok nseq s \<longleftrightarrow> length (data s) = MAX_PAYLOAD
   \<and> (used s \<longrightarrow> mtype s \<noteq> 0 \<and> unat (len s) \<le> MAX_PAYLOAD \<and> 0 < sender s \<and> seq s < nseq)"

definition allow_ok :: "i32 list \<Rightarrow> bool" where
  "allow_ok l \<longleftrightarrow> length l = MAX_ALLOW \<and> list_all (\<lambda>a. 0 \<le> a) l \<and> uniq (\<lambda>a. a) (\<lambda>a. a \<noteq> 0) l"

abbreviation share :: "i32 \<Rightarrow> inbox \<Rightarrow> nat" where
  "share p b \<equiv> count_if (\<lambda>s. used s \<and> sender s = p) (slots b)"

definition inbox_ok :: "inbox \<Rightarrow> bool" where
  "inbox_ok b \<longleftrightarrow>
     length (slots b) = QUEUE_DEPTH \<and> list_all (slot_ok (next_seq b)) (slots b) \<and> uniq seq used (slots b)
   \<and> unat (count b) = count_if used (slots b) \<and> (\<forall>p. share p b \<le> 8)
   \<and> policy b \<le> ACCEPT_ALLOWLIST \<and> allow_ok (allow b)
   \<and> (if in_use b then 0 < pid b else count_if used (slots b) = 0)"

lemma inbox_ok_empty: "inbox_ok EMPTY_INBOX"
  by (simp add: inbox_ok_def EMPTY_INBOX_def slot_ok_def EMPTY_SLOT_def allow_ok_def list_all_iff count_if_replicate
      uniq_none kconst)

lemma inbox_ok_fresh:
  "0 < p \<Longrightarrow> pol \<le> ACCEPT_ALLOWLIST \<Longrightarrow> inbox_ok (EMPTY_INBOX\<lparr>in_use := True, pid := p, policy := pol\<rparr>)"
  by (simp add: inbox_ok_def EMPTY_INBOX_def slot_ok_def EMPTY_SLOT_def allow_ok_def list_all_iff count_if_replicate
      uniq_none kconst)

lemma inbox_ok_refused: "inbox_ok b \<Longrightarrow> inbox_ok (b\<lparr>refused := r\<rparr>)"
  by (simp add: inbox_ok_def)

lemma inbox_ok_policy: "inbox_ok b \<Longrightarrow> pol \<le> ACCEPT_ALLOWLIST \<Longrightarrow> inbox_ok (b\<lparr>policy := pol\<rparr>)"
  by (simp add: inbox_ok_def)

lemma inbox_ok_allow: "inbox_ok b \<Longrightarrow> allow_ok l \<Longrightarrow> inbox_ok (b\<lparr>allow := l\<rparr>)"
  by (simp add: inbox_ok_def)

lemma allow_ok_clear: "allow_ok l \<Longrightarrow> allow_ok (map (\<lambda>a. if a = p then 0 else a) l)"
  unfolding allow_ok_def by (auto simp: list_all_iff intro!: uniq_map split: if_splits)

lemma allow_ok_add:
  assumes "allow_ok l" and "\<not> list_ex (\<lambda>a. a = t) l" and "0 < t"
  shows "allow_ok (l[i := t])"
  unfolding allow_ok_def
proof (intro conjI)
  show "length (l[i := t]) = MAX_ALLOW" using assms(1) by (simp add: allow_ok_def)
  show "list_all (\<lambda>a. 0 \<le> a) (l[i := t])"
    using assms by (auto simp: allow_ok_def list_all_iff dest!: set_update_subset_insert [THEN subsetD])
  show "uniq (\<lambda>a. a) (\<lambda>a. a \<noteq> 0) (l[i := t])"
    using assms by (intro uniq_update) (auto simp: allow_ok_def list_ex_iff)
qed

text \<open>The scan of \<open>send\<close>: the sender's share and the first free slot.\<close>

lemma send_scan_spec:
  "send_scan from i ss mine free
   = (mine + of_nat (count_if (\<lambda>s. used s \<and> sender s = from) ss),
      case free of Some f \<Rightarrow> Some f | None \<Rightarrow> map_option (\<lambda>k. i + k) (position (\<lambda>s. \<not> used s) ss))"
proof (induction ss arbitrary: i mine free)
  case Nil
  show ?case by (simp split: option.splits)
next
  case (Cons s ss)
  show ?case
    unfolding send_scan.simps Cons.IH
    by (cases "position (\<lambda>s. \<not> used s) ss") (auto split: option.splits simp: add.assoc)
qed

definition new_slot :: "i32 \<Rightarrow> u32 \<Rightarrow> u32 \<Rightarrow> u32 \<Rightarrow> u32 \<Rightarrow> bytes \<Rightarrow> u64 \<Rightarrow> slot \<Rightarrow> slot" where
  "new_slot from from_uid ty tg now dat n s = s\<lparr>used := True, sender := from, sender_uid := from_uid, mtype := ty,
     tag := tg, len := of_nat (length dat), tick := now, seq := n, data := copy_prefix dat (data s)\<rparr>"

lemma share_le: "share p b \<le> length (slots b)"
  by (rule count_if_le_length)

lemma send_enqueue_cases:
  assumes "inbox_ok b"
  obtains (full) "send_enqueue from uid ty tg now dat b = (Err EAGAIN, b\<lparr>refused := refused b + 1\<rparr>)"
      "count_if used (slots b) = QUEUE_DEPTH \<or> share from b = 8"
    | (room) f where "f < length (slots b)" "\<not> used (slots b ! f)" "share from b < 8"
      "send_enqueue from uid ty tg now dat b = (Ok (), b\<lparr>slots := (slots b)[f := new_slot from uid ty tg now dat (next_seq b) (slots b ! f)],
        next_seq := next_seq b + 1, count := count b + 1\<rparr>)"
proof -
  have "share from b \<le> 8" using assms by (simp add: inbox_ok_def)
  then have sh: "(of_nat (share from b) :: u32) < MAX_PER_SENDER \<longleftrightarrow> share from b < 8"
    by (simp add: kconst word_less_nat_alt unat_of_nat)
  show thesis
  proof (cases "position (\<lambda>s. \<not> used s) (slots b)")
    case None
    then have "count_if used (slots b) = length (slots b)"
      by (simp add: position_None count_if_def)
    with None assms show ?thesis
      by (intro full) (auto simp: send_enqueue_def send_scan_spec inbox_ok_def)
  next
    case (Some f)
    show ?thesis
    proof (cases "share from b < 8")
      case True
      with Some sh show ?thesis
        using position_SomeD(1,2) [OF Some] by (intro room [of f]) (simp_all add: send_enqueue_def send_scan_spec new_slot_def Let_def)
    next
      case False
      with Some sh \<open>share from b \<le> 8\<close> show ?thesis
        by (intro full) (simp_all add: send_enqueue_def send_scan_spec)
    qed
  qed
qed

lemma new_slot_simps [simp]:
  "used (new_slot from uid ty tg now dat n s)" "sender (new_slot from uid ty tg now dat n s) = from"
  "seq (new_slot from uid ty tg now dat n s) = n"
  by (simp_all add: new_slot_def)

lemma enqueue_inbox_ok:
  assumes b: "inbox_ok b" "in_use b" and f: "f < length (slots b)" "\<not> used (slots b ! f)" "share from b < 8"
    and arg: "0 < from" "ty \<noteq> 0" "length dat \<le> MAX_PAYLOAD" "unat (next_seq b) + 1 < 2 ^ 64"
  shows "inbox_ok (b\<lparr>slots := (slots b)[f := new_slot from uid ty tg now dat (next_seq b) (slots b ! f)],
      next_seq := next_seq b + 1, count := count b + 1\<rparr>)" (is "inbox_ok ?b")
proof -
  let ?s = "new_slot from uid ty tg now dat (next_seq b) (slots b ! f)"
  have len: "length (slots b) = QUEUE_DEPTH" and ok: "\<And>s. s \<in> set (slots b) \<Longrightarrow> slot_ok (next_seq b) s"
    using b by (auto simp: inbox_ok_def list_all_iff)
  have inc: "unat (next_seq b + 1) = unat (next_seq b) + 1"
    using arg(4) by (simp add: unat_word_ariths)
  then have lt: "next_seq b < next_seq b + 1" by (simp add: word_less_nat_alt)
  have "slot_ok (next_seq b + 1) ?s"
    using ok [of "slots b ! f"] f arg lt
    by (simp add: slot_ok_def new_slot_def kconst unat_of_nat)
  moreover have "slot_ok (next_seq b + 1) s" if "s \<in> set (slots b)" for s
    using ok [OF that] lt by (auto simp: slot_ok_def)
  ultimately have all: "list_all (slot_ok (next_seq b + 1)) ((slots b)[f := ?s])"
    by (auto simp: list_all_iff dest!: set_update_subset_insert [THEN subsetD])
  have "seq (slots b ! j) \<noteq> next_seq b" if "j < length (slots b)" "used (slots b ! j)" for j
    using ok [OF nth_mem [OF that(1)]] that(2) by (auto simp: slot_ok_def)
  then have uq: "uniq seq used ((slots b)[f := ?s])"
    using b by (intro uniq_update) (auto simp: inbox_ok_def)
  have cnt: "count_if used ((slots b)[f := ?s]) = count_if used (slots b) + 1"
    using count_if_update [OF f(1), of used ?s] f(2) by simp
  have "count_if used (slots b) < QUEUE_DEPTH"
    using cnt count_if_le_length [of used "(slots b)[f := ?s]"] len by simp
  then have c: "unat (count b + 1) = count_if used (slots b) + 1"
    using b by (simp add: inbox_ok_def kconst unat_word_ariths)
  have "count_if (\<lambda>s. used s \<and> sender s = p) ((slots b)[f := ?s]) = share p b + of_bool (p = from)" for p
    using count_if_update [OF f(1), of "\<lambda>s. used s \<and> sender s = p" ?s] f(2) by auto
  then have sh: "\<forall>p. count_if (\<lambda>s. used s \<and> sender s = p) ((slots b)[f := ?s]) \<le> 8"
    using b f(3) by (auto simp: inbox_ok_def)
  show ?thesis
    using b all uq cnt c sh len by (simp add: inbox_ok_def)
qed

lemma dequeue_inbox_ok:
  assumes b: "inbox_ok b" "in_use b" and f: "f < length (slots b)" "used (slots b ! f)"
  shows "inbox_ok (b\<lparr>slots := (slots b)[f := (slots b ! f)\<lparr>used := False\<rparr>], count := count b - 1, delivered := d\<rparr>)"
proof -
  let ?s = "(slots b ! f)\<lparr>used := False\<rparr>"
  have ok: "\<And>s. s \<in> set (slots b) \<Longrightarrow> slot_ok (next_seq b) s"
    using b by (auto simp: inbox_ok_def list_all_iff)
  have all: "list_all (slot_ok (next_seq b)) ((slots b)[f := ?s])"
    using ok f by (auto simp: list_all_iff slot_ok_def dest!: set_update_subset_insert [THEN subsetD])
  have uq: "uniq seq used ((slots b)[f := ?s])"
    using b by (intro uniq_update) (auto simp: inbox_ok_def)
  have cnt: "count_if used ((slots b)[f := ?s]) + 1 = count_if used (slots b)"
    using count_if_update [OF f(1), of used ?s] f(2) by simp
  then have "unat (count b) = Suc (count_if used ((slots b)[f := ?s]))"
    using b by (simp add: inbox_ok_def)
  moreover from this have "count b \<noteq> 0" by auto
  ultimately have c: "unat (count b - 1) = count_if used ((slots b)[f := ?s])"
    by (simp add: unat_minus_one)
  have "count_if (\<lambda>s. used s \<and> sender s = p) ((slots b)[f := ?s]) \<le> share p b" for p
    using count_if_update [OF f(1), of "\<lambda>s. used s \<and> sender s = p" ?s] by simp
  moreover have "share p b \<le> 8" for p using b by (simp add: inbox_ok_def)
  ultimately have sh: "\<forall>p. count_if (\<lambda>s. used s \<and> sender s = p) ((slots b)[f := ?s]) \<le> 8"
    using le_trans by blast
  show ?thesis
    using b all uq c sh by (simp add: inbox_ok_def)
qed

text \<open>The scan of \<open>recv\<close>: a matching slot with the smallest arrival number.\<close>

definition best_ok :: "(slot \<Rightarrow> bool) \<Rightarrow> slot list \<Rightarrow> nat \<Rightarrow> usize option \<Rightarrow> bool" where
  "best_ok P xs n best \<longleftrightarrow>
    (case best of None \<Rightarrow> \<forall>j < n. \<not> P (xs ! j)
     | Some b \<Rightarrow> b < n \<and> P (xs ! b) \<and> (\<forall>j < n. P (xs ! j) \<longrightarrow> seq (xs ! b) \<le> seq (xs ! j)))"

lemma best_scan_ok:
  "best_ok P xs i best \<Longrightarrow> i + length ss = length xs \<Longrightarrow> ss = drop i xs \<Longrightarrow> best_ok P xs (length xs) (best_scan P xs i ss best)"
proof (induction ss arbitrary: i best)
  case Nil
  then show ?case by simp
next
  case (Cons s ss)
  have s: "s = xs ! i" "ss = drop (Suc i) xs"
    using Cons.prems(2,3) by (metis nth_via_drop, metis drop_Suc list.sel(3) tl_drop)
  have "best_ok P xs (Suc i) (if P s then if (case best of None \<Rightarrow> True | Some b \<Rightarrow> seq s < seq (xs ! b)) then Some i else best else best)"
    using Cons.prems(1) s(1) by (auto simp: best_ok_def less_Suc_eq split: option.splits)
  from Cons.IH [OF this _ s(2)] Cons.prems(2) show ?case
    by (cases "P s"; cases "case best of None \<Rightarrow> True | Some b \<Rightarrow> seq s < seq (xs ! b)") simp_all
qed

lemma best_scan_spec: "best_ok P xs (length xs) (best_scan P xs 0 xs None)"
  by (rule best_scan_ok) (simp_all add: best_ok_def)

section \<open>Invariant of the module\<close>

definition owns :: "i32 \<Rightarrow> service \<Rightarrow> bool" where
  "owns p s \<longleftrightarrow> svc_in_use s \<and> svc_pid s = p"

definition services_ok :: "(i32 \<Rightarrow> bool) \<Rightarrow> service list \<Rightarrow> bool" where
  "services_ok has_inbox sv \<longleftrightarrow>
     length sv = MAX_SERVICES
   \<and> list_all (\<lambda>s. svc_in_use s \<longrightarrow> valid_name (svc_name s) \<and> has_inbox (svc_pid s)) sv
   \<and> uniq svc_name svc_in_use sv \<and> (\<forall>p. count_if (owns p) sv \<le> 4)"

abbreviation has_inbox :: "msg \<Rightarrow> i32 \<Rightarrow> bool" where
  "has_inbox m p \<equiv> find_inbox m p \<noteq> None"

definition msg_inv :: "msg \<Rightarrow> bool" where
  "msg_inv m \<longleftrightarrow>
     length (inboxes m) = MAX_INBOXES \<and> list_all inbox_ok (inboxes m) \<and> uniq pid in_use (inboxes m)
   \<and> services_ok (has_inbox m) (services m)"

text \<open>Fewer messages than \<open>2 ^ 64\<close> have been sent, so no arrival number has been used twice.\<close>

definition seq_bound :: "nat \<Rightarrow> msg \<Rightarrow> bool" where
  "seq_bound k m \<longleftrightarrow> list_all (\<lambda>b. unat (next_seq b) \<le> k) (inboxes m)"

lemma find_inboxD:
  assumes "find_inbox m p = Some i"
  shows "0 < p" and "i < length (inboxes m)" and "in_use (inboxes m ! i)" and "pid (inboxes m ! i) = p"
  using assms position_SomeD [of "\<lambda>b. in_use b \<and> pid b = p" "inboxes m" i]
  by (auto simp: find_inbox_def split: if_splits)

lemma find_inboxI:
  assumes "msg_inv m" and "i < length (inboxes m)" and "in_use (inboxes m ! i)"
  shows "find_inbox m (pid (inboxes m ! i)) = Some i"
proof -
  have "inbox_ok (inboxes m ! i)" using assms by (simp add: msg_inv_def list_all_length)
  with assms(3) have "0 < pid (inboxes m ! i)" by (simp add: inbox_ok_def)
  moreover have "position (\<lambda>b. in_use b \<and> pid b = pid (inboxes m ! i)) (inboxes m) = Some i"
    using assms by (intro position_unique) (auto simp: msg_inv_def uniq_nth)
  ultimately show ?thesis by (simp add: find_inbox_def)
qed

lemma find_inbox_nonpos [simp]: "p \<le> 0 \<Longrightarrow> find_inbox m p = None"
  by (simp add: find_inbox_def)

lemma find_inbox_cong: "inboxes m = inboxes m' \<Longrightarrow> find_inbox m = find_inbox m'"
  by (simp add: find_inbox_def fun_eq_iff)

lemma find_inbox_update:
  assumes "in_use b = in_use (inboxes m ! i)" and "pid b = pid (inboxes m ! i)"
  shows "find_inbox (m\<lparr>inboxes := (inboxes m)[i := b]\<rparr>) = find_inbox m"
  using assms by (simp add: find_inbox_def fun_eq_iff position_update_same)

lemma inbox_ok_nth: "msg_inv m \<Longrightarrow> i < length (inboxes m) \<Longrightarrow> inbox_ok (inboxes m ! i)"
  by (simp add: msg_inv_def list_all_length)

text \<open>Changing one inbox in place, or the services only.\<close>

lemma msg_inv_update:
  assumes "msg_inv m" and "i < length (inboxes m)" and "inbox_ok b"
    and "in_use b = in_use (inboxes m ! i)" and "pid b = pid (inboxes m ! i)"
  shows "msg_inv (m\<lparr>inboxes := (inboxes m)[i := b]\<rparr>)"
  unfolding msg_inv_def find_inbox_update [OF assms(4,5)]
proof (intro conjI)
  show "uniq pid in_use (inboxes (m\<lparr>inboxes := (inboxes m)[i := b]\<rparr>))"
    using assms by (simp add: msg_inv_def uniq_update_same)
qed (use assms in \<open>simp_all add: msg_inv_def list_all_update\<close>)

lemma msg_inv_services:
  assumes "msg_inv m" and "services_ok (has_inbox m) sv"
  shows "msg_inv (m\<lparr>services := sv\<rparr>)"
proof -
  have "find_inbox (m\<lparr>services := sv\<rparr>) = find_inbox m" by (rule find_inbox_cong) simp
  with assms show ?thesis by (simp add: msg_inv_def)
qed

lemma services_ok_clear:
  assumes "services_ok F sv" and "i < length sv"
  shows "services_ok F (sv[i := EMPTY_SERVICE])"
  unfolding services_ok_def
proof (intro conjI)
  show "list_all (\<lambda>s. svc_in_use s \<longrightarrow> valid_name (svc_name s) \<and> F (svc_pid s)) (sv[i := EMPTY_SERVICE])"
    using assms by (intro list_all_update) (simp_all add: services_ok_def EMPTY_SERVICE_def)
  show "uniq svc_name svc_in_use (sv[i := EMPTY_SERVICE])"
    using assms by (intro uniq_update) (simp_all add: services_ok_def EMPTY_SERVICE_def)
  have "count_if (owns p) (sv[i := EMPTY_SERVICE]) \<le> count_if (owns p) sv" for p
    using count_if_update [OF assms(2), of "owns p" EMPTY_SERVICE] by (simp add: owns_def EMPTY_SERVICE_def)
  moreover have "count_if (owns p) sv \<le> 4" for p using assms(1) by (simp add: services_ok_def)
  ultimately show "\<forall>p. count_if (owns p) (sv[i := EMPTY_SERVICE]) \<le> 4" using le_trans by blast
qed (use assms in \<open>simp add: services_ok_def\<close>)

lemma names_of_less:
  assumes "services_ok F (services m)"
  shows "names_of m p \<ge> MAX_NAMES_PER_PROC \<longleftrightarrow> count_if (owns p) (services m) = 4"
    and "\<not> names_of m p > MAX_NAMES_PER_PROC"
proof -
  have le: "count_if (owns p) (services m) \<le> 4" using assms by (simp add: services_ok_def)
  have n: "names_of m p = of_nat (count_if (owns p) (services m))"
    by (simp add: names_of_def owns_def [abs_def])
  show "names_of m p \<ge> MAX_NAMES_PER_PROC \<longleftrightarrow> count_if (owns p) (services m) = 4"
    "\<not> names_of m p > MAX_NAMES_PER_PROC"
    using le unfolding n by (auto simp: kconst word_le_nat_alt word_less_nat_alt unat_of_nat)
qed

text \<open>Giving a free or stale entry to a process that has room for one more name.\<close>

lemma services_ok_grant:
  assumes ok: "services_ok F sv" and i: "i < length sv" and few: "count_if (owns p) sv < 4"
    and s: "svc_in_use s" "svc_pid s = p" "valid_name (svc_name s)" "F p"
    and new: "\<forall>j < length sv. j \<noteq> i \<longrightarrow> svc_in_use (sv ! j) \<longrightarrow> svc_name (sv ! j) \<noteq> svc_name s"
  shows "services_ok F (sv[i := s])"
  unfolding services_ok_def
proof (intro conjI allI)
  show "list_all (\<lambda>s. svc_in_use s \<longrightarrow> valid_name (svc_name s) \<and> F (svc_pid s)) (sv[i := s])"
    using ok s by (intro list_all_update) (simp_all add: services_ok_def)
  show "uniq svc_name svc_in_use (sv[i := s])"
    using ok new by (intro uniq_update) (simp_all add: services_ok_def)
  fix q
  have "count_if (owns q) (sv[i := s]) \<le> count_if (owns q) sv + of_bool (q = p)"
    using count_if_update [OF i, of "owns q" s] s by (auto simp: owns_def)
  moreover have "count_if (owns q) sv \<le> 4" using ok by (simp add: services_ok_def)
  ultimately show "count_if (owns q) (sv[i := s]) \<le> 4" using few by (cases "q = p") simp_all
qed (use ok in \<open>simp add: services_ok_def\<close>)

section \<open>Every operation keeps the invariant\<close>

lemma msg_open_inv:
  assumes "msg_inv m"
  shows "msg_inv (snd (msg_open p pol flags m))"
proof (cases "flags \<noteq> 0 \<or> pol > ACCEPT_ALLOWLIST \<or> p \<le> 0 \<or> has_inbox m p \<or> position (\<lambda>b. \<not> in_use b) (inboxes m) = None")
  case True
  with assms show ?thesis by (auto simp: msg_open_def)
next
  case False
  then obtain i where i: "position (\<lambda>b. \<not> in_use b) (inboxes m) = Some i" by auto
  let ?b = "EMPTY_INBOX\<lparr>in_use := True, pid := p, policy := pol\<rparr>"
  let ?m = "m\<lparr>inboxes := (inboxes m)[i := ?b]\<rparr>"
  have none: "position (\<lambda>b. in_use b \<and> pid b = p) (inboxes m) = None" and i': "i < length (inboxes m)" "\<not> in_use (inboxes m ! i)"
    using False position_SomeD [OF i] by (auto simp: find_inbox_def)
  have "has_inbox m q \<Longrightarrow> has_inbox ?m q" for q
  proof (cases "q = p")
    case True
    have "\<exists>k. position (\<lambda>b. in_use b \<and> pid b = p) ((inboxes m)[i := ?b]) = Some k"
      using i' by (intro position_exists [of ?b]) (auto intro: set_update_memI)
    with True False show ?thesis by (auto simp: find_inbox_def)
  next
    case ne: False
    have "?b \<noteq> ?b \<or> \<not> (in_use ?b \<and> pid ?b = q)" using ne by simp
    with ne i' show "has_inbox m q \<Longrightarrow> has_inbox ?m q"
      by (auto simp: find_inbox_def position_update_same)
  qed
  then have "services_ok (has_inbox ?m) (services m)"
    using assms unfolding msg_inv_def services_ok_def by (auto simp: list_all_iff)
  moreover have "uniq pid in_use ((inboxes m)[i := ?b])"
    using assms none by (intro uniq_update) (auto simp: msg_inv_def position_None)
  moreover have "inbox_ok ?b" using False by (intro inbox_ok_fresh) auto
  ultimately have "msg_inv ?m"
    using assms by (simp add: msg_inv_def list_all_update)
  with False i show ?thesis by (simp add: msg_open_def)
qed

lemma drop_process_inv:
  assumes "msg_inv m"
  shows "msg_inv (drop_process p m)"
proof -
  let ?f = "\<lambda>b. if in_use b \<and> pid b = p then EMPTY_INBOX
      else if in_use b then b\<lparr>allow := map (\<lambda>a. if a = p then 0 else a) (allow b)\<rparr> else b"
  let ?g = "\<lambda>s. if owns p s then EMPTY_SERVICE else s"
  have m': "drop_process p m = m\<lparr>services := map ?g (services m), inboxes := map ?f (inboxes m)\<rparr>"
    by (simp add: drop_process_def owns_def)
  have f: "in_use (?f b) \<longleftrightarrow> in_use b \<and> pid b \<noteq> p" "in_use (?f b) \<Longrightarrow> pid (?f b) = pid b" for b
    by (auto simp: EMPTY_INBOX_def)
  have pos: "in_use (?f b) \<and> pid (?f b) = q \<longleftrightarrow> in_use b \<and> pid b = q \<and> q \<noteq> p" for b q
    using f [of b] by auto
  have keep: "q \<noteq> p \<Longrightarrow> find_inbox (drop_process p m) q = find_inbox m q" for q
    by (simp add: m' find_inbox_def position_map pos)
  have fok: "inbox_ok (?f b)" if "inbox_ok b" for b
    using that inbox_ok_empty by (auto simp: inbox_ok_def intro!: allow_ok_clear)
  have "list_all inbox_ok (inboxes m)" using assms by (simp add: msg_inv_def)
  then have "list_all inbox_ok (map ?f (inboxes m))"
    unfolding list.pred_map comp_def by (rule list.pred_mono_strong) (rule fok)
  moreover have "uniq pid in_use (map ?f (inboxes m))"
    using assms f by (intro uniq_map) (auto simp: msg_inv_def)
  moreover have "services_ok (has_inbox (drop_process p m)) (map ?g (services m))"
    unfolding services_ok_def
  proof (intro conjI allI)
    have ok: "services_ok (has_inbox m) (services m)" using assms by (simp add: msg_inv_def)
    then show "length (map ?g (services m)) = MAX_SERVICES" by (simp add: services_ok_def)
    show "list_all (\<lambda>s. svc_in_use s \<longrightarrow> valid_name (svc_name s) \<and> has_inbox (drop_process p m) (svc_pid s)) (map ?g (services m))"
      using ok keep by (auto simp: services_ok_def list_all_iff owns_def EMPTY_SERVICE_def)
    show "uniq svc_name svc_in_use (map ?g (services m))"
      using ok by (intro uniq_map) (auto simp: services_ok_def EMPTY_SERVICE_def split: if_splits)
    fix q
    have "count_if (owns q) (map ?g (services m)) \<le> count_if (owns q) (services m)"
      unfolding count_if_map by (rule count_if_mono) (auto simp: owns_def EMPTY_SERVICE_def split: if_splits)
    also have "\<dots> \<le> 4" using ok by (simp add: services_ok_def)
    finally show "count_if (owns q) (map ?g (services m)) \<le> 4" .
  qed
  ultimately show ?thesis using assms by (simp add: msg_inv_def m')
qed

lemma send_dest_inv:
  assumes "msg_inv m" and "send_dest h dst m = (r, m1)"
  shows "msg_inv m1" and "inboxes m1 = inboxes m"
proof -
  have ok: "services_ok (has_inbox m) (services m)" using assms(1) by (simp add: msg_inv_def)
  have "msg_inv (m\<lparr>services := (services m)[si := EMPTY_SERVICE]\<rparr>)" if "find_service m n = Some si" for n si
    using that by (intro msg_inv_services [OF assms(1)] services_ok_clear [OF ok]) (auto simp: find_service_def dest: position_SomeD)
  with assms show "msg_inv m1" and "inboxes m1 = inboxes m"
    by (auto simp: send_dest_def Let_def split: dest.splits if_splits option.splits)
qed

lemma send_policy_cases:
  "send_policy h from uid to ib = (Ok (), ib) \<or> send_policy h from uid to ib = (Err ESRCH, ib)
   \<or> send_policy h from uid to ib = (Err EACCES, ib\<lparr>refused := refused ib + 1\<rparr>)"
  by (auto simp: send_policy_def split: option.splits)

text \<open>What a send does to the state: a stale name goes, or one inbox counts a refusal, or it queues.\<close>

lemma msg_send_cases:
  assumes "msg_inv m" and "msg_send h from uid dst ty tg flags dat m = (r, m')"
  obtains (none) e m1 where "r = Err e" "m' = m1" "msg_inv m1" "inboxes m1 = inboxes m"
    | (refuse) e m1 to ii where "r = Err e" "msg_inv m1" "inboxes m1 = inboxes m" "find_inbox m1 to = Some ii"
        "m' = m1\<lparr>inboxes := (inboxes m)[ii := (inboxes m ! ii)\<lparr>refused := refused (inboxes m ! ii) + 1\<rparr>]\<rparr>"
    | (queue) m1 to ii f where "r = Ok ()" "msg_inv m1" "inboxes m1 = inboxes m" "find_inbox m1 to = Some ii"
        "send_dest h dst m = (Ok to, m1)" "ty \<noteq> 0" "length dat \<le> MAX_PAYLOAD"
        "send_policy h from uid to (inboxes m ! ii) = (Ok (), inboxes m ! ii)"
        "f < length (slots (inboxes m ! ii))" "\<not> used (slots (inboxes m ! ii) ! f)" "share from (inboxes m ! ii) < 8"
        "m' = m1\<lparr>inboxes := (inboxes m)[ii := (inboxes m ! ii)\<lparr>slots := (slots (inboxes m ! ii))
            [f := new_slot from uid ty tg (ticks h) dat (next_seq (inboxes m ! ii)) (slots (inboxes m ! ii) ! f)],
          next_seq := next_seq (inboxes m ! ii) + 1, count := count (inboxes m ! ii) + 1\<rparr>]\<rparr>"
proof -
  obtain d m1 where d: "send_dest h dst m = (d, m1)" by force
  note inv = send_dest_inv [OF assms(1) d]
  show thesis
  proof (cases "flags \<noteq> 0 \<or> ty = 0 \<or> length dat > MAX_PAYLOAD")
    case True
    with assms(2) have "m' = m \<and> is_err r" by (auto simp: msg_send_def split: if_splits)
    with assms(1) show ?thesis by (cases r) (auto intro: none)
  next
    case arg: False
    show ?thesis
    proof (cases "\<exists>to ii. d = Ok to \<and> pid_is_live h to \<and> find_inbox m1 to = Some ii")
      case False
      with arg d assms(2) have "m' = m1 \<and> is_err r"
        by (auto simp: msg_send_def split: result.splits if_splits option.splits)
      then show ?thesis using inv by (cases r) (auto intro: none)
    next
      case True
      then obtain to ii where to: "d = Ok to" "pid_is_live h to" "find_inbox m1 to = Some ii" by blast
      let ?b = "inboxes m ! ii"
      have b: "inbox_ok ?b" using inv find_inboxD(2) [OF to(3)] inbox_ok_nth by metis
      have same: "(inboxes m)[ii := ?b] = inboxes m" by simp
      show ?thesis
        using send_policy_cases [of h "from" uid to ?b]
      proof (elim disjE)
        assume p: "send_policy h from uid to ?b = (Ok (), ?b)"
        show ?thesis
          using b
        proof (cases rule: send_enqueue_cases [of _ "from" uid ty tg "ticks h" dat])
          case full
          then show ?thesis
            using arg d to p inv assms(2) by (intro refuse [of EAGAIN m1 to ii]) (auto simp: msg_send_def)
        next
          case (room f)
          then show ?thesis
            using arg d to p inv assms(2) by (intro queue [of m1 to ii f]) (auto simp: msg_send_def)
        qed
      next
        assume "send_policy h from uid to ?b = (Err ESRCH, ?b)"
        then show ?thesis
          using arg d to inv assms(2) same by (intro none [of ESRCH m1]) (auto simp: msg_send_def)
      next
        assume "send_policy h from uid to ?b = (Err EACCES, ?b\<lparr>refused := refused ?b + 1\<rparr>)"
        then show ?thesis
          using arg d to inv assms(2) by (intro refuse [of EACCES m1 to ii]) (auto simp: msg_send_def)
      qed
    qed
  qed
qed

lemma msg_send_inv:
  assumes "msg_inv m" and "0 < from" and "seq_bound k m" and "k + 1 < 2 ^ 64"
    and "msg_send h from uid dst ty tg flags dat m = (r, m')"
  shows "msg_inv m' \<and> seq_bound (Suc k) m'"
  using assms(1,5)
proof (cases rule: msg_send_cases)
  case (none e m1)
  with assms(3) show ?thesis by (auto simp: seq_bound_def list_all_iff le_SucI)
next
  case (refuse e m1 to ii)
  have ii: "ii < length (inboxes m1)" using refuse(4) by (rule find_inboxD)
  have "msg_inv (m1\<lparr>inboxes := (inboxes m1)[ii := (inboxes m1 ! ii)\<lparr>refused := refused (inboxes m1 ! ii) + 1\<rparr>]\<rparr>)"
    using ii by (intro msg_inv_update [OF refuse(2)] inbox_ok_refused inbox_ok_nth [OF refuse(2)]) simp_all
  moreover have sb: "list_all (\<lambda>b. unat (next_seq b) \<le> Suc k) (inboxes m)"
    using assms(3) by (auto simp: seq_bound_def list_all_iff le_SucI)
  moreover from sb have "unat (next_seq (inboxes m ! ii)) \<le> Suc k"
    using ii refuse(3) by (simp add: list_all_length)
  ultimately show ?thesis
    using refuse(3) by (simp add: refuse(5) seq_bound_def list_all_update)
next
  case (queue m1 to ii f)
  let ?b = "inboxes m ! ii"
  have ii: "ii < length (inboxes m1)" "in_use (inboxes m1 ! ii)" using queue(4) by (auto dest: find_inboxD)
  have nb: "unat (next_seq ?b) \<le> k" using assms(3) ii queue(3) by (simp add: seq_bound_def list_all_length)
  have b: "inbox_ok ?b" using inbox_ok_nth [OF queue(2) ii(1)] queue(3) by simp
  let ?b' = "?b\<lparr>slots := (slots ?b)[f := new_slot from uid ty tg (ticks h) dat (next_seq ?b) (slots ?b ! f)],
      next_seq := next_seq ?b + 1, count := count ?b + 1\<rparr>"
  have ok: "inbox_ok ?b'"
    using queue ii assms nb by (intro enqueue_inbox_ok b) auto
  have "msg_inv (m1\<lparr>inboxes := (inboxes m1)[ii := ?b']\<rparr>)"
    using ii queue(3) by (intro msg_inv_update [OF queue(2) _ ok]) simp_all
  moreover have "unat (next_seq ?b + 1) \<le> Suc k"
    using nb assms(4) by (simp add: unat_word_ariths)
  moreover have "list_all (\<lambda>b. unat (next_seq b) \<le> Suc k) (inboxes m)"
    using assms(3) by (auto simp: seq_bound_def list_all_iff le_SucI)
  ultimately show ?thesis
    using queue(3) by (simp add: queue(12) seq_bound_def list_all_update)
qed

text \<open>What a receive does: it fails, or shows the oldest match, or takes it out.\<close>

lemma msg_recv_cases:
  assumes "msg_recv p flags ms mt mg out info m = ((r, out', info'), m')"
  obtains (none) "m' = m" "out' = out" "info' = info" "r = Err EINVAL \<or> r = Err EBADF \<or> r = Err EAGAIN"
      "r = Err EAGAIN \<Longrightarrow> \<exists>ii. find_inbox m p = Some ii \<and> (\<forall>s \<in> set (slots (inboxes m ! ii)). \<not> recv_match flags ms mt mg s)"
      "r \<noteq> Err EAGAIN \<Longrightarrow> flags AND NOT (RECV_PEEK OR RECV_MATCH_TAG) \<noteq> 0 \<or> find_inbox m p = None"
    | (found) ii bi where "find_inbox m p = Some ii" "bi < length (slots (inboxes m ! ii))"
        "recv_match flags ms mt mg (slots (inboxes m ! ii) ! bi)"
        "\<forall>s \<in> set (slots (inboxes m ! ii)). recv_match flags ms mt mg s \<longrightarrow> seq (slots (inboxes m ! ii) ! bi) \<le> seq s"
        "ri_sender info' = sender (slots (inboxes m ! ii) ! bi)" "ri_sender_uid info' = sender_uid (slots (inboxes m ! ii) ! bi)"
        "ri_mtype info' = mtype (slots (inboxes m ! ii) ! bi)" "ri_tag info' = tag (slots (inboxes m ! ii) ! bi)"
        "ri_tick info' = tick (slots (inboxes m ! ii) ! bi)" "ri_len info' = len (slots (inboxes m ! ii) ! bi)"
        "if unat (len (slots (inboxes m ! ii) ! bi)) > length out then r = Err E2BIG \<and> out' = out \<and> m' = m
         else r = Ok () \<and> out' = copy_prefix (take (unat (len (slots (inboxes m ! ii) ! bi))) (data (slots (inboxes m ! ii) ! bi))) out
          \<and> m' = (if flags AND RECV_PEEK = 0
                 then m\<lparr>inboxes := (inboxes m)[ii := (inboxes m ! ii)\<lparr>slots := (slots (inboxes m ! ii))
                          [bi := (slots (inboxes m ! ii) ! bi)\<lparr>used := False\<rparr>],
                        count := count (inboxes m ! ii) - 1, delivered := delivered (inboxes m ! ii) + 1\<rparr>]\<rparr>
                 else m)"
proof -
  show thesis
  proof (cases "flags AND NOT (RECV_PEEK OR RECV_MATCH_TAG) \<noteq> 0 \<or> find_inbox m p = None")
    case True
    with assms show ?thesis by (intro none) (auto simp: msg_recv_def split: if_splits)
  next
    case False
    then obtain ii where ii: "find_inbox m p = Some ii" by auto
    let ?ss = "slots (inboxes m ! ii)" and ?P = "recv_match flags ms mt mg"
    have best: "best_ok ?P ?ss (length ?ss) (best_scan ?P ?ss 0 ?ss None)" by (rule best_scan_spec)
    show ?thesis
    proof (cases "best_scan ?P ?ss 0 ?ss None")
      case None
      with best have "\<forall>s \<in> set ?ss. \<not> ?P s" by (simp add: best_ok_def all_set_conv_all_nth)
      with None False ii assms show ?thesis by (intro none) (auto simp: msg_recv_def)
    next
      case (Some bi)
      with best have "bi < length ?ss" "?P (?ss ! bi)" "\<forall>s \<in> set ?ss. ?P s \<longrightarrow> seq (?ss ! bi) \<le> seq s"
        by (simp_all add: best_ok_def all_set_conv_all_nth)
      with Some False ii assms show ?thesis
        by (intro found [of ii bi]) (auto simp: msg_recv_def Let_def split: if_splits)
    qed
  qed
qed

lemma msg_recv_inv:
  assumes "msg_inv m" and "seq_bound k m" and "msg_recv p flags ms mt mg out info m = ((r, out', info'), m')"
  shows "msg_inv m' \<and> seq_bound k m'"
  using assms(3)
proof (cases rule: msg_recv_cases)
  case none
  with assms show ?thesis by simp
next
  case (found ii bi)
  let ?b = "inboxes m ! ii"
  let ?b' = "?b\<lparr>slots := (slots ?b)[bi := (slots ?b ! bi)\<lparr>used := False\<rparr>], count := count ?b - 1, delivered := delivered ?b + 1\<rparr>"
  have ii: "ii < length (inboxes m)" "in_use ?b" using found(1) by (auto dest: find_inboxD)
  have "used (slots ?b ! bi)" using found(3) by (simp add: recv_match_def)
  then have "inbox_ok ?b'"
    using found(2) ii by (intro dequeue_inbox_ok inbox_ok_nth [OF assms(1)]) simp_all
  then have "msg_inv (m\<lparr>inboxes := (inboxes m)[ii := ?b']\<rparr>)"
    using ii by (intro msg_inv_update [OF assms(1)]) simp_all
  moreover have "unat (next_seq ?b) \<le> k" using assms(2) ii by (simp add: seq_bound_def list_all_length)
  then have "seq_bound k (m\<lparr>inboxes := (inboxes m)[ii := ?b']\<rparr>)"
    using assms(2) by (simp add: seq_bound_def list_all_update)
  moreover have "m' = m \<or> m' = m\<lparr>inboxes := (inboxes m)[ii := ?b']\<rparr>"
    using found(11) by (auto split: if_splits)
  ultimately show ?thesis using assms by auto
qed

lemma find_serviceD:
  assumes "find_service m n = Some i"
  shows "i < length (services m)" and "svc_in_use (services m ! i)" and "svc_name (services m ! i) = n"
  using assms position_SomeD [of "\<lambda>s. svc_in_use s \<and> svc_name s = n" "services m" i] by (auto simp: find_service_def)

lemma services_ok_msg: "msg_inv m \<Longrightarrow> services_ok (has_inbox m) (services m)"
  by (simp add: msg_inv_def)

lemma svc_name_new:
  "length n \<le> NAME_MAX \<Longrightarrow> svc_name \<lparr>svc_in_use = True, svc_pid = p, name_len = of_nat (length n),
     name = copy_prefix n (replicate 32 0)\<rparr> = n"
  by (simp add: svc_name_def kconst unat_of_nat)

lemma service_register_inv:
  assumes inv: "msg_inv m" and n: "valid_name n"
  shows "msg_inv (snd (service_register h p n m))"
proof (cases "snd (service_register h p n m) = m")
  case True
  with inv show ?thesis by simp
next
  case False
  note ok = services_ok_msg [OF inv]
  from False have inbox: "has_inbox m p" and few: "count_if (owns p) (services m) < 4"
    using ok by (auto simp: service_register_def names_of_less [OF ok] services_ok_def Let_def nat_less_le
        split: option.splits if_splits)
  show ?thesis
  proof (cases "find_service m n")
    case None
    then obtain f where f: "position (\<lambda>s. \<not> svc_in_use s) (services m) = Some f"
      using False by (auto simp: service_register_def split: option.splits if_splits)
    let ?s = "\<lparr>svc_in_use = True, svc_pid = p, name_len = of_nat (length n), name = copy_prefix n (replicate 32 0)\<rparr>"
    have nm: "svc_name ?s = n" using n by (intro svc_name_new) (simp add: valid_name_def)
    have "services_ok (has_inbox m) ((services m)[f := ?s])"
      using position_SomeD(1) [OF f] few inbox n None nm
      by (intro services_ok_grant [OF ok, of _ p]) (auto simp: find_service_def position_None)
    with None f False inbox inv show ?thesis
      by (auto simp: service_register_def intro: msg_inv_services split: if_splits)
  next
    case (Some si)
    let ?s = "(services m ! si)\<lparr>svc_pid := p\<rparr>"
    note si = find_serviceD [OF Some]
    have nm: "svc_name ?s = n" using si by (simp add: svc_name_def)
    have "services_ok (has_inbox m) ((services m)[si := ?s])"
      using si few inbox n nm ok
      by (intro services_ok_grant [OF ok, of _ p]) (auto simp: services_ok_def uniq_nth)
    with Some False inbox inv show ?thesis
      by (auto simp: service_register_def Let_def intro: msg_inv_services split: if_splits)
  qed
qed

lemma msg_service_inv:
  assumes "msg_inv m"
  shows "msg_inv (snd (msg_service h p op n m))"
proof -
  have "msg_inv (m\<lparr>services := (services m)[si := EMPTY_SERVICE]\<rparr>)" if "find_service m n = Some si" for si
    using find_serviceD(1) [OF that]
    by (intro msg_inv_services [OF assms] services_ok_clear [OF services_ok_msg [OF assms]])
  with assms show ?thesis
    by (auto simp: msg_service_def Let_def service_register_inv split: option.splits)
qed

lemma msg_allow_inv:
  assumes "msg_inv m"
  shows "msg_inv (snd (msg_allow p t add m))"
proof -
  have upd: "msg_inv (m\<lparr>inboxes := (inboxes m)[ii := (inboxes m ! ii)\<lparr>allow := l\<rparr>]\<rparr>)"
    if "find_inbox m p = Some ii" "allow_ok l" for ii l
    using find_inboxD(2) [OF that(1)] that(2)
    by (intro msg_inv_update [OF assms] inbox_ok_allow inbox_ok_nth [OF assms]) simp_all
  have ok: "allow_ok (allow (inboxes m ! ii))" if "find_inbox m p = Some ii" for ii
    using inbox_ok_nth [OF assms find_inboxD(2) [OF that]] by (simp add: inbox_ok_def)
  have add: "allow_ok (l[f := t])" if "allow_ok l" "\<not> list_ex (\<lambda>a. a = t) l" "\<not> t \<le> 0" for l f
    using that by (intro allow_ok_add) simp_all
  show ?thesis
    using assms upd ok by (auto simp: msg_allow_def Let_def intro: allow_ok_clear add split: option.splits)
qed

lemma msg_set_policy_inv:
  assumes "msg_inv m"
  shows "msg_inv (snd (msg_set_policy p pol m))"
proof -
  have "msg_inv (m\<lparr>inboxes := (inboxes m)[ii := (inboxes m ! ii)\<lparr>policy := pol\<rparr>]\<rparr>)"
    if "find_inbox m p = Some ii" "\<not> pol > ACCEPT_ALLOWLIST" for ii
    using find_inboxD(2) [OF that(1)] that(2)
    by (intro msg_inv_update [OF assms] inbox_ok_policy inbox_ok_nth [OF assms]) simp_all
  with assms show ?thesis by (auto simp: msg_set_policy_def split: option.splits)
qed

text \<open>No operation but \<open>send\<close> moves an arrival counter, except back to zero with a fresh inbox.\<close>

lemma seq_bound_mono: "seq_bound k m \<Longrightarrow> seq_bound (Suc k) m"
  by (auto simp: seq_bound_def list_all_iff le_SucI)

lemma seq_bound_update:
  "seq_bound k m \<Longrightarrow> unat (next_seq b) \<le> k \<Longrightarrow> seq_bound k (m\<lparr>inboxes := (inboxes m)[i := b]\<rparr>)"
  by (simp add: seq_bound_def list_all_update)

lemma seq_bound_nth: "seq_bound k m \<Longrightarrow> i < length (inboxes m) \<Longrightarrow> unat (next_seq (inboxes m ! i)) \<le> k"
  by (simp add: seq_bound_def list_all_length)

lemma seq_bound_services: "seq_bound k (m\<lparr>services := sv\<rparr>) = seq_bound k m"
  by (simp add: seq_bound_def)

lemma msg_open_seq: "seq_bound k m \<Longrightarrow> seq_bound k (snd (msg_open p pol flags m))"
  by (auto simp: msg_open_def EMPTY_INBOX_def intro!: seq_bound_update split: option.splits)

lemma drop_process_seq: "seq_bound k m \<Longrightarrow> seq_bound k (drop_process p m)"
  by (auto simp: seq_bound_def drop_process_def EMPTY_INBOX_def list_all_iff)

lemma msg_service_seq: "seq_bound k m \<Longrightarrow> seq_bound k (snd (msg_service h p op n m))"
  by (auto simp: msg_service_def service_register_def Let_def seq_bound_services split: option.splits)

lemma msg_allow_seq: "seq_bound k m \<Longrightarrow> seq_bound k (snd (msg_allow p t add m))"
  by (auto simp: msg_allow_def Let_def intro!: seq_bound_update seq_bound_nth dest: find_inboxD split: option.splits)

lemma msg_set_policy_seq: "seq_bound k m \<Longrightarrow> seq_bound k (snd (msg_set_policy p pol m))"
  by (auto simp: msg_set_policy_def intro!: seq_bound_update seq_bound_nth dest: find_inboxD split: option.splits)

lemma msg_step_inv:
  assumes "msg_inv m" and "seq_bound k m" and "k + 1 < 2 ^ 64" and "msg_op_ok op"
  shows "msg_inv (msg_step op m) \<and> seq_bound (Suc k) (msg_step op m)"
proof (cases op)
  case (MOpen p pol flags)
  then show ?thesis
    using msg_open_inv [OF assms(1), of p pol flags] msg_open_seq [OF assms(2), of p pol flags]
    by (auto simp: rust_msg_open_def intro: seq_bound_mono split: prod.splits result.splits)
next
  case (MClose p)
  then show ?thesis
    using assms(1,2) by (simp add: rust_msg_close_def msg_close_def drop_process_inv drop_process_seq seq_bound_mono)
next
  case (MSend h src uid d n ty tg flags dat)
  then have pos: "0 < src" using assms(4) by simp
  show ?thesis
    using msg_send_inv [OF assms(1) pos assms(2,3)] assms(1,2)
    by (auto simp: MSend rust_msg_send_def Let_def seq_bound_mono split: prod.splits)
next
  case (MRecv p flags ms mt mg buf)
  then show ?thesis
    using msg_recv_inv [OF assms(1,2)]
    by (auto simp: rust_msg_recv_def Let_def seq_bound_mono split: prod.splits)
next
  case (MService h p op n)
  then show ?thesis
    using msg_service_inv [OF assms(1), of h p op n] msg_service_seq [OF assms(2), of h p op n] assms(1,2)
    by (auto simp: rust_msg_service_def intro: seq_bound_mono split: prod.splits result.splits)
next
  case (MCtl h p op arg)
  then show ?thesis
    using msg_allow_inv [OF assms(1), of p "sint arg"] msg_allow_seq [OF assms(2), of p "sint arg"]
      msg_set_policy_inv [OF assms(1), of p arg] msg_set_policy_seq [OF assms(2), of p arg] assms(1,2)
    by (auto simp: rust_msg_ctl_def intro: seq_bound_mono split: prod.splits result.splits) (metis snd_conv seq_bound_mono)+
next
  case (MExit p)
  then show ?thesis
    using assms(1,2) by (simp add: rust_msg_process_exit_def process_exit_def drop_process_inv drop_process_seq seq_bound_mono)
qed

text \<open>The invariant is what the module's own check looks for.\<close>

lemma check_allow_ok: "list_all (\<lambda>a. 0 \<le> a) l \<Longrightarrow> uniq (\<lambda>a. a) (\<lambda>a. a \<noteq> 0) l \<Longrightarrow> check_allow l = None"
  by (induction l) (auto simp: list_ex_iff)

lemma check_slots_ok: "list_all (slot_ok n) ss \<Longrightarrow> uniq seq used ss \<Longrightarrow> check_slots n ss = None"
  by (induction ss) (auto simp: list_ex_iff slot_ok_def)

lemma check_inbox_ok:
  assumes "msg_inv m" and "i < length (inboxes m)"
  shows "check_inbox m i = None"
proof -
  let ?b = "inboxes m ! i"
  have b: "inbox_ok ?b" using assms by (rule inbox_ok_nth)
  then have "unat (count ?b) = count_if used (slots ?b)" by (simp add: inbox_ok_def)
  moreover have "count ?b = of_nat (unat (count ?b))" by simp
  ultimately have cnt: "count ?b = of_nat (count_if used (slots ?b))" by (simp only:)
  have sh: "check_share (slots ?b) p = None" for p
  proof -
    have "share p ?b \<le> 8" using b by (simp add: inbox_ok_def)
    then show ?thesis by (simp add: check_share_def kconst word_less_nat_alt unat_of_nat)
  qed
  have other: "\<not> list_ex (\<lambda>j. j \<noteq> i \<and> in_use (inboxes m ! j) \<and> pid (inboxes m ! j) = pid ?b) [0..<length (inboxes m)]" if "in_use ?b"
    using assms that by (auto simp: list_ex_iff msg_inv_def uniq_nth)
  show ?thesis
  proof (cases "in_use ?b")
    case True
    with b other cnt show ?thesis
      by (simp add: check_inbox_def Let_def inbox_ok_def allow_ok_def check_allow_ok check_slots_ok first_err_None sh not_less)
  next
    case False
    with b cnt show ?thesis by (simp add: check_inbox_def inbox_ok_def)
  qed
qed

lemma check_service_ok:
  assumes "msg_inv m" and "i < length (services m)"
  shows "check_service m i = None"
proof -
  let ?s = "services m ! i"
  note ok = services_ok_msg [OF assms(1)]
  have "\<not> list_ex (\<lambda>t. svc_in_use t \<and> name_len t = name_len ?s \<and> svc_name t = svc_name ?s) (drop (i + 1) (services m))"
    if "svc_in_use ?s"
  proof
    assume "list_ex (\<lambda>t. svc_in_use t \<and> name_len t = name_len ?s \<and> svc_name t = svc_name ?s) (drop (i + 1) (services m))"
    then obtain k where "k < length (drop (i + 1) (services m))" "svc_in_use (drop (i + 1) (services m) ! k)"
      "svc_name (drop (i + 1) (services m) ! k) = svc_name ?s"
      by (auto simp: list_ex_length)
    then have "i + 1 + k < length (services m)" "svc_in_use (services m ! (i + 1 + k))" "svc_name (services m ! (i + 1 + k)) = svc_name ?s"
      by auto
    then have "i + 1 + k = i" using ok that assms(2) by (auto simp: services_ok_def uniq_nth)
    then show False by simp
  qed
  then show ?thesis
    using ok names_of_less(2) [OF ok] assms(2) by (auto simp: check_service_def Let_def services_ok_def list_all_length)
qed

lemma check_counts_ok: "msg_inv m \<Longrightarrow> check_counts m = Ok ()"
proof -
  assume inv: "msg_inv m"
  have "first_err (check_inbox m) [0..<length (inboxes m)] = None"
    unfolding first_err_None using check_inbox_ok [OF inv] by simp
  moreover have "first_err (check_service m) [0..<length (services m)] = None"
    unfolding first_err_None using check_service_ok [OF inv] by simp
  ultimately show ?thesis by (simp add: check_counts_def)
qed

lemma msg_inv_new: "msg_inv msg_new \<and> seq_bound 0 msg_new"
proof -
  have "services_ok F (replicate MAX_SERVICES EMPTY_SERVICE)" for F
    by (simp add: services_ok_def list_all_iff EMPTY_SERVICE_def uniq_none count_if_replicate owns_def)
  moreover have "uniq pid in_use (replicate MAX_INBOXES EMPTY_INBOX)"
    by (rule uniq_none) (simp add: EMPTY_INBOX_def)
  ultimately show ?thesis
    using inbox_ok_empty by (simp add: msg_inv_def msg_new_def list_all_iff seq_bound_def EMPTY_INBOX_def [THEN arg_cong, of next_seq])
qed

text \<open>The module as a machine that counts its calls.\<close>

definition msg_tick :: "msg_op \<Rightarrow> nat \<times> msg \<Rightarrow> nat \<times> msg" where
  "msg_tick op km = (Suc (fst km), msg_step op (snd km))"

definition msg_tick_inv :: "nat \<times> msg \<Rightarrow> bool" where
  "msg_tick_inv km \<longleftrightarrow> (fst km < 2 ^ 64 \<longrightarrow> msg_inv (snd km) \<and> seq_bound (fst km) (snd km))"

interpretation mm: invariant_machine msg_op_ok msg_tick "(0, msg_new)" msg_tick_inv
proof
  show "msg_tick_inv (0, msg_new)" using msg_inv_new by (simp add: msg_tick_inv_def)
  fix km op
  assume "msg_tick_inv km" and "msg_op_ok op"
  then show "msg_tick_inv (msg_tick op km)"
    using msg_step_inv [of "snd km" "fst km" op] by (auto simp: msg_tick_inv_def msg_tick_def)
qed

lemma msg_run_inv:
  assumes "list_all msg_op_ok ops" and "length ops < 2 ^ 64"
  shows "msg_inv (fold msg_step ops msg_new)"
proof -
  have "fold msg_tick ops (k, m) = (k + length ops, fold msg_step ops m)" for k m
    by (induction ops arbitrary: k m) (simp_all add: msg_tick_def)
  with mm.run_inv [OF assms(1)] assms(2) show ?thesis by (simp add: msg_tick_inv_def)
qed

section \<open>Inboxes as queues\<close>

text \<open>
  What an inbox promises: a queue of messages in order of arrival, each with the sender and the user
  the kernel recorded.
\<close>

type_synonym message = "i32 \<times> u32 \<times> u32 \<times> u32 \<times> u32 \<times> bytes"

definition message_of :: "slot \<Rightarrow> message" where
  "message_of s = (sender s, sender_uid s, mtype s, tag s, tick s, take (unat (len s)) (data s))"

definition inbox_slots :: "inbox \<Rightarrow> slot list" where
  "inbox_slots b = sort_key seq (filter used (slots b))"

definition msg_queue :: "msg \<Rightarrow> i32 \<Rightarrow> message list option" where
  "msg_queue m p = map_option (\<lambda>i. map message_of (inbox_slots (inboxes m ! i))) (find_inbox m p)"

fun wanted :: "u32 \<Rightarrow> i32 \<Rightarrow> u32 \<Rightarrow> u32 \<Rightarrow> message \<Rightarrow> bool" where
  "wanted flags ms mt mg (snder, uid, ty, tg, tk, d) \<longleftrightarrow>
     (ms = 0 \<or> snder = ms) \<and> (mt = 0 \<or> ty = mt) \<and> (flags AND RECV_MATCH_TAG = 0 \<or> tg = mg)"

text \<open>The selective receive of the specification: the first wanted message and the queue without it.\<close>

definition take_first :: "('a \<Rightarrow> bool) \<Rightarrow> 'a list \<Rightarrow> ('a \<times> 'a list) option" where
  "take_first P q = map_option (\<lambda>i. (q ! i, take i q @ drop (Suc i) q)) (position P q)"

lemma recv_match_wanted: "recv_match flags ms mt mg s \<longleftrightarrow> used s \<and> wanted flags ms mt mg (message_of s)"
  by (auto simp: recv_match_def message_of_def)

lemma filter_key_single: "distinct (map f xs) \<Longrightarrow> k \<in> set xs \<Longrightarrow> filter (\<lambda>x. f k = f x) xs = [k]"
proof (induction xs)
  case Nil
  then show ?case by simp
next
  case (Cons x xs)
  show ?case
  proof (cases "f k = f x")
    case True
    with Cons.prems have "k = x" by (auto simp: image_iff)
    moreover have "filter (\<lambda>y. f x = f y) xs = []"
      using Cons.prems(1) by (auto simp: filter_empty_conv image_iff)
    ultimately show ?thesis by simp
  next
    case False
    with Cons show ?thesis by auto
  qed
qed

lemma sort_key_unique:
  assumes "mset ys = mset xs" and "sorted (map f ys)" and "distinct (map f xs)"
  shows "sort_key f xs = ys"
proof (rule properties_for_sort_key [OF assms(1) _ assms(2)])
  fix k
  assume k: "k \<in> set ys"
  have "mset (map f ys) = mset (map f xs)" using assms(1) by simp
  then have "distinct (map f ys)" using assms(3) by (metis mset_eq_imp_distinct_iff)
  moreover have "k \<in> set xs" using k assms(1) by (metis mset_eq_setD)
  ultimately show "filter (\<lambda>x. f k = f x) ys = filter (\<lambda>x. f k = f x) xs"
    using k assms(3) by (simp add: filter_key_single)
qed

lemma inbox_slots_facts:
  assumes "uniq seq used (slots b)"
  shows "set (inbox_slots b) = set (filter used (slots b))" and "sorted (map seq (inbox_slots b))"
    and "distinct (map seq (inbox_slots b))" and "mset (inbox_slots b) = mset (filter used (slots b))"
proof -
  show "set (inbox_slots b) = set (filter used (slots b))" "sorted (map seq (inbox_slots b))"
    and ms: "mset (inbox_slots b) = mset (filter used (slots b))"
    by (simp_all add: inbox_slots_def)
  then have "mset (map seq (inbox_slots b)) = mset (map seq (filter used (slots b)))" by simp
  then show "distinct (map seq (inbox_slots b))"
    using assms unfolding uniq_def by (metis mset_eq_imp_distinct_iff)
qed

text \<open>Queueing in any free slot adds at the end; emptying a slot takes its message out.\<close>

lemma mset_filter_update:
  assumes "i < length xs"
  shows "mset (filter P (xs[i := x])) = (if P x then {#x#} else {#}) + (mset (filter P xs) - (if P (xs ! i) then {#xs ! i#} else {#}))"
  using assms by (simp add: mset_update)

lemma inbox_slots_enqueue:
  assumes "uniq seq used (slots b)" and "f < length (slots b)" and "\<not> used (slots b ! f)" and "used s"
    and "\<forall>t \<in> set (slots b). used t \<longrightarrow> seq t < seq s"
  shows "inbox_slots (b\<lparr>slots := (slots b)[f := s], next_seq := n, count := c\<rparr>) = inbox_slots b @ [s]"
proof -
  note F = inbox_slots_facts [OF assms(1)]
  have "mset (inbox_slots b @ [s]) = mset (filter used ((slots b)[f := s]))"
    using assms(2-4) by (simp add: F(4) mset_filter_update del: mset_filter)
  moreover have "sorted (map seq (inbox_slots b @ [s]))"
    using F assms(5) by (auto simp: sorted_append less_imp_le)
  moreover have "uniq seq used ((slots b)[f := s])"
    using assms by (intro uniq_update) auto
  ultimately show ?thesis
    unfolding inbox_slots_def [of "b\<lparr>slots := _, next_seq := _, count := _\<rparr>"]
    by (intro sort_key_unique) (simp_all add: uniq_def)
qed

lemma inbox_slots_dequeue:
  assumes "uniq seq used (slots b)" and "f < length (slots b)" and "used (slots b ! f)"
    and "i < length (inbox_slots b)" and "inbox_slots b ! i = slots b ! f" and "\<not> used s"
  shows "inbox_slots (b\<lparr>slots := (slots b)[f := s], count := c, delivered := d\<rparr>)
       = take i (inbox_slots b) @ drop (Suc i) (inbox_slots b)"
proof -
  note F = inbox_slots_facts [OF assms(1)]
  let ?q = "inbox_slots b"
  have q: "?q = take i ?q @ ?q ! i # drop (Suc i) ?q" using assms(4) by (rule id_take_nth_drop)
  then have "mset ?q = add_mset (?q ! i) (mset (take i ?q @ drop (Suc i) ?q))"
    by (metis mset.simps(2) mset_append union_mset_add_mset_right)
  then have "mset (take i ?q @ drop (Suc i) ?q) = mset (filter used (slots b)) - {#slots b ! f#}"
    by (metis F(4) assms(5) add_mset_remove_trivial)
  also have "\<dots> = mset (filter used ((slots b)[f := s]))"
    using assms(2,3,6) by (simp add: mset_filter_update del: mset_filter)
  finally have ms: "mset (take i ?q @ drop (Suc i) ?q) = mset (filter used ((slots b)[f := s]))" .
  have "sorted (map seq (take i ?q) @ map seq (?q ! i # drop (Suc i) ?q))"
    using F(2) q by (metis map_append)
  then have "sorted (map seq (take i ?q @ drop (Suc i) ?q))"
    by (auto simp: sorted_append)
  moreover have "uniq seq used ((slots b)[f := s])"
    using assms(1,6) by (intro uniq_update) auto
  ultimately show ?thesis
    unfolding inbox_slots_def [of "b\<lparr>slots := _, count := _, delivered := _\<rparr>"]
    using ms by (intro sort_key_unique) (simp_all add: uniq_def)
qed

lemma oldest_position:
  assumes "uniq seq used (slots b)" and "f < length (slots b)" and "recv_match fl ms mt mg (slots b ! f)"
    and "\<forall>s \<in> set (slots b). recv_match fl ms mt mg s \<longrightarrow> seq (slots b ! f) \<le> seq s"
  obtains i where "i < length (inbox_slots b)" "inbox_slots b ! i = slots b ! f"
    "position (wanted fl ms mt mg) (map message_of (inbox_slots b)) = Some i"
proof -
  note F = inbox_slots_facts [OF assms(1)]
  have "slots b ! f \<in> set (inbox_slots b)"
    using assms(2,3) by (simp add: F(1) recv_match_def)
  then obtain i where i: "i < length (inbox_slots b)" "inbox_slots b ! i = slots b ! f"
    by (auto simp: in_set_conv_nth)
  have "\<not> wanted fl ms mt mg (message_of (inbox_slots b ! j))" if "j < i" for j
  proof
    assume w: "wanted fl ms mt mg (message_of (inbox_slots b ! j))"
    have j: "inbox_slots b ! j \<in> set (filter used (slots b))"
      using F(1) that i(1) by (metis nth_mem less_trans)
    with w assms(4) have "seq (slots b ! f) \<le> seq (inbox_slots b ! j)" by (auto simp: recv_match_wanted)
    moreover have "map seq (inbox_slots b) ! j \<le> map seq (inbox_slots b) ! i"
      using F(2) that i(1) by (intro sorted_nth_mono) simp_all
    ultimately have "map seq (inbox_slots b) ! j = map seq (inbox_slots b) ! i"
      using i that by simp
    with nth_eq_iff_index_eq [OF F(3), of j i] i(1) that show False by simp
  qed
  then have "position (wanted fl ms mt mg) (map message_of (inbox_slots b)) = Some i"
    using i assms(3) by (simp add: position_Some recv_match_wanted)
  with i show thesis by (rule that)
qed

lemma msg_queue_cong: "inboxes m' = inboxes m \<Longrightarrow> msg_queue m' = msg_queue m"
  by (simp add: msg_queue_def fun_eq_iff find_inbox_cong [of m' m])

lemma msg_queue_update:
  assumes "msg_inv m" and "find_inbox m p = Some ii" and "in_use b = in_use (inboxes m ! ii)" and "pid b = pid (inboxes m ! ii)"
  shows "msg_queue (m\<lparr>inboxes := (inboxes m)[ii := b]\<rparr>) = (msg_queue m)(p \<mapsto> map message_of (inbox_slots b))"
proof
  fix q
  have "j \<noteq> ii" if "find_inbox m q = Some j" "q \<noteq> p" for j
    using that find_inboxD [OF that(1)] find_inboxD [OF assms(2)] by auto
  then show "msg_queue (m\<lparr>inboxes := (inboxes m)[ii := b]\<rparr>) q = ((msg_queue m)(p \<mapsto> map message_of (inbox_slots b))) q"
    using assms(2) find_inboxD(2) [OF assms(2)]
    by (cases "find_inbox m q") (auto simp: msg_queue_def find_inbox_update [OF assms(3,4)])
qed

lemma msg_queue_refused:
  assumes "msg_inv m" and "find_inbox m p = Some ii"
  shows "msg_queue (m\<lparr>inboxes := (inboxes m)[ii := (inboxes m ! ii)\<lparr>refused := r\<rparr>]\<rparr>) = msg_queue m"
proof -
  have "inbox_slots ((inboxes m ! ii)\<lparr>refused := r\<rparr>) = inbox_slots (inboxes m ! ii)"
    by (simp add: inbox_slots_def)
  then show ?thesis
    using msg_queue_update [OF assms, of "(inboxes m ! ii)\<lparr>refused := r\<rparr>"] assms(2)
    by (simp add: msg_queue_def fun_eq_iff)
qed

lemma message_of_new:
  "length dat \<le> MAX_PAYLOAD \<Longrightarrow> message_of (new_slot src uid ty tg now dat n s) = (src, uid, ty, tg, now, dat)"
  by (simp add: message_of_def new_slot_def unat_of_nat kconst)

lemma length_inbox_slots: "length (inbox_slots b) = count_if used (slots b)"
  by (simp add: inbox_slots_def count_if_def)

lemma share_queue: "count_if (\<lambda>s. used s \<and> sender s = p) (slots b) = length (filter (\<lambda>x. fst x = p) (map message_of (inbox_slots b)))"
proof -
  have "mset (filter (\<lambda>s. sender s = p) (inbox_slots b)) = mset (filter (\<lambda>s. used s \<and> sender s = p) (slots b))"
    by (simp add: inbox_slots_def filter_filter_mset)
  then have "length (filter (\<lambda>s. sender s = p) (inbox_slots b)) = count_if (\<lambda>s. used s \<and> sender s = p) (slots b)"
    unfolding count_if_def by (metis size_mset)
  then show ?thesis by (simp add: filter_map comp_def message_of_def)
qed

text \<open>Who the receiver's policy lets in.\<close>

definition admits :: "hal \<Rightarrow> i32 \<Rightarrow> u32 \<Rightarrow> inbox \<Rightarrow> bool" where
  "admits h src uid b \<longleftrightarrow>
     (policy b = ACCEPT_SAME_UID \<longrightarrow> (\<exists>ru. uid_of h (pid b) = Some ru \<and> (uid = ru \<or> uid = 0)))
   \<and> (policy b = ACCEPT_ALLOWLIST \<longrightarrow> src \<in> set (allow b))"

lemma send_policy_admits:
  "send_policy h src uid (pid b) b = (Ok (), b') \<Longrightarrow> admits h src uid b"
  by (auto simp: send_policy_def admits_def list_ex_iff split: option.splits if_splits)

lemma send_dest_Ok:
  assumes "send_dest h dst m = (Ok to, m1)"
  shows "case dst of Pid p \<Rightarrow> to = p
     | Name n \<Rightarrow> pid_is_live h to \<and> (\<exists>s \<in> set (services m). svc_in_use s \<and> svc_name s = n \<and> svc_pid s = to)"
proof (cases dst)
  case (Pid p)
  with assms show ?thesis by (auto simp: send_dest_def split: if_splits)
next
  case (Name n)
  with assms obtain si where si: "find_service m n = Some si" "svc_pid (services m ! si) = to" "pid_is_live h to"
    by (auto simp: send_dest_def Let_def split: if_splits option.splits)
  have "services m ! si \<in> set (services m)" using find_serviceD(1) [OF si(1)] by simp
  with find_serviceD [OF si(1)] si Name show ?thesis by auto
qed

lemma msg_send_errors:
  assumes "msg_send h src uid dst ty tg flags dat m = (Err e, m')"
  shows "0 < e"
proof -
  have d: "0 < e" if "send_dest h dst m = (Err e, m1)" for e m1
    using that by (auto simp: send_dest_def Let_def split: dest.splits if_splits option.splits)
  have p: "0 < e" if "send_policy h src uid to ib = (Err e, ib')" for e to ib ib'
    using that send_policy_cases [of h src uid to ib] by auto
  have q: "0 < e" if "send_enqueue src uid ty tg now dat ib = (Err e, ib')" for e now ib ib'
    using that by (auto simp: send_enqueue_def Let_def split: prod.splits option.splits if_splits)
  show ?thesis
    using assms d p q
    by (auto simp: msg_send_def split: if_splits prod.splits result.splits option.splits)
qed

text \<open>A send adds the message behind the receiver's queue, or leaves every queue as it was.\<close>

lemma msg_send_queue:
  assumes inv: "msg_inv m" and sent: "msg_send h src uid dst ty tg flags dat m = (r, m')"
  shows "case r of
      Ok _ \<Rightarrow> \<exists>to ii q. find_inbox m to = Some ii \<and> msg_queue m to = Some q
        \<and> msg_queue m' = (msg_queue m)(to \<mapsto> q @ [(src, uid, ty, tg, ticks h, dat)])
        \<and> (case dst of Pid p \<Rightarrow> to = p
           | Name n \<Rightarrow> pid_is_live h to \<and> (\<exists>s \<in> set (services m). svc_in_use s \<and> svc_name s = n \<and> svc_pid s = to))
        \<and> admits h src uid (inboxes m ! ii) \<and> length q < QUEUE_DEPTH \<and> length (filter (\<lambda>x. fst x = src) q) < 8
    | Err _ \<Rightarrow> msg_queue m' = msg_queue m"
  using inv sent
proof (cases rule: msg_send_cases)
  case (none e m1)
  then show ?thesis using msg_queue_cong [OF none(4)] by simp
next
  case (refuse e m1 to ii)
  have "msg_queue m' = msg_queue m1"
    unfolding refuse(5) using msg_queue_refused [OF refuse(2,4)] unfolding refuse(3) .
  then show ?thesis using msg_queue_cong [OF refuse(3)] by (simp only: refuse(1) result.case)
next
  case (queue m1 to ii f)
  let ?b = "inboxes m ! ii"
  let ?s = "new_slot src uid ty tg (ticks h) dat (next_seq ?b) (slots ?b ! f)"
  let ?b' = "?b\<lparr>slots := (slots ?b)[f := ?s], next_seq := next_seq ?b + 1, count := count ?b + 1\<rparr>"
  have fi: "find_inbox m to = Some ii" using queue(4) find_inbox_cong [OF queue(3)] by simp
  note ii = find_inboxD [OF fi]
  have b: "inbox_ok ?b" using inv ii(2) by (rule inbox_ok_nth)
  have uq: "uniq seq used (slots ?b)" and old: "\<forall>t \<in> set (slots ?b). used t \<longrightarrow> seq t < seq ?s"
    using b by (simp_all add: inbox_ok_def list_all_iff slot_ok_def)
  have sl: "inbox_slots ?b' = inbox_slots ?b @ [?s]"
    by (rule inbox_slots_enqueue [OF uq queue(9,10) _ old]) simp
  have "msg_queue m' = (msg_queue m1)(to \<mapsto> map message_of (inbox_slots ?b'))"
    unfolding queue(12) using msg_queue_update [OF queue(2,4), of ?b'] unfolding queue(3) by simp
  then have q': "msg_queue m' = (msg_queue m)(to \<mapsto> map message_of (inbox_slots ?b) @ [(src, uid, ty, tg, ticks h, dat)])"
    using msg_queue_cong [OF queue(3)] message_of_new [OF queue(7)] by (simp add: sl)
  have "count_if used (slots ?b) < QUEUE_DEPTH"
    using count_if_update [OF queue(9), of used ?s] queue(10) count_if_le_length [of used "(slots ?b)[f := ?s]"] b
    by (simp add: inbox_ok_def)
  then have "length (inbox_slots ?b) < QUEUE_DEPTH" by (simp add: length_inbox_slots)
  moreover have "length (filter (\<lambda>x. fst x = src) (map message_of (inbox_slots ?b))) < 8"
    using queue(11) unfolding share_queue .
  moreover have "admits h src uid ?b"
    using queue(8) by (intro send_policy_admits [of h src uid ?b ?b]) (simp add: ii(4))
  moreover have "msg_queue m to = Some (map message_of (inbox_slots ?b))"
    using fi by (simp add: msg_queue_def)
  ultimately show ?thesis
    unfolding queue(1) result.case using q' fi send_dest_Ok [OF queue(5)]
    by (intro exI [of _ to] exI [of _ ii] exI [of _ "map message_of (inbox_slots ?b)"] conjI) (simp_all only: length_map)
qed

lemma msg_recv_queue:
  assumes inv: "msg_inv m" and q: "msg_queue m p = Some q" and fl: "flags AND NOT (RECV_PEEK OR RECV_MATCH_TAG) = 0"
    and rcv: "msg_recv p flags ms mt mg out info m = ((r, out', info'), m')"
  shows "case take_first (wanted flags ms mt mg) q of
      None \<Rightarrow> r = Err EAGAIN \<and> out' = out \<and> info' = info \<and> m' = m
    | Some ((s, uid, ty, tg, tk, d), rest) \<Rightarrow>
        ri_sender info' = s \<and> ri_sender_uid info' = uid \<and> ri_mtype info' = ty \<and> ri_tag info' = tg
      \<and> ri_tick info' = tk \<and> ri_len info' = of_nat (length d) \<and> length d \<le> MAX_PAYLOAD
      \<and> (if length d > length out then r = Err E2BIG \<and> out' = out \<and> m' = m
         else r = Ok () \<and> out' = copy_prefix d out
            \<and> msg_queue m' = (if flags AND RECV_PEEK = 0 then (msg_queue m)(p \<mapsto> rest) else msg_queue m))"
  using rcv
proof (cases rule: msg_recv_cases)
  case none
  from q have "find_inbox m p \<noteq> None" by (auto simp: msg_queue_def)
  with none(6) fl have r: "r = Err EAGAIN" by blast
  with none(5) obtain ii where ii: "find_inbox m p = Some ii"
    "\<forall>s \<in> set (slots (inboxes m ! ii)). \<not> recv_match flags ms mt mg s" by blast
  then have "q = map message_of (inbox_slots (inboxes m ! ii))" using q by (simp add: msg_queue_def)
  with ii(2) have "position (wanted flags ms mt mg) q = None"
    by (simp add: position_map position_None inbox_slots_def recv_match_wanted)
  with none r show ?thesis by (simp add: take_first_def)
next
  case (found ii bi)
  let ?b = "inboxes m ! ii"
  let ?s = "slots ?b ! bi"
  let ?b' = "?b\<lparr>slots := (slots ?b)[bi := ?s\<lparr>used := False\<rparr>], count := count ?b - 1, delivered := delivered ?b + 1\<rparr>"
  have q': "q = map message_of (inbox_slots ?b)" using q found(1) by (simp add: msg_queue_def)
  have b: "inbox_ok ?b" using inv find_inboxD(2) [OF found(1)] by (rule inbox_ok_nth)
  then have uq: "uniq seq used (slots ?b)" by (simp add: inbox_ok_def)
  have us: "used ?s" using found(3) by (simp add: recv_match_def)
  obtain i where i: "i < length (inbox_slots ?b)" "inbox_slots ?b ! i = ?s"
    "position (wanted flags ms mt mg) (map message_of (inbox_slots ?b)) = Some i"
    by (rule oldest_position [OF uq found(2-4)])
  have sl: "inbox_slots ?b' = take i (inbox_slots ?b) @ drop (Suc i) (inbox_slots ?b)"
    by (rule inbox_slots_dequeue [OF uq found(2) us i(1,2)]) simp
  have tf: "take_first (wanted flags ms mt mg) q = Some (message_of ?s, map message_of (inbox_slots ?b'))"
    using i by (simp add: take_first_def q' sl take_map drop_map)
  have mq: "msg_queue (m\<lparr>inboxes := (inboxes m)[ii := ?b']\<rparr>) = (msg_queue m)(p \<mapsto> map message_of (inbox_slots ?b'))"
    by (rule msg_queue_update [OF inv found(1)]) simp_all
  have "slot_ok (next_seq ?b) ?s" using b found(2) by (simp add: inbox_ok_def list_all_length)
  then have d: "length (take (unat (len ?s)) (data ?s)) = unat (len ?s)" "unat (len ?s) \<le> MAX_PAYLOAD"
    using us by (simp_all add: slot_ok_def)
  define rest where "rest = map message_of (inbox_slots ?b')"
  define m1 where "m1 = m\<lparr>inboxes := (inboxes m)[ii := ?b']\<rparr>"
  note res = found(11) [folded m1_def]
  have mq1: "msg_queue m1 = (msg_queue m)(p \<mapsto> rest)" unfolding m1_def rest_def by (rule mq)
  show ?thesis
    unfolding tf message_of_def [of ?s] option.case prod.case d(1) rest_def [symmetric]
    using found(5-10) res d(2) mq1 by (simp split: if_splits)
qed

lemma drop_take_rest: "k \<le> c \<Longrightarrow> drop k (take c xs) @ drop c xs = drop k xs"
  by (induction xs arbitrary: k c) (auto simp: drop_Cons take_Cons split: nat.splits)

lemma drop_process_queue:
  assumes "msg_inv m"
  shows "msg_queue (drop_process p m) = (msg_queue m)(p := None)"
proof
  fix q
  let ?f = "\<lambda>b. if in_use b \<and> pid b = p then EMPTY_INBOX
      else if in_use b then b\<lparr>allow := map (\<lambda>a. if a = p then 0 else a) (allow b)\<rparr> else b"
  have pos: "in_use (?f b) \<and> pid (?f b) = q \<longleftrightarrow> in_use b \<and> pid b = q \<and> q \<noteq> p" for b
    by (auto simp: EMPTY_INBOX_def)
  have fi: "find_inbox (drop_process p m) q = (if q = p then None else find_inbox m q)"
    by (simp add: find_inbox_def drop_process_def position_map pos position_None EMPTY_INBOX_def)
  show "msg_queue (drop_process p m) q = ((msg_queue m)(p := None)) q"
  proof (cases "q = p \<or> find_inbox m q = None")
    case True
    then show ?thesis by (auto simp: msg_queue_def fi)
  next
    case False
    then obtain j where j: "find_inbox m q = Some j" "q \<noteq> p" by auto
    with find_inboxD [OF j(1)] have "inboxes (drop_process p m) ! j
        = (inboxes m ! j)\<lparr>allow := map (\<lambda>a. if a = p then 0 else a) (allow (inboxes m ! j))\<rparr>"
      by (simp add: drop_process_def)
    with j show ?thesis by (simp add: msg_queue_def fi inbox_slots_def)
  qed
qed

lemma service_registered:
  assumes inv: "msg_inv m" and n: "valid_name n" and reg: "service_register h p n m = (Ok x, m')"
  shows "\<exists>si. find_service m' n = Some si \<and> svc_pid (services m' ! si) = p"
proof -
  note ok = services_ok_msg [OF inv]
  show ?thesis
  proof (cases "find_service m n")
    case None
    with reg obtain f where f: "position (\<lambda>s. \<not> svc_in_use s) (services m) = Some f"
      and m': "m' = m\<lparr>services := (services m)[f := \<lparr>svc_in_use = True, svc_pid = p, name_len = of_nat (length n),
            name = copy_prefix n (replicate 32 0)\<rparr>]\<rparr>" (is "_ = m\<lparr>services := (services m)[f := ?s]\<rparr>")
      by (auto simp: service_register_def split: option.splits if_splits)
    have nm: "svc_name ?s = n" using n by (intro svc_name_new) (simp add: valid_name_def)
    have "f < length (services m)" using f by (rule position_SomeD)
    then have "find_service m' n = Some f"
      unfolding find_service_def m' using None nm
      by (intro position_unique) (auto simp: find_service_def position_None nth_list_update split: if_splits)
    with \<open>f < length (services m)\<close> show ?thesis by (auto simp: m')
  next
    case (Some si)
    note si = find_serviceD [OF Some]
    have "m' = m \<and> svc_pid (services m ! si) = p
        \<or> m' = m\<lparr>services := (services m)[si := (services m ! si)\<lparr>svc_pid := p\<rparr>]\<rparr>"
      using reg Some by (auto simp: service_register_def Let_def split: if_splits)
    then show ?thesis
    proof
      assume "m' = m \<and> svc_pid (services m ! si) = p"
      with Some show ?thesis by auto
    next
      assume m': "m' = m\<lparr>services := (services m)[si := (services m ! si)\<lparr>svc_pid := p\<rparr>]\<rparr>"
      have "find_service m' n = find_service m n"
        unfolding find_service_def m' by (simp add: position_update_same svc_name_def)
      with Some si(1) show ?thesis by (auto simp: m')
    qed
  qed
qed

lemma msg_send_accepts_aux:
  assumes inv: "msg_inv m" and to: "find_inbox m to = Some ii" and live: "pid_is_live h to"
    and ad: "admits h src uid (inboxes m ! ii)" and q: "msg_queue m to = Some q"
    and room: "length q < QUEUE_DEPTH" "length (filter (\<lambda>x. fst x = src) q) < 8"
    and arg: "ty \<noteq> 0" "length dat \<le> MAX_PAYLOAD"
  shows "fst (msg_send h src uid (Pid to) ty tg 0 dat m) = Ok ()"
proof -
  let ?b = "inboxes m ! ii"
  note D = find_inboxD [OF to]
  have b: "inbox_ok ?b" using inv D(2) by (rule inbox_ok_nth)
  have q': "q = map message_of (inbox_slots ?b)" using q to by (simp add: msg_queue_def)
  have "send_policy h src uid to ?b = (Ok (), ?b)"
    using ad D(4) by (auto simp: admits_def send_policy_def list_ex_iff split: option.splits)
  moreover have "fst (send_enqueue src uid ty tg (ticks h) dat ?b) = Ok ()"
    using b
  proof (cases rule: send_enqueue_cases [of _ src uid ty tg "ticks h" dat])
    case full
    with room show ?thesis by (auto simp: q' length_inbox_slots share_queue)
  next
    case room
    then show ?thesis by simp
  qed
  ultimately show ?thesis
    using to live arg D(1) by (simp add: msg_send_def send_dest_def case_prod_beta)
qed

section \<open>Properties\<close>

text \<open>
  (C6) Whatever calls the kernel makes, in any order, on behalf of any processes (fewer than \<open>2 ^ 64\<close>
  of them), the module's own consistency check passes: counts agree with the queues, no two inboxes
  share a process and no two services a name, every service's owner has an inbox, no sender holds more
  than 8 of the 16 slots, no process more than 4 names, every queued message is well formed.
\<close>

theorem msg_books_balance:
  assumes "list_all msg_op_ok ops" and "length ops < 2 ^ 64"
  shows "check_counts (fold msg_step ops msg_new) = Ok () \<and> fst (rust_msg_selftest (fold msg_step ops msg_new)) = 0"
  using check_counts_ok [OF msg_run_inv [OF assms]] by (simp add: rust_msg_selftest_def split: prod.splits)

text \<open>
  (C19) A send either adds one message, exactly as sent and stamped with the sender and user the kernel
  passed, at the end of one inbox's queue, and then the receiver is the process addressed or the live
  owner of the name addressed, its policy admits the sender and the limits of 16 messages and 8 per
  sender are kept; or it returns an error and every queue stays as it was.
\<close>

theorem msg_send_refines:
  assumes "list_all msg_op_ok ops" and "length ops < 2 ^ 64" and "m = fold msg_step ops msg_new"
    and "rust_msg_send h src uid d n ty tg flags dat m = (r, m')"
  shows "if r = 0 then \<exists>to ii q. find_inbox m to = Some ii \<and> msg_queue m to = Some q
        \<and> msg_queue m' = (msg_queue m)(to \<mapsto> q @ [(src, uid, ty, tg, ticks h, dat)])
        \<and> (if n = [] then to = d
           else pid_is_live h to \<and> (\<exists>s \<in> set (services m). svc_in_use s \<and> svc_name s = n \<and> svc_pid s = to))
        \<and> admits h src uid (inboxes m ! ii) \<and> length q < 16 \<and> length (filter (\<lambda>x. fst x = src) q) < 8
     else msg_queue m' = msg_queue m"
proof (cases "length dat > MAX_PAYLOAD \<or> length n > NAME_MAX + 1")
  case True
  with assms(4) show ?thesis by (auto simp: rust_msg_send_def split: if_splits)
next
  case False
  have inv: "msg_inv m" unfolding assms(3) by (rule msg_run_inv [OF assms(1,2)])
  let ?d = "if n = [] then Pid d else Name n"
  obtain e where sent: "msg_send h src uid ?d ty tg flags dat m = (e, m')" and r: "r = neg_errno e"
    using False assms(4) by (auto simp: rust_msg_send_def Let_def split: prod.splits)
  show ?thesis
  proof (cases e)
    case (Ok u)
    then show ?thesis using msg_send_queue [OF inv sent] by (auto simp: r kconst split: if_splits)
  next
    case (Err x)
    have "0 < x" by (rule msg_send_errors [OF sent [unfolded Err]])
    with Err show ?thesis using msg_send_queue [OF inv sent] by (simp add: r)
  qed
qed

text \<open>
  A send is not refused without a reason: to a live process with an inbox whose policy admits
  the sender, that has fewer than 16 messages waiting and fewer than 8 of them from this sender, a
  well-formed message is always accepted, however the other senders behave.
\<close>

theorem msg_send_accepts:
  assumes "list_all msg_op_ok ops" and "length ops < 2 ^ 64" and "m = fold msg_step ops msg_new"
    and "find_inbox m to = Some ii" and "msg_queue m to = Some q" and "pid_is_live h to"
    and "admits h src uid (inboxes m ! ii)" and "length q < 16" and "length (filter (\<lambda>x. fst x = src) q) < 8"
    and "ty \<noteq> 0" and "length dat \<le> 1024"
  shows "fst (rust_msg_send h src uid to [] ty tg 0 dat m) = 0"
proof -
  have inv: "msg_inv m" unfolding assms(3) by (rule msg_run_inv [OF assms(1,2)])
  have "fst (msg_send h src uid (Pid to) ty tg 0 dat m) = Ok ()"
    using assms by (intro msg_send_accepts_aux [OF inv assms(4,6,7,5)]) (simp_all add: kconst)
  with assms(11) show ?thesis by (simp add: rust_msg_send_def kconst case_prod_beta)
qed

text \<open>
  (C20) A receive hands over the oldest message in the inbox that matches its filters, whole and with
  the recorded sender, and removes exactly it (with the peek flag: removes nothing); when none matches
  it changes nothing and says so; when the buffer is too small it reports the size, delivers nothing
  and leaves the message where it is.
\<close>

theorem msg_recv_refines:
  assumes "list_all msg_op_ok ops" and "length ops < 2 ^ 64" and "m = fold msg_step ops msg_new"
    and "msg_queue m p = Some q" and "flags AND NOT (RECV_PEEK OR RECV_MATCH_TAG) = 0"
    and "rust_msg_recv p flags ms mt mg buf info m = ((r, buf', info'), m')"
  shows "case take_first (wanted flags ms mt mg) q of
      None \<Rightarrow> r = - EAGAIN \<and> buf' = buf \<and> info' = info \<and> m' = m
    | Some ((s, uid, ty, tg, tk, d), rest) \<Rightarrow>
        take 6 info' = [of_int s, uid, ty, tg, of_nat (length d), tk]
      \<and> (if length d > length buf then r = - E2BIG \<and> buf' = buf \<and> m' = m
         else r = 0 \<and> buf' = d @ drop (length d) buf
            \<and> msg_queue m' = (if flags AND RECV_PEEK = 0 then (msg_queue m)(p \<mapsto> rest) else msg_queue m))"
proof -
  have inv: "msg_inv m" unfolding assms(3) by (rule msg_run_inv [OF assms(1,2)])
  let ?c = "min (length buf) MAX_PAYLOAD"
  obtain e out ri where rcv: "msg_recv p flags ms mt mg (take ?c buf) recv_info_default m = ((e, out, ri), m')"
    and r: "r = neg_errno e" "buf' = out @ drop ?c buf" "info' = (if e = Ok () \<or> e = Err E2BIG then recv_info_words ri else info)"
    using assms(6) by (auto simp: rust_msg_recv_def Let_def split: prod.splits)
  note Q = msg_recv_queue [OF inv assms(4,5) rcv]
  show ?thesis
  proof (cases "take_first (wanted flags ms mt mg) q")
    case None
    with Q show ?thesis by (simp add: r)
  next
    case (Some x)
    obtain s uid ty tg tk d rest where x: "x = ((s, uid, ty, tg, tk, d), rest)" by (cases x) auto
    from Q have len: "length d \<le> MAX_PAYLOAD" by (simp add: Some x)
    show ?thesis
    proof (cases "length d > length buf")
      case True
      then have "length d > length (take ?c buf)" using len by simp
      with True Q show ?thesis by (simp add: Some x r recv_info_words_def)
    next
      case False
      then have "\<not> length d > length (take ?c buf)" and le: "length d \<le> ?c" using len by simp_all
      with False Q drop_take_rest [OF le, of buf] show ?thesis
        by (simp add: Some x r recv_info_words_def copy_prefix_def)
    qed
  qed
qed

text \<open>
  (C37) When a process exits nothing of it is left: its inbox and queue are gone and every other queue
  is as before, no service name belongs to it, and no allowlist still admits its number, so a later
  process with the same number inherits nothing.
\<close>

theorem msg_exit_forgets:
  assumes "list_all msg_op_ok ops" and "length ops < 2 ^ 64" and "m = fold msg_step ops msg_new" and "0 < p"
  shows "msg_queue (rust_msg_process_exit p m) = (msg_queue m)(p := None)
    \<and> (\<forall>s \<in> set (services (rust_msg_process_exit p m)). svc_in_use s \<longrightarrow> svc_pid s \<noteq> p)
    \<and> (\<forall>b \<in> set (inboxes (rust_msg_process_exit p m)). in_use b \<longrightarrow> pid b \<noteq> p \<and> p \<notin> set (allow b))"
proof -
  have inv: "msg_inv m" unfolding assms(3) by (rule msg_run_inv [OF assms(1,2)])
  have x: "rust_msg_process_exit p m = drop_process p m"
    by (simp add: rust_msg_process_exit_def process_exit_def)
  show ?thesis
    unfolding x drop_process_queue [OF inv] using assms(4)
    by (auto simp: drop_process_def EMPTY_SERVICE_def EMPTY_INBOX_def)
qed

text \<open>
  A name that was registered is found: after a successful registration every lookup of the name,
  while its owner lives, answers with the process that registered it and changes nothing.
\<close>

theorem msg_name_lookup:
  assumes "list_all msg_op_ok ops" and "length ops < 2 ^ 64" and "m = fold msg_step ops msg_new"
    and "rust_msg_service h p SVC_REGISTER n o1 m = ((0, x), m')" and "pid_is_live h' p"
  shows "rust_msg_service h' q SVC_LOOKUP n o2 m' = ((0, p), m')"
proof -
  have inv: "msg_inv m" unfolding assms(3) by (rule msg_run_inv [OF assms(1,2)])
  have v: "length n \<le> NAME_MAX + 1" "valid_name n"
    using assms(4) by (auto simp: rust_msg_service_def msg_service_def split: if_splits)
  obtain e m1 where e: "service_register h p n m = (e, m1)" by force
  have "e \<noteq> Err 0" using e by (auto simp: service_register_def Let_def split: option.splits if_splits)
  then obtain y where "service_register h p n m = (Ok y, m')"
    using assms(4) v e by (auto simp: rust_msg_service_def msg_service_def split: result.splits)
  from service_registered [OF inv v(2) this] v assms(5) show ?thesis
    by (auto simp: rust_msg_service_def msg_service_def Let_def)
qed

text \<open>Witnesses: process 5 opens an inbox, process 7 of user 100 sends it two bytes.\<close>

definition demo_hal :: hal where
  "demo_hal = \<lparr>pid_is_live = (\<lambda>_. True), uid_of = (\<lambda>_. Some 100), ticks = 42\<rparr>"

definition demo_ops :: "msg_op list" where
  "demo_ops = [MOpen 5 ACCEPT_ANY 0]"

definition demo_sent :: "msg_op list" where
  "demo_sent = [MOpen 5 ACCEPT_ANY 0, MSend demo_hal 7 100 5 [] 3 9 0 [1, 2]]"

abbreviation demo :: msg where
  "demo \<equiv> fold msg_step demo_ops msg_new"

lemma demo_ok: "list_all msg_op_ok demo_ops" "length demo_ops < 2 ^ 64"
  "list_all msg_op_ok demo_sent" "length demo_sent < 2 ^ 64"
  by (simp_all add: demo_ops_def demo_sent_def)

lemma demo_inboxes: "inboxes demo = (replicate MAX_INBOXES EMPTY_INBOX)[0 := EMPTY_INBOX\<lparr>in_use := True, pid := 5, policy := 0\<rparr>]"
proof -
  have "find_inbox msg_new 5 = None"
    by (simp add: find_inbox_def msg_new_def position_replicate EMPTY_INBOX_def)
  moreover have "position (\<lambda>b. \<not> in_use b) (inboxes msg_new) = Some 0"
    by (simp add: msg_new_def position_replicate EMPTY_INBOX_def kconst)
  ultimately show ?thesis
    by (simp add: demo_ops_def rust_msg_open_def msg_open_def msg_new_def)
qed

lemma demo_find: "find_inbox demo 5 = Some 0" "inboxes demo ! 0 = EMPTY_INBOX\<lparr>in_use := True, pid := 5, policy := 0\<rparr>"
  by (simp_all add: find_inbox_def demo_inboxes position_Some kconst)

lemma demo_queue: "msg_queue demo 5 = Some []"
  by (simp add: msg_queue_def demo_find inbox_slots_def) (simp add: EMPTY_INBOX_def EMPTY_SLOT_def)

lemma demo_admits: "admits demo_hal 7 100 (inboxes demo ! 0)"
  by (simp add: admits_def demo_find)

lemma demo_send: "fst (rust_msg_send demo_hal 7 100 5 [] 3 9 0 [1, 2] demo) = 0"
proof -
  have "fst (msg_send demo_hal 7 100 (Pid 5) 3 9 0 [1, 2] demo) = Ok ()"
    by (rule msg_send_accepts_aux [OF msg_run_inv [OF demo_ok(1,2)] demo_find(1) _ demo_admits demo_queue])
      (simp_all add: demo_hal_def kconst)
  then show ?thesis by (simp add: rust_msg_send_def kconst case_prod_beta)
qed

lemma demo_sent_queue: "msg_queue (fold msg_step demo_sent msg_new) 5 = Some [(7, 100, 3, 9, 42, [1, 2])]"
proof -
  obtain r m' where sent: "msg_send demo_hal 7 100 (Pid 5) 3 9 0 [1, 2] demo = (r, m')" by force
  have "r = Ok ()"
    using msg_send_accepts_aux [OF msg_run_inv [OF demo_ok(1,2)] demo_find(1) _ demo_admits demo_queue, of 3 "[1, 2]" 9] sent
    by (simp add: demo_hal_def kconst)
  with msg_send_queue [OF msg_run_inv [OF demo_ok(1,2)] sent] demo_queue
  have "msg_queue m' 5 = Some [(7, 100, 3, 9, 42, [1, 2])]" by (auto simp: demo_hal_def)
  moreover have "fold msg_step demo_sent msg_new = m'"
    using sent by (simp add: demo_sent_def demo_ops_def rust_msg_send_def kconst)
  ultimately show ?thesis by simp
qed

theorem msg_books_balance_witness:
  "list_all msg_op_ok demo_sent \<and> check_counts (fold msg_step demo_sent msg_new) = Ok ()
   \<and> fst (rust_msg_selftest (fold msg_step demo_sent msg_new)) = 0"
  using msg_books_balance [OF demo_ok(3,4)] demo_ok(3) by blast

theorem msg_send_refines_witness:
  "fst (rust_msg_send demo_hal 7 100 5 [] 3 9 0 [1, 2] demo) = 0
   \<and> (\<exists>to q. msg_queue demo to = Some q
      \<and> msg_queue (snd (rust_msg_send demo_hal 7 100 5 [] 3 9 0 [1, 2] demo)) = (msg_queue demo)(to \<mapsto> q @ [(7, 100, 3, 9, ticks demo_hal, [1, 2])]))"
proof -
  let ?s = "rust_msg_send demo_hal 7 100 5 [] 3 9 0 [1, 2] demo"
  have "?s = (fst ?s, snd ?s)" by simp
  from msg_send_refines [OF demo_ok(1,2) refl this] demo_send show ?thesis by auto
qed

theorem msg_send_accepts_witness: "fst (rust_msg_send demo_hal 7 100 5 [] 3 9 0 [1, 2] demo) = 0"
  by (rule msg_send_accepts [OF demo_ok(1,2) refl demo_find(1) demo_queue _ demo_admits]) (simp_all add: demo_hal_def)

theorem msg_recv_refines_witness:
  "case rust_msg_recv 5 0 0 0 0 [0, 0, 0] [] (fold msg_step demo_sent msg_new) of ((r, buf', info'), m') \<Rightarrow>
     r = 0 \<and> buf' = [1, 2, 0] \<and> take 6 info' = [7, 100, 3, 9, 2, 42] \<and> msg_queue m' 5 = Some []"
proof -
  let ?x = "rust_msg_recv 5 0 0 0 0 [0, 0, 0] [] (fold msg_step demo_sent msg_new)"
  have x: "?x = ((fst (fst ?x), fst (snd (fst ?x)), snd (snd (fst ?x))), snd ?x)" by simp
  have "take_first (wanted 0 0 0 0) [(7, 100, 3, 9, 42, [1, 2])] = Some ((7, 100, 3, 9, 42, [1, 2]), [])"
    by (simp add: take_first_def)
  with msg_recv_refines [OF demo_ok(3,4) refl demo_sent_queue _ x] show ?thesis
    by (simp add: case_prod_beta)
qed

theorem msg_exit_forgets_witness:
  "msg_queue demo 5 = Some [] \<and> msg_queue (rust_msg_process_exit 5 demo) 5 = None"
  using msg_exit_forgets [OF demo_ok(1,2) refl, of 5] demo_queue by simp

lemma demo_register: "\<exists>m'. rust_msg_service demo_hal 5 SVC_REGISTER (byte_str ''editor'') 0 demo = ((0, 0), m')"
proof -
  have v: "valid_name (byte_str ''editor'')" by code_simp
  have sv: "services demo = replicate MAX_SERVICES EMPTY_SERVICE"
    by (simp add: demo_ops_def rust_msg_open_def msg_open_def msg_new_def split: prod.splits option.splits)
  have "find_service demo (byte_str ''editor'') = None"
    by (simp add: find_service_def sv position_replicate EMPTY_SERVICE_def)
  moreover have "names_of demo 5 = 0"
    by (simp add: names_of_def sv count_if_replicate EMPTY_SERVICE_def)
  ultimately have "fst (service_register demo_hal 5 (byte_str ''editor'') demo) = Ok 0"
    by (simp add: service_register_def demo_find sv position_replicate EMPTY_SERVICE_def kconst)
  then show ?thesis
    using v by (cases "service_register demo_hal 5 (byte_str ''editor'') demo") (simp add: rust_msg_service_def msg_service_def kconst)
qed

theorem msg_name_lookup_witness:
  "\<exists>m'. rust_msg_service demo_hal 5 SVC_REGISTER (byte_str ''editor'') 0 demo = ((0, 0), m')
      \<and> rust_msg_service demo_hal 9 SVC_LOOKUP (byte_str ''editor'') 0 m' = ((0, 5), m')"
proof -
  obtain m' where reg: "rust_msg_service demo_hal 5 SVC_REGISTER (byte_str ''editor'') 0 demo = ((0, 0), m')"
    using demo_register by blast
  from msg_name_lookup [OF demo_ok(1,2) refl reg, of demo_hal 9 0] reg show ?thesis
    by (auto simp: demo_hal_def)
qed

end
