(* ===== verification/Glob.thy ===== *)
theory Glob
  imports Prelude
begin

text \<open>
  Name patterns (\<open>glob_match\<close> of \<open>src/kernel/rust/mac.rs\<close>): \<open>*\<close> is any run of bytes, \<open>?\<close> one byte,
  letters match in either case.  The code is a loop with a single backtrack point; it is shown equal
  to the recursive definition of what a pattern matches.
\<close>

section \<open>The matcher\<close>

definition fold_case :: "u8 \<Rightarrow> u8" where
  "fold_case b = (if is_ascii_lowercase b then b - 32 else b)"

abbreviation STAR :: u8 where "STAR \<equiv> 0x2A"
abbreviation QUEST :: u8 where "QUEST \<equiv> 0x3F"

text \<open>
  The first loop; \<open>star\<close> is \<open>None\<close> where the code has \<open>usize::MAX\<close>.  The second loop skips the
  stars left at the end.
\<close>

fun glob_tail :: "bytes \<Rightarrow> bool" where
  "glob_tail [] = True"
| "glob_tail (c # cs) = (if c = STAR then glob_tail cs else False)"

definition glob_inv_ok :: "usize \<Rightarrow> usize \<Rightarrow> usize option \<Rightarrow> usize \<Rightarrow> bool" where
  "glob_inv_ok p t star mark \<longleftrightarrow> (case star of None \<Rightarrow> True | Some s \<Rightarrow> s < p \<and> mark \<le> t)"

function glob_loop :: "bytes \<Rightarrow> bytes \<Rightarrow> usize \<Rightarrow> usize \<Rightarrow> usize option \<Rightarrow> usize \<Rightarrow> bool" where
  "glob_loop pat body p t star mark =
    (if t < length body then
       if p < length pat \<and> pat ! p = STAR then glob_loop pat body (p + 1) t (Some p) t
       else if p < length pat \<and> (pat ! p = QUEST \<or> fold_case (pat ! p) = fold_case (body ! t))
       then glob_loop pat body (p + 1) (t + 1) star mark
       else case star of
          Some s \<Rightarrow> glob_loop pat body (s + 1) (mark + 1) star (mark + 1)
        | None \<Rightarrow> False
     else glob_tail (drop p pat))"
  by pat_completeness auto
termination
proof (relation "measures
    [\<lambda>(pat, body, p, t, star, mark). of_bool (\<not> glob_inv_ok p t star mark),
     \<lambda>(pat, body, p, t, star, mark). of_bool (star = None),
     \<lambda>(pat, body, p, t, star, mark). length body - mark,
     \<lambda>(pat, body, p, t, star, mark). case star of None \<Rightarrow> 0 | Some s \<Rightarrow> length pat - s,
     \<lambda>(pat, body, p, t, star, mark). length body - t]", goal_cases)
qed (auto simp: glob_inv_ok_def split: option.splits)

declare glob_loop.simps [simp del]

definition glob_match :: "bytes \<Rightarrow> bytes \<Rightarrow> bool" where
  "glob_match pat body = glob_loop pat body 0 0 None 0"

section \<open>What a pattern matches\<close>

fun glob :: "bytes \<Rightarrow> bytes \<Rightarrow> bool" where
  "glob [] body = (body = [])"
| "glob (c # cs) body =
    (if c = STAR then glob cs body \<or> (case body of [] \<Rightarrow> False | _ # rest \<Rightarrow> glob (c # cs) rest)
     else case body of [] \<Rightarrow> False
       | x # rest \<Rightarrow> (c = QUEST \<or> fold_case c = fold_case x) \<and> glob cs rest)"

lemma glob_Nil: "glob cs [] = glob_tail cs"
  by (induction cs) auto

lemma glob_star: "glob (STAR # cs) xs \<longleftrightarrow> (\<exists>k \<le> length xs. glob cs (drop k xs))"
proof (induction xs)
  case Nil
  show ?case by simp
next
  case (Cons x xs)
  have "(\<exists>k \<le> length (x # xs). glob cs (drop k (x # xs)))
      \<longleftrightarrow> glob cs (x # xs) \<or> (\<exists>k \<le> length xs. glob cs (drop k xs))"
    by (simp only: less_Suc_eq_le [symmetric] length_Cons Ex_less_Suc2) simp
  with Cons.IH show ?case by simp
qed

text \<open>The literal part of a pattern fixes how much text it takes.\<close>

lemma glob_prefix:
  assumes "STAR \<notin> set u" and "glob (u @ v) xs"
  shows "length u \<le> length xs \<and> glob v (drop (length u) xs)"
  using assms
proof (induction u arbitrary: xs)
  case Nil
  then show ?case by simp
next
  case (Cons c u)
  then show ?case by (cases xs) auto
qed

lemma glob_star_later:
  assumes "glob (STAR # cs) (drop m xs)" and "n \<le> m"
  shows "glob (STAR # cs) (drop n xs)"
proof -
  from assms(1) obtain k where k: "k \<le> length (drop m xs)" "glob cs (drop (k + m) xs)"
    unfolding glob_star by auto
  have "\<exists>j \<le> length (drop n xs). glob cs (drop j (drop n xs))"
  proof (cases "m \<le> length xs")
    case True
    with k assms(2) show ?thesis by (intro exI [of _ "k + m - n"]) auto
  next
    case False
    with k have "glob cs []" by simp
    then show ?thesis by (intro exI [of _ "length (drop n xs)"]) auto
  qed
  then show ?thesis unfolding glob_star .
qed

text \<open>
  What the loop maintains: since the last star the pattern has been literal and has matched the text
  from the mark on.  What it decides: the rest matches here, or some later start of that literal part
  matches.
\<close>

definition glob_inv :: "bytes \<Rightarrow> bytes \<Rightarrow> usize \<Rightarrow> usize \<Rightarrow> usize option \<Rightarrow> usize \<Rightarrow> bool" where
  "glob_inv pat body p t star mark \<longleftrightarrow> t \<le> length body \<and> p \<le> length pat
   \<and> (case star of None \<Rightarrow> True
      | Some s \<Rightarrow> s < p \<and> mark \<le> t \<and> t - mark = p - Suc s \<and> STAR \<notin> set (take (p - Suc s) (drop (Suc s) pat)))"

definition glob_goal :: "bytes \<Rightarrow> bytes \<Rightarrow> usize \<Rightarrow> usize \<Rightarrow> usize option \<Rightarrow> usize \<Rightarrow> bool" where
  "glob_goal pat body p t star mark \<longleftrightarrow> glob (drop p pat) (drop t body)
   \<or> (case star of None \<Rightarrow> False
      | Some s \<Rightarrow> \<exists>k. mark < k \<and> k \<le> length body \<and> glob (drop (Suc s) pat) (drop k body))"

lemma glob_later_start:
  assumes "glob_inv pat body p t (Some s) mark" and "mark < k" and "glob (drop (Suc s) pat) (drop k body)"
  shows "p - Suc s \<le> length body - k \<and> glob (drop p pat) (drop (k + (p - Suc s)) body)"
proof -
  let ?u = "take (p - Suc s) (drop (Suc s) pat)"
  have p: "Suc s \<le> p" "p \<le> length pat" "STAR \<notin> set ?u" using assms(1) by (auto simp: glob_inv_def)
  then have "drop (Suc s) pat = ?u @ drop p pat"
    by (metis append_take_drop_id drop_drop le_add_diff_inverse2)
  with glob_prefix [OF p(3), of "drop p pat" "drop k body"] assms(3) p show ?thesis
    by (simp add: add.commute)
qed

lemma later_start_next:
  fixes m n :: nat
  assumes "m < n"
  shows "(\<exists>k. m < k \<and> k \<le> n \<and> P k) \<longleftrightarrow> P (Suc m) \<or> (\<exists>k. Suc m < k \<and> k \<le> n \<and> P k)"
proof -
  have "m < k \<longleftrightarrow> k = Suc m \<or> Suc m < k" for k by auto
  then show ?thesis using assms by (metis Suc_leI)
qed

lemma take_past_star:
  assumes "s < p" and "p < length pat"
  shows "take (p - s) (drop (Suc s) pat) = take (p - Suc s) (drop (Suc s) pat) @ [pat ! p]"
proof -
  have "p - s = Suc (p - Suc s)" using assms by simp
  moreover have "p - Suc s < length (drop (Suc s) pat)" using assms by simp
  ultimately show ?thesis using assms by (simp add: take_Suc_conv_app_nth del: take_Suc)
qed

text \<open>At a star the older backtrack point can be forgotten.\<close>

lemma glob_later_or_here:
  assumes "t \<le> length xs"
  shows "(\<exists>k \<le> length (drop t xs). P (drop k (drop t xs)))
     \<longleftrightarrow> P (drop t xs) \<or> (\<exists>k. t < k \<and> k \<le> length xs \<and> P (drop k xs))" (is "?L \<longleftrightarrow> ?R")
proof
  assume ?L
  then obtain k where k: "k \<le> length xs - t" "P (drop (k + t) xs)" by auto
  with assms show ?R by (cases k) (auto intro: exI [of _ "k + t"])
next
  assume ?R
  then show ?L
  proof
    assume "P (drop t xs)"
    then show ?L by (intro exI [of _ 0]) simp
  next
    assume "\<exists>k. t < k \<and> k \<le> length xs \<and> P (drop k xs)"
    then obtain k where "t < k" "k \<le> length xs" "P (drop k xs)" by blast
    then show ?L by (intro exI [of _ "k - t"]) auto
  qed
qed

lemma glob_goal_star:
  assumes "glob_inv pat body p t star mark" and "p < length pat" and "pat ! p = STAR"
  shows "glob_goal pat body (p + 1) t (Some p) t = glob_goal pat body p t star mark"
proof -
  have d: "drop p pat = STAR # drop (Suc p) pat" using assms(2,3) by (metis Cons_nth_drop_Suc)
  have t: "t \<le> length body" using assms(1) by (simp add: glob_inv_def)
  have "glob (drop p pat) (drop t body)"
    if s: "star = Some s" "mark < k" "k \<le> length body" "glob (drop (Suc s) pat) (drop k body)" for s k
  proof -
    have "glob (drop p pat) (drop (k + (p - Suc s)) body)"
      using glob_later_start [of pat body p t s mark k] assms(1) s by simp
    moreover have "t \<le> k + (p - Suc s)" using assms(1) s(1,2) by (auto simp: glob_inv_def)
    ultimately show ?thesis unfolding d by (rule glob_star_later)
  qed
  then have "glob_goal pat body p t star mark = glob (drop p pat) (drop t body)"
    by (auto simp: glob_goal_def split: option.splits)
  also have "\<dots> = glob_goal pat body (p + 1) t (Some p) t"
    unfolding d glob_star glob_later_or_here [OF t] by (simp add: glob_goal_def)
  finally show ?thesis ..
qed

lemma glob_loop_correct:
  "glob_inv pat body p t star mark \<Longrightarrow> glob_loop pat body p t star mark = glob_goal pat body p t star mark"
proof (induction pat body p t star mark rule: glob_loop.induct)
  case (1 pat body p t star mark)
  note inv = 1(4)
  have t: "t \<le> length body" and p: "p \<le> length pat" using inv by (auto simp: glob_inv_def)
  consider (fin) "t = length body"
    | (star) "t < length body" "p < length pat" "pat ! p = STAR"
    | (lit) "t < length body" "p < length pat" "pat ! p \<noteq> STAR" "pat ! p = QUEST \<or> fold_case (pat ! p) = fold_case (body ! t)"
    | (retry) "t < length body" "\<not> (p < length pat \<and> (pat ! p = STAR \<or> pat ! p = QUEST \<or> fold_case (pat ! p) = fold_case (body ! t)))"
    using t by fastforce
  then show ?case
  proof cases
    case fin
    have "False" if s: "star = Some s" "mark < k" "k \<le> length body" "glob (drop (Suc s) pat) (drop k body)" for s k
      using glob_later_start [of pat body p t s mark k] inv s fin by (auto simp: glob_inv_def)
    then show ?thesis
      using fin by (subst glob_loop.simps) (auto simp: glob_goal_def glob_Nil split: option.splits)
  next
    case star
    have "glob_inv pat body (p + 1) t (Some p) t" using star by (simp add: glob_inv_def)
    then have "glob_loop pat body p t star mark = glob_goal pat body (p + 1) t (Some p) t"
      using star 1(1) by (subst glob_loop.simps) simp
    also have "\<dots> = glob_goal pat body p t star mark" using inv star(2,3) by (rule glob_goal_star)
    finally show ?thesis .
  next
    case lit
    have inv': "glob_inv pat body (p + 1) (t + 1) star mark"
      using inv lit by (auto simp: glob_inv_def take_past_star split: option.splits)
    have "glob_loop pat body p t star mark = glob_loop pat body (p + 1) (t + 1) star mark"
      using lit by (subst glob_loop.simps) simp
    also have "\<dots> = glob_goal pat body (p + 1) (t + 1) star mark"
      using lit inv' by (intro 1(2)) auto
    also have "\<dots> = glob_goal pat body p t star mark"
      using lit by (simp add: glob_goal_def flip: Cons_nth_drop_Suc)
    finally show ?thesis .
  next
    case retry
    have no: "\<not> glob (drop p pat) (drop t body)"
    proof (cases "p < length pat")
      case True
      with retry show ?thesis by (simp flip: Cons_nth_drop_Suc)
    next
      case False
      with retry show ?thesis by simp
    qed
    show ?thesis
    proof (cases star)
      case None
      with retry no show ?thesis by (subst glob_loop.simps) (auto simp: glob_goal_def)
    next
      case (Some s)
      have inv': "glob_inv pat body (s + 1) (mark + 1) star (mark + 1)"
        using inv retry(1) Some by (auto simp: glob_inv_def)
      have "glob_loop pat body p t star mark = glob_loop pat body (s + 1) (mark + 1) star (mark + 1)"
        using retry Some by (subst glob_loop.simps) auto
      also have "\<dots> = glob_goal pat body (s + 1) (mark + 1) star (mark + 1)"
        using retry inv' by (intro 1(3) [OF _ _ _ Some]) auto
      also have "\<dots> = glob_goal pat body p t star mark"
        using no Some inv retry(1) by (simp add: glob_goal_def glob_inv_def later_start_next [of mark])
      finally show ?thesis .
    qed
  qed
qed

lemma glob_match_glob: "glob_match pat body = glob pat body"
proof -
  have "glob_match pat body = glob_goal pat body 0 0 None 0"
    unfolding glob_match_def by (rule glob_loop_correct) (simp add: glob_inv_def)
  then show ?thesis by (simp add: glob_goal_def)
qed

text \<open>
  (C23) The iterative matcher with its single backtrack point always returns, and decides exactly what
  the recursive definition says a pattern matches.
\<close>

theorem glob_match_correct: "glob_match pat body = glob pat body"
  by (rule glob_match_glob)

section \<open>How long it runs\<close>

text \<open>The loop with a bound on its iterations; \<open>None\<close> when the bound is used up first.\<close>

primrec glob_within :: "nat \<Rightarrow> bytes \<Rightarrow> bytes \<Rightarrow> usize \<Rightarrow> usize \<Rightarrow> usize option \<Rightarrow> usize \<Rightarrow> bool option" where
  "glob_within 0 pat body p t star mark = None"
| "glob_within (Suc n) pat body p t star mark =
    (if t < length body then
       if p < length pat \<and> pat ! p = STAR then glob_within n pat body (p + 1) t (Some p) t
       else if p < length pat \<and> (pat ! p = QUEST \<or> fold_case (pat ! p) = fold_case (body ! t))
       then glob_within n pat body (p + 1) (t + 1) star mark
       else case star of
          Some s \<Rightarrow> glob_within n pat body (s + 1) (mark + 1) star (mark + 1)
        | None \<Rightarrow> Some False
     else Some (glob_tail (drop p pat)))"

definition glob_fuel :: "bytes \<Rightarrow> bytes \<Rightarrow> usize \<Rightarrow> usize \<Rightarrow> nat" where
  "glob_fuel pat body p mark = (length body - mark) * (length pat + 1) + (length pat - p) + 1"

definition glob_range :: "bytes \<Rightarrow> bytes \<Rightarrow> usize \<Rightarrow> usize \<Rightarrow> usize option \<Rightarrow> usize \<Rightarrow> bool" where
  "glob_range pat body p t star mark \<longleftrightarrow> p \<le> length pat \<and> mark \<le> t \<and> t \<le> length body
     \<and> (case star of None \<Rightarrow> True | Some s \<Rightarrow> s < p)"

lemma glob_fuel_retry:
  assumes "mark < length body" and "s < p" and "p \<le> length pat"
  shows "glob_fuel pat body (s + 1) (mark + 1) < glob_fuel pat body p mark"
proof -
  have "length body - mark = Suc (length body - (mark + 1))" using assms(1) by simp
  then have "(length body - mark) * (length pat + 1) = (length pat + 1) + (length body - (mark + 1)) * (length pat + 1)"
    by simp
  then show ?thesis using assms(2,3) unfolding glob_fuel_def by linarith
qed

lemma glob_fuel_star:
  assumes "mark \<le> t" and "p < length pat"
  shows "glob_fuel pat body (p + 1) t < glob_fuel pat body p mark"
proof -
  have "(length body - t) * (length pat + 1) \<le> (length body - mark) * (length pat + 1)"
    using assms(1) by (intro mult_right_mono) auto
  then show ?thesis using assms(2) unfolding glob_fuel_def by linarith
qed

lemma glob_within_enough:
  "glob_fuel pat body p mark \<le> n \<Longrightarrow> glob_range pat body p t star mark \<Longrightarrow>
     glob_within n pat body p t star mark = Some (glob_loop pat body p t star mark)"
proof (induction n arbitrary: p t star mark)
  case 0
  then show ?case by (simp add: glob_fuel_def)
next
  case (Suc n)
  note r = Suc.prems(2)
  have "t \<ge> length body \<Longrightarrow> ?case" by (subst glob_loop.simps) simp
  moreover have ?case if t: "t < length body" and p: "p < length pat" "pat ! p = STAR"
  proof -
    have "glob_within n pat body (p + 1) t (Some p) t = Some (glob_loop pat body (p + 1) t (Some p) t)"
      using r Suc.prems(1) glob_fuel_star [of mark t p pat body] p
      by (intro Suc.IH) (auto simp: glob_range_def)
    with t p show ?thesis by (subst glob_loop.simps) simp
  qed
  moreover have ?case
    if t: "t < length body" and p: "p < length pat" "pat ! p \<noteq> STAR" "pat ! p = QUEST \<or> fold_case (pat ! p) = fold_case (body ! t)"
  proof -
    have "glob_within n pat body (p + 1) (t + 1) star mark = Some (glob_loop pat body (p + 1) (t + 1) star mark)"
      using r Suc.prems(1) t p(1) by (intro Suc.IH) (auto simp: glob_range_def glob_fuel_def split: option.splits)
    with t p show ?thesis by (subst glob_loop.simps) simp
  qed
  moreover have ?case
    if t: "t < length body" and p: "\<not> (p < length pat \<and> (pat ! p = STAR \<or> pat ! p = QUEST \<or> fold_case (pat ! p) = fold_case (body ! t)))"
  proof (cases star)
    case None
    with t p show ?thesis by (subst glob_loop.simps) auto
  next
    case (Some s)
    have "glob_within n pat body (s + 1) (mark + 1) star (mark + 1) = Some (glob_loop pat body (s + 1) (mark + 1) star (mark + 1))"
      using r Suc.prems(1) t Some glob_fuel_retry [of mark body s p pat]
      by (intro Suc.IH) (auto simp: glob_range_def)
    with t p Some show ?thesis by (subst glob_loop.simps) auto
  qed
  ultimately show ?case by (meson not_le)
qed

text \<open>
  (C38) The matcher returns within (|pattern| + 1) (|text| + 1) iterations, so no pattern or name drives
  it into exponential time.
\<close>

theorem glob_match_bound:
  "glob_within ((length pat + 1) * (length body + 1)) pat body 0 0 None 0 = Some (glob_match pat body)"
  unfolding glob_match_def
  by (rule glob_within_enough) (simp_all add: glob_fuel_def glob_range_def)

end
