(* ===== verification/Lexer.thy ===== *)
theory Lexer
  imports Prelude
begin

text \<open>
  The lexical layer of the two policy languages of the kernel (the profiles of
  \<open>src/kernel/rust/mac.rs\<close> and the rules of \<open>src/kernel/rust/firewall.rs\<close>, which carry identical
  copies of these functions): words of a line, bounded decimal numbers and IPv4 addresses.
\<close>

section \<open>Words of a line\<close>

definition is_ws :: "u8 \<Rightarrow> bool" where
  "is_ws b \<longleftrightarrow> b = 0x20 \<or> b = 0x09"

text \<open>The token, if there is one, and the new value of \<open>pos\<close>.\<close>

definition next_token :: "bytes \<Rightarrow> usize \<Rightarrow> bytes option \<times> usize" where
  "next_token line pos =
    (let start = pos + length (takeWhile is_ws (drop pos line)) in
     if start \<ge> length line then (None, start)
     else let stop = start + length (takeWhile (\<lambda>b. \<not> is_ws b) (drop start line)) in
       (Some (drop start (take stop line)), stop))"

lemma next_token_Some:
  assumes "next_token line pos = (Some w, p)"
  shows "w \<noteq> []" and "list_all (\<lambda>b. \<not> is_ws b) w" and "pos < p" and "p \<le> length line"
proof -
  define start where "start = pos + length (takeWhile is_ws (drop pos line))"
  define tw where "tw = takeWhile (\<lambda>b. \<not> is_ws b) (drop start line)"
  have s: "start < length line" and w: "w = drop start (take (start + length tw) line)" and p: "p = start + length tw"
    using assms by (auto simp: next_token_def Let_def start_def tw_def split: if_splits)
  have "w = take (length tw) (drop start line)" using w by (simp add: drop_take)
  then have wt: "w = tw" unfolding tw_def by (simp add: takeWhile_eq_take [symmetric])
  have "\<not> is_ws (line ! start)"
  proof -
    have d: "drop pos line \<noteq> []" using s by (auto simp: start_def)
    have "length (takeWhile is_ws (drop pos line)) < length (drop pos line)"
      using s by (simp add: start_def)
    from nth_length_takeWhile [OF this] show ?thesis using s by (simp add: start_def)
  qed
  then have "tw \<noteq> []" using s by (simp add: tw_def flip: Cons_nth_drop_Suc)
  then show "w \<noteq> []" "pos < p" using wt p by (auto simp: start_def)
  show "list_all (\<lambda>b. \<not> is_ws b) w" unfolding wt tw_def list_all_iff by (auto dest: set_takeWhileD)
  have "length tw \<le> length (drop start line)" unfolding tw_def by (rule length_takeWhile_le)
  then show "p \<le> length line" using p s by simp
qed

lemma next_token_shrinks: "next_token line pos = (Some w, p) \<Longrightarrow> length line - p < length line - pos"
  using next_token_Some(3,4) [of line pos w p] by linarith

text \<open>The loop \<open>while let Some(tok) = next_token(line, &mut pos)\<close>: the words from \<open>pos\<close> on.\<close>

function line_tokens :: "bytes \<Rightarrow> usize \<Rightarrow> bytes list" where
  "line_tokens line pos =
    (case next_token line pos of
       (None, _) \<Rightarrow> []
     | (Some w, p) \<Rightarrow> w # line_tokens line p)"
  by pat_completeness auto
termination
  by (relation "measure (\<lambda>(line, pos). length line - pos)")
     (auto dest!: next_token_shrinks [OF sym])

declare line_tokens.simps [simp del]

text \<open>The same words by splitting at every blank and dropping the empty pieces.\<close>

fun words_acc :: "bytes \<Rightarrow> bytes \<Rightarrow> bytes list" where
  "words_acc acc [] = (if acc = [] then [] else [acc])"
| "words_acc acc (b # bs) =
    (if is_ws b then (if acc = [] then words_acc [] bs else acc # words_acc [] bs)
     else words_acc (acc @ [b]) bs)"

abbreviation words :: "bytes \<Rightarrow> bytes list" where "words \<equiv> words_acc []"

lemma words_skip: "list_all is_ws u \<Longrightarrow> words (u @ v) = words v"
  by (induction u) auto

lemma words_take: "list_all (\<lambda>b. \<not> is_ws b) u \<Longrightarrow> words_acc acc (u @ v) = words_acc (acc @ u) v"
  by (induction u arbitrary: acc) auto

lemma words_stop: "acc \<noteq> [] \<Longrightarrow> v = [] \<or> is_ws (hd v) \<Longrightarrow> words_acc acc v = acc # words v"
  by (cases v) auto

lemma list_all_takeWhile: "list_all P (takeWhile P xs)"
  unfolding list_all_iff by (auto dest: set_takeWhileD)

lemma next_token_words:
  "words (drop pos line) = (case next_token line pos of (None, _) \<Rightarrow> [] | (Some w, p) \<Rightarrow> w # words (drop p line))"
proof -
  let ?d = "drop pos line"
  define a where "a = takeWhile is_ws ?d"
  define r where "r = dropWhile is_ws ?d"
  define w where "w = takeWhile (\<lambda>b. \<not> is_ws b) r"
  have d: "?d = a @ r" unfolding a_def r_def by simp
  have s: "drop (pos + length a) line = r"
    using arg_cong [OF d, of "drop (length a)"] by (simp add: add.commute)
  have "words ?d = words r" unfolding d by (rule words_skip) (simp add: a_def list_all_takeWhile)
  also have "\<dots> = (case next_token line pos of (None, _) \<Rightarrow> [] | (Some w, p) \<Rightarrow> w # words (drop p line))"
  proof (cases "r = []")
    case True
    then have "length line \<le> pos + length a" using s by (metis drop_eq_Nil)
    with True show ?thesis by (simp add: next_token_def a_def)
  next
    case False
    then have l: "\<not> length line \<le> pos + length a" using s by (metis drop_eq_Nil)
    have "\<not> is_ws (hd r)" using False unfolding r_def by (rule hd_dropWhile)
    then have w: "w \<noteq> []" using False unfolding w_def by (cases r) auto
    define z where "z = dropWhile (\<lambda>b. \<not> is_ws b) r"
    have rz: "r = w @ z" unfolding w_def z_def by simp
    have t: "drop (pos + length a) (take (pos + length a + length w) line) = w"
    proof -
      have "drop (pos + length a) (take (pos + length a + length w) line) = take (length w) r"
        unfolding s [symmetric] by (simp add: drop_take)
      then show ?thesis unfolding rz by simp
    qed
    have z: "drop (pos + length a + length w) line = z"
      using arg_cong [OF s, of "drop (length w)"] rz by (simp add: add.commute add.left_commute)
    have nt: "next_token line pos = (Some w, pos + length a + length w)"
      using l t by (simp add: next_token_def a_def [symmetric] s w_def [symmetric])
    have "z = [] \<or> is_ws (hd z)" unfolding z_def using hd_dropWhile [of "\<lambda>b. \<not> is_ws b" r] by blast
    then have "words r = w # words z" unfolding rz
      by (subst words_take) (auto simp: w_def list_all_takeWhile intro!: words_stop w [unfolded w_def])
    then show ?thesis by (simp add: nt z)
  qed
  finally show ?thesis .
qed

theorem line_tokens_words: "line_tokens line pos = words (drop pos line)"
proof (induction line pos rule: line_tokens.induct)
  case (1 line pos)
  show ?case
  proof (cases "next_token line pos")
    case (Pair t p)
    with 1 show ?thesis
      by (subst line_tokens.simps, subst next_token_words) (auto split: option.split)
  qed
qed

section \<open>Numbers\<close>

text \<open>The loop of \<open>parse_u32_dec\<close> over the digits; \<open>v\<close> is the \<open>u64\<close> accumulator.\<close>

fun parse_dec_loop :: "u32 \<Rightarrow> u64 \<Rightarrow> bytes \<Rightarrow> u64 option" where
  "parse_dec_loop mx v [] = Some v"
| "parse_dec_loop mx v (b # bs) =
    (if \<not> is_ascii_digit b then None
     else let v' = v * 10 + ucast (b - 0x30) in
       if v' > ucast mx then None else parse_dec_loop mx v' bs)"

definition parse_u32_dec :: "bytes \<Rightarrow> u32 \<Rightarrow> u32 option" where
  "parse_u32_dec s mx =
    (if s = [] \<or> length s > 10 then None
     else map_option ucast (parse_dec_loop mx 0 s))"

text \<open>The loop of \<open>parse_ip\<close> over the dotted parts.\<close>

fun parse_ip_loop :: "i32 \<Rightarrow> u32 \<Rightarrow> bytes list \<Rightarrow> u32 option" where
  "parse_ip_loop parts ip [] = (if parts = 4 then Some ip else None)"
| "parse_ip_loop parts ip (part # rest) =
    (if parts + 1 > 4 then None
     else case parse_u32_dec part 255 of
        None \<Rightarrow> None
      | Some v \<Rightarrow> parse_ip_loop (parts + 1) (or (push_bit 8 ip) v) rest)"

definition parse_ip :: "bytes \<Rightarrow> u32 option" where
  "parse_ip s = parse_ip_loop 0 0 (split_on 0x2E s)"

section \<open>What they compute\<close>

definition dec_value :: "bytes \<Rightarrow> nat" where
  "dec_value s = foldl (\<lambda>v b. 10 * v + (unat b - 48)) 0 s"

lemma dec_value_mono: "v \<le> foldl (\<lambda>v b. 10 * v + (unat b - 48)) v s"
proof (induction s arbitrary: v)
  case (Cons b s)
  have "v \<le> 10 * v + (unat b - 48)" by simp
  also have "\<dots> \<le> foldl (\<lambda>v b. 10 * v + (unat b - 48)) (10 * v + (unat b - 48)) s" by (rule Cons.IH)
  finally show ?case by simp
qed simp

lemma digit_step:
  fixes v :: u64
  assumes "unat v < 2 ^ 32" and "is_ascii_digit b"
  shows "unat (v * 10 + ucast (b - 0x30)) = 10 * unat v + (unat b - 48)" and "unat b - 48 \<le> 9"
proof -
  have b: "48 \<le> unat b" "unat b \<le> 57" using assms(2) by (auto simp: is_ascii_digit_def word_le_nat_alt)
  then have "unat (b - 0x30) = unat b - 48" by (subst unat_sub) (auto simp: word_le_nat_alt)
  then have u: "unat (ucast (b - 0x30) :: u64) = unat b - 48" by (simp add: unat_ucast_up)
  have m: "unat (v * 10) = unat v * 10" using assms(1) by (subst unat_mult_small) auto
  show "unat (v * 10 + ucast (b - 0x30)) = 10 * unat v + (unat b - 48)"
    using assms(1) b by (subst unat_add_small) (auto simp: u m)
  show "unat b - 48 \<le> 9" using b by simp
qed

lemma parse_dec_loop_value:
  assumes "unat v \<le> unat mx"
  shows "map_option unat (parse_dec_loop mx v s) =
    (if list_all is_ascii_digit s \<and> foldl (\<lambda>v b. 10 * v + (unat b - 48)) (unat v) s \<le> unat mx
     then Some (foldl (\<lambda>v b. 10 * v + (unat b - 48)) (unat v) s) else None)"
  using assms
proof (induction s arbitrary: v)
  case Nil
  then show ?case by simp
next
  case (Cons b s)
  let ?v = "v * 10 + ucast (b - 0x30) :: u64"
  show ?case
  proof (cases "is_ascii_digit b")
    case False
    then show ?thesis by simp
  next
    case True
    have v: "unat v < 2 ^ 32" using Cons.prems unat_bound [of mx] by simp
    note st = digit_step [OF v True]
    have cmp: "?v > ucast mx \<longleftrightarrow> \<not> unat ?v \<le> unat mx" by (simp add: word_less_nat_alt unat_ucast_up not_le)
    show ?thesis
    proof (cases "unat ?v \<le> unat mx")
      case True
      with Cons.IH [OF this] show ?thesis using cmp st \<open>is_ascii_digit b\<close> by simp
    next
      case False
      then have "\<not> foldl (\<lambda>v b. 10 * v + (unat b - 48)) (unat ?v) s \<le> unat mx"
        using dec_value_mono [of "unat ?v" s] by linarith
      with False cmp st show ?thesis by simp
    qed
  qed
qed

text \<open>
  The decimal parser accepts exactly the strings of one to ten digits whose value is at most the
  given maximum, and returns that value; the accumulator never overflows on the way.
\<close>

theorem parse_u32_dec_value:
  "parse_u32_dec s mx =
    (if s \<noteq> [] \<and> length s \<le> 10 \<and> list_all is_ascii_digit s \<and> dec_value s \<le> unat mx
     then Some (of_nat (dec_value s)) else None)"
proof -
  have v: "map_option unat (parse_dec_loop mx 0 s) =
      (if list_all is_ascii_digit s \<and> dec_value s \<le> unat mx then Some (dec_value s) else None)"
    using parse_dec_loop_value [of 0 mx s] by (simp add: dec_value_def)
  show ?thesis
  proof (cases "parse_dec_loop mx 0 s")
    case None
    with v have "\<not> (list_all is_ascii_digit s \<and> dec_value s \<le> unat mx)" by (auto split: if_splits)
    with None show ?thesis by (auto simp: parse_u32_dec_def)
  next
    case (Some w)
    with v have w: "list_all is_ascii_digit s" "dec_value s \<le> unat mx" "dec_value s = unat w"
      by (auto split: if_splits)
    with Some show ?thesis by (simp add: parse_u32_dec_def)
  qed
qed

text \<open>An octet of an address, as the parser accepts it.\<close>

definition octet :: "bytes \<Rightarrow> bool" where
  "octet p \<longleftrightarrow> p \<noteq> [] \<and> length p \<le> 10 \<and> list_all is_ascii_digit p \<and> dec_value p \<le> 255"

lemma parse_octet: "parse_u32_dec p 255 = (if octet p then Some (of_nat (dec_value p)) else None)"
  by (simp add: parse_u32_dec_value octet_def)

lemma push_octet:
  assumes "unat ip < 2 ^ 24" and "v \<le> 255"
  shows "unat (or (push_bit 8 ip) (of_nat v) :: u32) = unat ip * 256 + v"
proof -
  have "and (push_bit 8 ip) (of_nat v) = 0"
  proof (rule bit_word_eqI)
    fix n assume n: "n < LENGTH(32)"
    have "\<not> bit (of_nat v :: u32) n" if "8 \<le> n"
    proof -
      have "v < 2 ^ n" using assms(2) power_increasing [OF that, of "2::nat"] by simp
      then have "\<not> bit v n" by (simp add: bit_iff_odd)
      then show ?thesis by (simp add: bit_of_nat_iff)
    qed
    then show "bit (and (push_bit 8 ip) (of_nat v)) n = bit (0 :: u32) n"
      by (auto simp: bit_and_iff bit_push_bit_iff)
  qed
  then have "or (push_bit 8 ip) (of_nat v) = push_bit 8 ip + of_nat v" by (simp only: disjunctive_add_eq_or)
  then show ?thesis using assms
    by (simp add: push_bit_eq_mult unat_word_ariths unat_of_nat)
qed

text \<open>
  An address is accepted exactly when it has four parts, each an octet, and is then the four
  octets from the most significant down.
\<close>

theorem parse_ip_value:
  "map_option unat (parse_ip s) =
    (case split_on 0x2E s of
       [a, b, c, d] \<Rightarrow>
         if octet a \<and> octet b \<and> octet c \<and> octet d
         then Some (((dec_value a * 256 + dec_value b) * 256 + dec_value c) * 256 + dec_value d)
         else None
     | _ \<Rightarrow> None)"
proof -
  define f where "f ip p = (or (push_bit 8 ip) (of_nat (dec_value p)) :: u32)" for ip p
  have u: "unat (f ip p) = unat ip * 256 + dec_value p" if "octet p" "unat ip < 2 ^ 24" for p ip
    using push_octet [of ip "dec_value p"] that by (simp add: octet_def f_def)
  have b: "octet p \<Longrightarrow> dec_value p \<le> 255" for p by (simp add: octet_def)
  have loop: "parse_ip_loop n ip (p # ps) =
      (if n + 1 > 4 then None else if octet p then parse_ip_loop (n + 1) (f ip p) ps else None)" for n ip p ps
    by (simp add: parse_octet f_def)
  note [simp del] = parse_ip_loop.simps(2)
  show ?thesis
  proof (cases "\<exists>a b c d. split_on 0x2E s = [a, b, c, d]")
    case True
    then obtain a b c d where "split_on 0x2E s = [a, b, c, d]" by blast
    moreover have "unat (f (f (f (f 0 a) b) c) d) =
        ((dec_value a * 256 + dec_value b) * 256 + dec_value c) * 256 + dec_value d"
      if o: "octet a" "octet b" "octet c" "octet d"
      using b [OF o(1)] b [OF o(2)] b [OF o(3)] u [OF o(1), of 0] u [OF o(2), of "f 0 a"]
        u [OF o(3), of "f (f 0 a) b"] u [OF o(4), of "f (f (f 0 a) b) c"] by simp
    ultimately show ?thesis by (simp add: parse_ip_def loop)
  next
    case False
    then show ?thesis
      by (simp add: parse_ip_def loop split: list.splits)
  qed
qed

end
