(* ===== verification/Mac.thy ===== *)
theory Mac
  imports Glob Lexer
begin

text \<open>
  Mandatory access control (\<open>src/kernel/rust/mac.rs\<close>): the profile language, the table of loaded
  profiles, the evaluation of an operation against the profiles that confine a process, the audit
  ring, and the functions the C kernel calls.
\<close>

section \<open>Constants\<close>

definition MAX_PROFILES :: usize where [kconst]: "MAX_PROFILES = 32"
definition MAX_STACK :: usize where [kconst]: "MAX_STACK = 4"
definition MAX_FILE_RULES :: usize where [kconst]: "MAX_FILE_RULES = 16"
definition MAX_NET_RULES :: usize where [kconst]: "MAX_NET_RULES = 8"
definition MAX_EXEC_RULES :: usize where [kconst]: "MAX_EXEC_RULES = 8"
definition NAME_LEN :: usize where [kconst]: "NAME_LEN = 16"
definition PAT_LEN :: usize where [kconst]: "PAT_LEN = 24"
definition MAX_PROFILE_TEXT :: usize where [kconst]: "MAX_PROFILE_TEXT = 4096"
definition MAX_LINE :: usize where [kconst]: "MAX_LINE = 256"
definition AUDIT_LEN :: usize where [kconst]: "AUDIT_LEN = 16"

abbreviation SYSCALL_LIMIT :: u32 where "SYSCALL_LIMIT \<equiv> 128"

abbreviation EPERM :: i32 where "EPERM \<equiv> 1"
abbreviation ENOENT :: i32 where "ENOENT \<equiv> 2"
abbreviation E2BIG :: i32 where "E2BIG \<equiv> 7"
abbreviation EINVAL :: i32 where "EINVAL \<equiv> 22"
abbreviation ENOSPC :: i32 where "ENOSPC \<equiv> 28"

abbreviation FILE_READ :: u8 where "FILE_READ \<equiv> 1"
abbreviation FILE_WRITE :: u8 where "FILE_WRITE \<equiv> 2"
abbreviation FILE_DELETE :: u8 where "FILE_DELETE \<equiv> 4"
abbreviation NET_CONNECT :: u8 where "NET_CONNECT \<equiv> 1"
abbreviation NET_BIND :: u8 where "NET_BIND \<equiv> 2"
abbreviation NET_SEND :: u8 where "NET_SEND \<equiv> 4"

abbreviation KIND_SYSCALL :: u8 where "KIND_SYSCALL \<equiv> 1"
abbreviation KIND_FILE :: u8 where "KIND_FILE \<equiv> 2"
abbreviation KIND_NET :: u8 where "KIND_NET \<equiv> 3"
abbreviation KIND_EXEC :: u8 where "KIND_EXEC \<equiv> 4"

abbreviation DENIER_INVALID :: i32 where "DENIER_INVALID \<equiv> 255"

abbreviation SYS_EXIT :: u32 where "SYS_EXIT \<equiv> 2"
abbreviation SYS_MAC_INFO :: u32 where "SYS_MAC_INFO \<equiv> 71"

definition SYSCALL_NAMES :: "bytes list" where
  "SYSCALL_NAMES = map byte_str
   ['''', ''write'', ''exit'', ''yield'', ''open'', ''read'', ''close'', ''net_send'', ''spawn'', ''exec'',
    ''wait'', ''sbrk'', ''fork'', ''read_key'', ''list_files'', ''rtc_read'', ''lspci'', ''beep'',
    ''write_file'', ''delete_file'', ''gfx_enter'', ''gfx_exit'', ''gfx_put_pixel'',
    ''gfx_fill_rect'', ''mouse_read'', ''ping_start'', ''ping_poll'', ''pipe'', ''write_handle'',
    ''login'', ''getuid'', ''sudo'', ''shutdown'', ''socket'', ''bind'', ''listen'', ''accept'',
    ''connect'', ''exec_trusted'', ''dns_resolve'', ''tftp_fetch'', ''wait_nonblock'',
    ''exec_env'', ''exec_trusted_env'', ''socket_udp'', ''sendto'', ''recvfrom'', ''fb_info'',
    ''fb_acquire'', ''fb_release'', ''fb_create'', ''fb_destroy'', ''fb_present'',
    ''fb_readback'', ''shm_create'', ''shm_grant'', ''shm_map'', ''shm_unmap'', ''shm_destroy'',
    ''shm_info'', ''msg_open'', ''msg_close'', ''msg_send'', ''msg_recv'', ''msg_service'',
    ''msg_ctl'', ''audio_open'', ''audio_write'', ''audio_ctl'', ''audio_close'', ''rlimit'',
    ''mac_info'', ''mac_ctl'', ''fw_info'', ''fw_ctl'']"

section \<open>Rules and policies\<close>

record file_rule =
  fr_pat :: bytes
  fr_len :: u8
  fr_perms :: u8

definition file_rule_EMPTY :: file_rule where
  "file_rule_EMPTY = \<lparr>fr_pat = replicate PAT_LEN 0, fr_len = 0, fr_perms = 0\<rparr>"

definition file_rule_pattern :: "file_rule \<Rightarrow> bytes" where
  "file_rule_pattern r = take (unat (fr_len r)) (fr_pat r)"

record net_rule =
  any_ip :: bool
  ip :: u32
  ops :: u8
  port_lo :: u16
  port_hi :: u16

definition net_rule_EMPTY :: net_rule where
  "net_rule_EMPTY = \<lparr>any_ip = False, ip = 0, ops = 0, port_lo = 0, port_hi = 0\<rparr>"

record exec_rule =
  er_pat :: bytes
  er_len :: u8

definition exec_rule_EMPTY :: exec_rule where
  "exec_rule_EMPTY = \<lparr>er_pat = replicate PAT_LEN 0, er_len = 0\<rparr>"

definition exec_rule_pattern :: "exec_rule \<Rightarrow> bytes" where
  "exec_rule_pattern r = take (unat (er_len r)) (er_pat r)"

record policy =
  complain :: bool
  all_syscalls :: bool
  syscalls :: "u32 list"
  files :: "file_rule list"
  nfiles :: u8
  nets :: "net_rule list"
  nnets :: u8
  execs :: "exec_rule list"
  nexecs :: u8

definition policy_EMPTY :: policy where
  "policy_EMPTY = \<lparr>complain = False, all_syscalls = False, syscalls = replicate 4 0,
     files = replicate MAX_FILE_RULES file_rule_EMPTY, nfiles = 0,
     nets = replicate MAX_NET_RULES net_rule_EMPTY, nnets = 0,
     execs = replicate MAX_EXEC_RULES exec_rule_EMPTY, nexecs = 0\<rparr>"

definition is_complain :: "policy \<Rightarrow> bool" where
  "is_complain pol = complain pol"

definition allows_syscall :: "policy \<Rightarrow> u32 \<Rightarrow> bool" where
  "allows_syscall pol n =
    (if n = SYS_EXIT \<or> n = SYS_MAC_INFO then True
     else if n \<ge> SYSCALL_LIMIT then False
     else all_syscalls pol \<or>
       and (drop_bit (unat (n mod 32)) (syscalls pol ! unat (n div 32))) 1 = 1)"

definition allows_file :: "policy \<Rightarrow> bytes \<Rightarrow> u8 \<Rightarrow> bool" where
  "allows_file pol name op =
    (if op = 0 then False
     else let granted = foldl (\<lambda>acc r. or acc (fr_perms r)) 0
              (filter (\<lambda>r. glob_match (file_rule_pattern r) name) (take (unat (nfiles pol)) (files pol)))
       in and granted op = op)"

definition allows_net :: "policy \<Rightarrow> u8 \<Rightarrow> u32 \<Rightarrow> u16 \<Rightarrow> bool" where
  "allows_net pol op addr port =
    list_ex (\<lambda>r. and (ops r) op \<noteq> 0 \<and> (any_ip r \<or> ip r = addr) \<and> port \<ge> port_lo r \<and> port \<le> port_hi r)
      (take (unat (nnets pol)) (nets pol))"

definition allows_exec :: "policy \<Rightarrow> bytes \<Rightarrow> bool" where
  "allows_exec pol name =
    list_ex (\<lambda>r. glob_match (exec_rule_pattern r) name) (take (unat (nexecs pol)) (execs pol))"

definition is_policy_file :: "bytes \<Rightarrow> bool" where
  "is_policy_file name \<longleftrightarrow> length name \<ge> 4 \<and> glob_match (byte_str ''*.MAC'') name"

section \<open>The parser\<close>

datatype parse_error =
    TooLarge
  | BadByte
  | LineTooLong u16
  | Syntax u16
  | UnknownSyscall u16
  | BadPattern u16
  | BadAddress u16
  | TooManyRules u16
  | DuplicateMode u16

definition valid_pattern :: "bytes \<Rightarrow> bool" where
  "valid_pattern p \<longleftrightarrow> p \<noteq> [] \<and> length p \<le> PAT_LEN
     \<and> list_all (\<lambda>b. is_ascii_alphanumeric b \<or> b \<in> set (byte_str ''._-~$*?'')) p"

definition parse_ports :: "bytes \<Rightarrow> (u16 \<times> u16) option" where
  "parse_ports s =
    (if s = byte_str ''*'' then Some (0, 65535)
     else case position (\<lambda>b. b = 0x2D) s of
        None \<Rightarrow> (case parse_u32_dec s 65535 of None \<Rightarrow> None | Some v \<Rightarrow> Some (ucast v, ucast v))
      | Some i \<Rightarrow>
         (case parse_u32_dec (take i s) 65535 of
            None \<Rightarrow> None
          | Some lo \<Rightarrow>
             (case parse_u32_dec (drop (i + 1) s) 65535 of
                None \<Rightarrow> None
              | Some hi \<Rightarrow>
                 if (ucast lo :: u16) \<le> ucast hi then Some (ucast lo, ucast hi) else None)))"

definition lookup_syscall :: "bytes \<Rightarrow> u32 option" where
  "lookup_syscall name =
    map_option (\<lambda>i. of_nat (i + 1))
      (position (\<lambda>candidate. length candidate = length name
          \<and> list_all (\<lambda>(a, b). fold_case a = fold_case b) (zip candidate name))
        (tl SYSCALL_NAMES))"

text \<open>The \<open>syscall\<close> loop: a star or known names.\<close>

fun parse_syscalls :: "u16 \<Rightarrow> bytes list \<Rightarrow> policy \<Rightarrow> (policy, parse_error) result" where
  "parse_syscalls line_no [] pol = Ok pol"
| "parse_syscalls line_no (tok # toks) pol =
    (if tok = byte_str ''*'' then parse_syscalls line_no toks (pol\<lparr>all_syscalls := True\<rparr>)
     else case lookup_syscall tok of
        None \<Rightarrow> Err (UnknownSyscall line_no)
      | Some n \<Rightarrow>
         parse_syscalls line_no toks
           (pol\<lparr>syscalls := (syscalls pol)[unat (n div 32) :=
              or (syscalls pol ! unat (n div 32)) (push_bit (unat (n mod 32)) 1)]\<rparr>))"

text \<open>The letters of the \<open>file\<close> and \<open>net\<close> directives, the first for the bits 1, 2 and 4.\<close>

fun parse_file_perms :: "u16 \<Rightarrow> bytes \<Rightarrow> u8 \<Rightarrow> (u8, parse_error) result" where
  "parse_file_perms line_no [] perms = Ok perms"
| "parse_file_perms line_no (c # cs) perms =
    (if c = 0x72 then parse_file_perms line_no cs (or perms FILE_READ)
     else if c = 0x77 then parse_file_perms line_no cs (or perms FILE_WRITE)
     else if c = 0x64 then parse_file_perms line_no cs (or perms FILE_DELETE)
     else Err (Syntax line_no))"

fun parse_net_ops :: "u16 \<Rightarrow> bytes \<Rightarrow> u8 \<Rightarrow> (u8, parse_error) result" where
  "parse_net_ops line_no [] perms = Ok perms"
| "parse_net_ops line_no (c # cs) perms =
    (if c = 0x63 then parse_net_ops line_no cs (or perms NET_CONNECT)
     else if c = 0x62 then parse_net_ops line_no cs (or perms NET_BIND)
     else if c = 0x73 then parse_net_ops line_no cs (or perms NET_SEND)
     else Err (Syntax line_no))"

fun parse_file_rules :: "u16 \<Rightarrow> u8 \<Rightarrow> bytes list \<Rightarrow> policy \<Rightarrow> (policy, parse_error) result" where
  "parse_file_rules line_no perms [] pol = Ok pol"
| "parse_file_rules line_no perms (pat # toks) pol =
    (if \<not> valid_pattern pat then Err (BadPattern line_no)
     else if unat (nfiles pol) \<ge> MAX_FILE_RULES then Err (TooManyRules line_no)
     else
       let rule = file_rule_EMPTY\<lparr>fr_pat := copy_prefix pat (fr_pat file_rule_EMPTY),
                    fr_len := of_nat (length pat), fr_perms := perms\<rparr> in
       parse_file_rules line_no perms toks
         (pol\<lparr>files := (files pol)[unat (nfiles pol) := rule], nfiles := nfiles pol + 1\<rparr>))"

text \<open>\<open>rposition\<close> of the colon: the last one.\<close>

definition rposition :: "('a \<Rightarrow> bool) \<Rightarrow> 'a list \<Rightarrow> usize option" where
  "rposition P xs = map_option (\<lambda>i. length xs - 1 - i) (position P (rev xs))"

definition parse_peer :: "u16 \<Rightarrow> u8 \<Rightarrow> bytes \<Rightarrow> (net_rule, parse_error) result" where
  "parse_peer line_no perms addr =
    (case rposition (\<lambda>b. b = 0x3A) addr of
       None \<Rightarrow> Err (BadAddress line_no)
     | Some colon \<Rightarrow>
        let ip_s = take colon addr; port_s = drop (colon + 1) addr in
        case (if ip_s = byte_str ''*'' then Some (True, 0) else map_option (Pair False) (parse_ip ip_s)) of
          None \<Rightarrow> Err (BadAddress line_no)
        | Some (any, a) \<Rightarrow>
           (case parse_ports port_s of
              None \<Rightarrow> Err (BadAddress line_no)
            | Some (lo, hi) \<Rightarrow> Ok \<lparr>any_ip = any, ip = a, ops = perms, port_lo = lo, port_hi = hi\<rparr>))"

fun parse_net_rules :: "u16 \<Rightarrow> u8 \<Rightarrow> bytes list \<Rightarrow> policy \<Rightarrow> (policy, parse_error) result" where
  "parse_net_rules line_no perms [] pol = Ok pol"
| "parse_net_rules line_no perms (addr # toks) pol =
    (case parse_peer line_no perms addr of
       Err e \<Rightarrow> Err e
     | Ok rule \<Rightarrow>
        if unat (nnets pol) \<ge> MAX_NET_RULES then Err (TooManyRules line_no)
        else parse_net_rules line_no perms toks
          (pol\<lparr>nets := (nets pol)[unat (nnets pol) := rule], nnets := nnets pol + 1\<rparr>))"

fun parse_exec_rules :: "u16 \<Rightarrow> bytes list \<Rightarrow> policy \<Rightarrow> (policy, parse_error) result" where
  "parse_exec_rules line_no [] pol = Ok pol"
| "parse_exec_rules line_no (pat # toks) pol =
    (if \<not> valid_pattern pat then Err (BadPattern line_no)
     else if unat (nexecs pol) \<ge> MAX_EXEC_RULES then Err (TooManyRules line_no)
     else
       let rule = exec_rule_EMPTY\<lparr>er_pat := copy_prefix pat (er_pat exec_rule_EMPTY),
                    er_len := of_nat (length pat)\<rparr> in
       parse_exec_rules line_no toks
         (pol\<lparr>execs := (execs pol)[unat (nexecs pol) := rule], nexecs := nexecs pol + 1\<rparr>))"

text \<open>
  One directive, as its words.  The code takes the words one at a time from the line; a loop over the
  remaining words that finds none is a syntax error.
\<close>

definition parse_allow :: "u16 \<Rightarrow> bytes list \<Rightarrow> policy \<Rightarrow> (policy, parse_error) result" where
  "parse_allow line_no toks pol =
    (case toks of
       [] \<Rightarrow> Err (Syntax line_no)
     | kind # args \<Rightarrow>
        if kind = byte_str ''syscall'' then
          if args = [] then Err (Syntax line_no) else parse_syscalls line_no args pol
        else if kind = byte_str ''file'' then
          (case args of
             [] \<Rightarrow> Err (Syntax line_no)
           | perm_tok # pats \<Rightarrow>
              (case parse_file_perms line_no perm_tok 0 of
                 Err e \<Rightarrow> Err e
               | Ok perms \<Rightarrow>
                  if pats = [] then Err (Syntax line_no) else parse_file_rules line_no perms pats pol))
        else if kind = byte_str ''net'' then
          (case args of
             [] \<Rightarrow> Err (Syntax line_no)
           | op_tok # addrs \<Rightarrow>
              (case parse_net_ops line_no op_tok 0 of
                 Err e \<Rightarrow> Err e
               | Ok perms \<Rightarrow>
                  if addrs = [] then Err (Syntax line_no) else parse_net_rules line_no perms addrs pol))
        else if kind = byte_str ''exec'' then
          if args = [] then Err (Syntax line_no) else parse_exec_rules line_no args pol
        else Err (Syntax line_no))"

definition parse_mode :: "u16 \<Rightarrow> bytes list \<Rightarrow> policy \<Rightarrow> (policy, parse_error) result" where
  "parse_mode line_no args pol =
    (case args of
       [] \<Rightarrow> Err (Syntax line_no)
     | arg # extra \<Rightarrow>
        if arg = byte_str ''enforce'' then
          if extra \<noteq> [] then Err (Syntax line_no) else Ok (pol\<lparr>complain := False\<rparr>)
        else if arg = byte_str ''complain'' then
          if extra \<noteq> [] then Err (Syntax line_no) else Ok (pol\<lparr>complain := True\<rparr>)
        else Err (Syntax line_no))"

text \<open>A raw line: the carriage return and the comment are cut off.\<close>

definition strip_cr :: "bytes \<Rightarrow> bytes" where
  "strip_cr raw = (if raw \<noteq> [] \<and> last raw = 0x0D then butlast raw else raw)"

definition strip_comment :: "bytes \<Rightarrow> bytes" where
  "strip_comment line = (case position (\<lambda>b. b = 0x23) line of None \<Rightarrow> line | Some i \<Rightarrow> take i line)"

definition directive :: "bytes \<Rightarrow> bytes list" where
  "directive raw = line_tokens (strip_comment (strip_cr raw)) 0"

fun parse_lines :: "u16 \<Rightarrow> bool \<Rightarrow> bytes list \<Rightarrow> policy \<Rightarrow> (policy, parse_error) result" where
  "parse_lines n seen_mode [] pol = Ok pol"
| "parse_lines n seen_mode (raw # raws) pol =
    (let line_no = saturating_add n 1 in
     if length (strip_cr raw) > MAX_LINE then Err (LineTooLong line_no)
     else case directive raw of
        [] \<Rightarrow> parse_lines line_no seen_mode raws pol
      | word # toks \<Rightarrow>
         if word = byte_str ''mode'' then
           if seen_mode then Err (DuplicateMode line_no)
           else case parse_mode line_no toks pol of
              Err e \<Rightarrow> Err e
            | Ok pol' \<Rightarrow> parse_lines line_no True raws pol'
         else if word \<noteq> byte_str ''allow'' then Err (Syntax line_no)
         else case parse_allow line_no toks pol of
            Err e \<Rightarrow> Err e
          | Ok pol' \<Rightarrow> parse_lines line_no seen_mode raws pol')"

definition parse :: "bytes \<Rightarrow> (policy, parse_error) result" where
  "parse text =
    (if length text > MAX_PROFILE_TEXT then Err TooLarge
     else if \<not> list_all (\<lambda>b. b = 0x0A \<or> b = 0x0D \<or> b = 0x09 \<or> 0x20 \<le> b \<and> b < 0x7F) text then Err BadByte
     else parse_lines 0 False (split_on 0x0A text) policy_EMPTY)"

section \<open>The profile table\<close>

record slot =
  in_use :: bool
  name :: bytes
  name_len :: u8
  profile :: policy
  allowed :: u32
  denied :: u32
  complained :: u32

definition slot_EMPTY :: slot where
  "slot_EMPTY = \<lparr>in_use = False, name = replicate NAME_LEN 0, name_len = 0, profile = policy_EMPTY,
     allowed = 0, denied = 0, complained = 0\<rparr>"

definition slot_name :: "slot \<Rightarrow> bytes" where
  "slot_name s = take (unat (name_len s)) (name s)"

record audit_rec =
  ar_kind :: u8
  ar_complained :: bool
  ar_pid :: i32
  ar_profile :: u16
  ar_a :: u32
  ar_b :: u32

definition audit_rec_EMPTY :: audit_rec where
  "audit_rec_EMPTY = \<lparr>ar_kind = 0, ar_complained = False, ar_pid = 0, ar_profile = 0, ar_a = 0, ar_b = 0\<rparr>"

record mac_stack =
  ids :: "u16 list"
  stack_n :: usize

record mac =
  slots :: "slot list"
  frozen :: bool
  total_allowed :: u32
  total_denied :: u32
  total_complained :: u32
  audit :: "audit_rec list"
  audit_next :: u32

datatype load_error = BadName | Parse parse_error | Full | Frozen

fun load_errno :: "load_error \<Rightarrow> i32" where
  "load_errno BadName = EINVAL"
| "load_errno (Parse _) = EINVAL"
| "load_errno Full = ENOSPC"
| "load_errno Frozen = EPERM"

definition valid_profile_name :: "bytes \<Rightarrow> bool" where
  "valid_profile_name n \<longleftrightarrow> n \<noteq> [] \<and> length n \<le> NAME_LEN
     \<and> list_all (\<lambda>b. is_ascii_alphanumeric b \<or> b = 0x5F \<or> b = 0x2D) n"

definition mac_new :: mac where
  "mac_new = \<lparr>slots = replicate MAX_PROFILES slot_EMPTY, frozen = False, total_allowed = 0,
     total_denied = 0, total_complained = 0, audit = replicate AUDIT_LEN audit_rec_EMPTY, audit_next = 0\<rparr>"

definition is_frozen :: "mac \<Rightarrow> bool" where
  "is_frozen m = frozen m"

definition freeze :: "mac \<Rightarrow> mac" where
  "freeze m = m\<lparr>frozen := True\<rparr>"

definition loaded :: "mac \<Rightarrow> usize" where
  "loaded m = count_if in_use (slots m)"

definition load :: "mac \<Rightarrow> bytes \<Rightarrow> bytes \<Rightarrow> (u16, load_error) result \<times> mac" where
  "load m nm text =
    (if \<not> valid_profile_name nm then (Err BadName, m)
     else case parse text of
        Err e \<Rightarrow> (Err (Parse e), m)
      | Ok pol \<Rightarrow>
         (case position (\<lambda>s. in_use s \<and> slot_name s = nm \<and> profile s = pol) (slots m) of
            Some i \<Rightarrow> (Ok (of_nat (i + 1)), m)
          | None \<Rightarrow>
             if frozen m then (Err Frozen, m)
             else case position (\<lambda>s. \<not> in_use s) (slots m) of
                Some i \<Rightarrow>
                  (Ok (of_nat (i + 1)),
                   m\<lparr>slots := (slots m)[i := slot_EMPTY\<lparr>in_use := True,
                        name := copy_prefix nm (name slot_EMPTY),
                        name_len := of_nat (length nm), profile := pol\<rparr>]\<rparr>)
              | None \<Rightarrow> (Err Full, m)))"

definition exec_stack :: "u16 list \<Rightarrow> u16 \<Rightarrow> (mac_stack, i32) result" where
  "exec_stack parent new_id =
    (if length parent > MAX_STACK then Err E2BIG
     else
       let st = \<lparr>ids = copy_prefix parent (replicate MAX_STACK 0), stack_n = length parent\<rparr> in
       if new_id \<noteq> 0 \<and> new_id \<notin> set parent then
         if stack_n st \<ge> MAX_STACK then Err E2BIG
         else Ok (st\<lparr>ids := (ids st)[stack_n st := new_id], stack_n := stack_n st + 1\<rparr>)
       else Ok st)"

definition record_audit :: "u8 \<Rightarrow> bool \<Rightarrow> i32 \<Rightarrow> u16 \<Rightarrow> u32 \<Rightarrow> u32 \<Rightarrow> mac \<Rightarrow> mac" where
  "record_audit kind compl pid prof a b m =
    m\<lparr>audit := (audit m)[unat (audit_next m) mod AUDIT_LEN :=
          \<lparr>ar_kind = kind, ar_complained = compl, ar_pid = pid, ar_profile = prof, ar_a = a, ar_b = b\<rparr>],
      audit_next := audit_next m + 1\<rparr>"

definition audit_recent :: "mac \<Rightarrow> usize \<Rightarrow> audit_rec option" where
  "audit_recent m i =
    (if i \<ge> AUDIT_LEN \<or> of_nat i \<ge> audit_next m then None
     else Some (audit m ! ((unat (audit_next m) - 1 - i) mod AUDIT_LEN)))"

section \<open>Evaluation\<close>

definition slot_of :: "mac \<Rightarrow> u16 \<Rightarrow> slot" where
  "slot_of m i = slots m ! (unat i - 1)"

definition names_profile :: "mac \<Rightarrow> u16 \<Rightarrow> bool" where
  "names_profile m i \<longleftrightarrow> \<not> (unat i = 0 \<or> unat i > MAX_PROFILES \<or> \<not> in_use (slot_of m i))"

text \<open>The loop of \<open>eval\<close> over the stack; \<open>first_complain\<close> is its variable.\<close>

fun eval_loop :: "u8 \<Rightarrow> i32 \<Rightarrow> u32 \<Rightarrow> u32 \<Rightarrow> (policy \<Rightarrow> bool) \<Rightarrow> u16 list \<Rightarrow> u16 \<Rightarrow> mac \<Rightarrow> i32 \<times> mac" where
  "eval_loop kind pid a b ok [] first_complain m =
    (int (unat first_complain), m\<lparr>total_allowed := total_allowed m + 1\<rparr>)"
| "eval_loop kind pid a b ok (i # stack) first_complain m =
    (if \<not> names_profile m i then
       (- DENIER_INVALID, record_audit kind False pid 0 a b (m\<lparr>total_denied := total_denied m + 1\<rparr>))
     else
       let s = slot_of m i in
       if ok (profile s) then
         eval_loop kind pid a b ok stack first_complain
           (m\<lparr>slots := (slots m)[unat i - 1 := s\<lparr>allowed := allowed s + 1\<rparr>]\<rparr>)
       else if complain (profile s) then
         eval_loop kind pid a b ok stack (if first_complain = 0 then i else first_complain)
           (record_audit kind True pid i a b
             (m\<lparr>slots := (slots m)[unat i - 1 := s\<lparr>complained := complained s + 1\<rparr>],
                total_complained := total_complained m + 1\<rparr>))
       else
         (- int (unat i),
          record_audit kind False pid i a b
            (m\<lparr>slots := (slots m)[unat i - 1 := s\<lparr>denied := denied s + 1\<rparr>],
               total_denied := total_denied m + 1\<rparr>)))"

definition eval :: "u16 list \<Rightarrow> u8 \<Rightarrow> i32 \<Rightarrow> u32 \<Rightarrow> u32 \<Rightarrow> (policy \<Rightarrow> bool) \<Rightarrow> mac \<Rightarrow> i32 \<times> mac" where
  "eval stack kind pid a b ok m =
    (if stack = [] then (0, m)
     else if length stack > MAX_STACK then (- DENIER_INVALID, m\<lparr>total_denied := total_denied m + 1\<rparr>)
     else eval_loop kind pid a b ok stack 0 m)"

definition check_syscall :: "u16 list \<Rightarrow> i32 \<Rightarrow> u32 \<Rightarrow> mac \<Rightarrow> i32 \<times> mac" where
  "check_syscall stack pid sysno = eval stack KIND_SYSCALL pid sysno 0 (\<lambda>p. allows_syscall p sysno)"

definition check_file :: "u16 list \<Rightarrow> i32 \<Rightarrow> bytes \<Rightarrow> u8 \<Rightarrow> mac \<Rightarrow> i32 \<times> mac" where
  "check_file stack pid nm op =
    (let nm = (if length nm > 64 then [] else nm) in
     eval stack KIND_FILE pid (ucast op) (of_nat (length nm)) (\<lambda>p. nm \<noteq> [] \<and> allows_file p nm op))"

definition check_net :: "u16 list \<Rightarrow> i32 \<Rightarrow> u8 \<Rightarrow> u32 \<Rightarrow> u16 \<Rightarrow> mac \<Rightarrow> i32 \<times> mac" where
  "check_net stack pid op addr port =
    eval stack KIND_NET pid (ucast op) (xor (push_bit 16 (ucast port)) (drop_bit 16 addr))
      (\<lambda>p. allows_net p op addr port)"

definition check_exec :: "u16 list \<Rightarrow> i32 \<Rightarrow> bytes \<Rightarrow> mac \<Rightarrow> i32 \<times> mac" where
  "check_exec stack pid nm =
    (let nm = (if length nm > 64 then [] else nm) in
     eval stack KIND_EXEC pid (of_nat (length nm)) 0 (\<lambda>p. nm \<noteq> [] \<and> allows_exec p nm))"

definition profile_info :: "mac \<Rightarrow> u16 \<Rightarrow> (bytes \<times> u32 \<times> u32 \<times> u32) option" where
  "profile_info m i =
    (if \<not> names_profile m i then None
     else let s = slot_of m i in Some (slot_name s, allowed s, denied s, complained s))"

definition totals :: "mac \<Rightarrow> u32 \<times> u32 \<times> u32" where
  "totals m = (total_allowed m, total_denied m, total_complained m)"

section \<open>The boot self-test\<close>

definition selftest_text :: bytes where
  "selftest_text = byte_str ''allow syscall write open'' @ [0x0A] @ byte_str ''allow file r DATA.TXT'' @ [0x0A]
     @ byte_str ''allow net c 10.0.2.2:80'' @ [0x0A] @ byte_str ''allow exec HELLO.ELF'' @ [0x0A]"

text \<open>The checks in the order of the code, each on the state the previous ones left.\<close>

definition selftest_checks :: "bool list" where
  "selftest_checks =
    (let c1 = (glob_match (byte_str ''*.LOG'') (byte_str ''a.log'') \<and> \<not> glob_match (byte_str ''*.LOG'') (byte_str ''a.txt'')
          \<and> glob_match (byte_str ''A?C'') (byte_str ''abc''));
       (r, m) = load mac_new (byte_str ''selftest'') selftest_text;
       i = (case r of Ok i \<Rightarrow> i | Err _ \<Rightarrow> 0);
       st = [i];
       (r3, m) = check_syscall st 1 1 m;
       (r4, m) = check_syscall st 1 32 m;
       (r5, m) = check_syscall st 1 2 m;
       (r6, m) = check_file st 1 (byte_str ''data.txt'') FILE_READ m;
       (r7, m) = check_file st 1 (byte_str ''DATA.TXT'') FILE_WRITE m;
       (r8, m) = check_file st 1 (byte_str ''SECRET.TXT'') FILE_READ m;
       (r9, m) = check_net st 1 NET_CONNECT 0x0A000202 80 m;
       (r10, m) = check_net st 1 NET_CONNECT 0x0A000202 81 m;
       (r11, m) = check_exec st 1 (byte_str ''hello.elf'') m;
       (r11', m) = (if r11 = 0 then check_exec st 1 (byte_str ''EVIL.ELF'') m else (0, m));
       (r12, m) = check_syscall [99] 1 1 m;
       c13 = is_err (parse (byte_str ''allow bogus x''));
       (r14, m) = check_syscall [] 1 32 m
     in [c1, i = 1, r3 = 0, r4 < 0, r5 = 0, r6 = 0, r7 < 0, r8 < 0, r9 = 0, r10 < 0,
         r11 = 0 \<and> r11' < 0, r12 < 0, c13, r14 = 0])"

definition selftest :: "u32 \<times> u32" where
  "selftest = (of_nat (count_if (\<lambda>ok. ok) selftest_checks), of_nat (length selftest_checks))"

section \<open>The functions the C kernel calls\<close>

text \<open>A pointer with a length: \<open>None\<close> is NULL, \<open>Some xs\<close> readable memory.\<close>

definition stack_of :: "u16 list option \<Rightarrow> u32 \<Rightarrow> u16 list option" where
  "stack_of p n =
    (if n = 0 then Some []
     else case p of None \<Rightarrow> None | Some xs \<Rightarrow> if unat n > MAX_STACK then None else Some (take (unat n) xs))"

definition bytes_of :: "bytes option \<Rightarrow> u32 \<Rightarrow> bytes option" where
  "bytes_of p n =
    (if n = 0 then Some []
     else case p of None \<Rightarrow> None | Some xs \<Rightarrow> if unat n > MAX_PROFILE_TEXT then None else Some (take (unat n) xs))"

definition rust_mac_load :: "bytes option \<Rightarrow> u32 \<Rightarrow> bytes option \<Rightarrow> u32 \<Rightarrow> mac \<Rightarrow> i32 \<times> mac" where
  "rust_mac_load nm nm_len text text_len m =
    (case (bytes_of nm nm_len, bytes_of text text_len) of
       (Some n, Some t) \<Rightarrow>
         (case load m n t of
            (Ok i, m') \<Rightarrow> (int (unat i), m')
          | (Err e, m') \<Rightarrow> (- load_errno e, m'))
     | _ \<Rightarrow> (- EINVAL, m))"

text \<open>What is written through the two pointers; \<open>None\<close> is the early return.\<close>

definition rust_mac_explain :: "bytes option \<Rightarrow> u32 \<Rightarrow> (u32 \<times> u32) option" where
  "rust_mac_explain text text_len =
    (case bytes_of text text_len of
       None \<Rightarrow> None
     | Some t \<Rightarrow> Some
        (case parse t of
           Ok _ \<Rightarrow> (0, 0)
         | Err TooLarge \<Rightarrow> (1, 0)
         | Err BadByte \<Rightarrow> (2, 0)
         | Err (LineTooLong l) \<Rightarrow> (3, ucast l)
         | Err (Syntax l) \<Rightarrow> (4, ucast l)
         | Err (UnknownSyscall l) \<Rightarrow> (5, ucast l)
         | Err (BadPattern l) \<Rightarrow> (6, ucast l)
         | Err (BadAddress l) \<Rightarrow> (7, ucast l)
         | Err (TooManyRules l) \<Rightarrow> (8, ucast l)
         | Err (DuplicateMode l) \<Rightarrow> (9, ucast l)))"

text \<open>The result and, where it is 0, the four ids and the count written out.\<close>

definition rust_mac_exec_stack :: "u16 list option \<Rightarrow> u32 \<Rightarrow> u32 \<Rightarrow> i32 \<times> (u16 list \<times> u32) option" where
  "rust_mac_exec_stack parent parent_n new_id =
    (case stack_of parent parent_n of
       None \<Rightarrow> (- E2BIG, None)
     | Some p \<Rightarrow>
        if new_id > of_nat MAX_PROFILES then (- EINVAL, None)
        else case exec_stack p (ucast new_id) of
           Ok st \<Rightarrow> (0, Some (map (\<lambda>i. ids st ! i) [0..<MAX_STACK], of_nat (stack_n st)))
         | Err e \<Rightarrow> (- e, None))"

definition rust_mac_check_syscall :: "u16 list option \<Rightarrow> u32 \<Rightarrow> i32 \<Rightarrow> u32 \<Rightarrow> mac \<Rightarrow> i32 \<times> mac" where
  "rust_mac_check_syscall stack n pid sysno m =
    (case stack_of stack n of
       Some s \<Rightarrow> check_syscall s pid sysno m
     | None \<Rightarrow> (- DENIER_INVALID, m))"

definition rust_mac_check_file ::
  "u16 list option \<Rightarrow> u32 \<Rightarrow> i32 \<Rightarrow> bytes option \<Rightarrow> u32 \<Rightarrow> u32 \<Rightarrow> mac \<Rightarrow> i32 \<times> mac" where
  "rust_mac_check_file stack n pid nm nm_len op m =
    (case (stack_of stack n, bytes_of nm nm_len) of
       (Some s, Some f) \<Rightarrow> check_file s pid f (ucast op) m
     | _ \<Rightarrow> (- DENIER_INVALID, m))"

definition rust_mac_check_net :: "u16 list option \<Rightarrow> u32 \<Rightarrow> i32 \<Rightarrow> u32 \<Rightarrow> u32 \<Rightarrow> u32 \<Rightarrow> mac \<Rightarrow> i32 \<times> mac" where
  "rust_mac_check_net stack n pid op addr port m =
    (case stack_of stack n of
       Some s \<Rightarrow> check_net s pid (ucast op) addr (ucast (and port 0xFFFF)) m
     | None \<Rightarrow> (- DENIER_INVALID, m))"

definition rust_mac_check_exec ::
  "u16 list option \<Rightarrow> u32 \<Rightarrow> i32 \<Rightarrow> bytes option \<Rightarrow> u32 \<Rightarrow> mac \<Rightarrow> i32 \<times> mac" where
  "rust_mac_check_exec stack n pid nm nm_len m =
    (case (stack_of stack n, bytes_of nm nm_len) of
       (Some s, Some f) \<Rightarrow> check_exec s pid f m
     | _ \<Rightarrow> (- DENIER_INVALID, m))"

definition rust_mac_is_policy_file :: "bytes option \<Rightarrow> u32 \<Rightarrow> i32" where
  "rust_mac_is_policy_file nm nm_len =
    (case bytes_of nm nm_len of Some n \<Rightarrow> (if is_policy_file n then 1 else 0) | None \<Rightarrow> 0)"

text \<open>The result and, where it is not an error, the bytes written to \<open>buf\<close> and the three counters.\<close>

definition rust_mac_profile_info :: "u32 \<Rightarrow> u32 \<Rightarrow> mac \<Rightarrow> i32 \<times> (bytes \<times> u32 list) option" where
  "rust_mac_profile_info i cap m =
    (if i > of_nat MAX_PROFILES \<or> cap = 0 then (- EINVAL, None)
     else case profile_info m (ucast i) of
        None \<Rightarrow> (- ENOENT, None)
      | Some (nm, al, de, co) \<Rightarrow>
         let n = min (length nm) (unat cap - 1) in
         (int n, Some (take n nm @ [0], [al, de, co])))"

definition rust_mac_global :: "mac \<Rightarrow> u32 list" where
  "rust_mac_global m =
    (let (a, d, c) = totals m;
       last_deny = find (\<lambda>r. \<not> ar_complained r) (List.map_filter (audit_recent m) [0..<AUDIT_LEN])
     in [a, d, c, (if is_frozen m then 1 else 0), of_nat (loaded m),
         (case last_deny of None \<Rightarrow> 0 | Some r \<Rightarrow> ucast (ar_kind r)),
         (case last_deny of None \<Rightarrow> 0 | Some r \<Rightarrow> ar_a r),
         (case last_deny of None \<Rightarrow> 0 | Some r \<Rightarrow> ar_b r)])"

definition rust_mac_freeze :: "mac \<Rightarrow> mac" where
  "rust_mac_freeze m = freeze m"

definition rust_mac_is_frozen :: "mac \<Rightarrow> i32" where
  "rust_mac_is_frozen m = (if is_frozen m then 1 else 0)"

definition rust_mac_selftest :: "u32 \<times> u32" where
  "rust_mac_selftest = (let (held, total') = selftest in (held, total'))"

section \<open>What a check decides\<close>

text \<open>Counters and the audit ring aside, two states hold the same profiles.\<close>

definition same_profiles :: "mac \<Rightarrow> mac \<Rightarrow> bool" where
  "same_profiles m m' \<longleftrightarrow> length (slots m') = length (slots m) \<and> frozen m' = frozen m \<and>
     (\<forall>k. in_use (slots m' ! k) = in_use (slots m ! k) \<and> name (slots m' ! k) = name (slots m ! k)
        \<and> name_len (slots m' ! k) = name_len (slots m ! k) \<and> profile (slots m' ! k) = profile (slots m ! k))"

lemma same_profiles_refl [simp]: "same_profiles m m"
  by (simp add: same_profiles_def)

lemma same_profiles_trans: "same_profiles m m' \<Longrightarrow> same_profiles m' m'' \<Longrightarrow> same_profiles m m''"
  by (simp add: same_profiles_def)

lemma same_profiles_record [simp]: "same_profiles m (record_audit kind c pid prof a b m') = same_profiles m m'"
  by (simp add: same_profiles_def record_audit_def)

lemma same_profiles_totals [simp]:
  "same_profiles m (m'\<lparr>total_allowed := x\<rparr>) = same_profiles m m'"
  "same_profiles m (m'\<lparr>total_denied := x\<rparr>) = same_profiles m m'"
  "same_profiles m (m'\<lparr>total_complained := x\<rparr>) = same_profiles m m'"
  by (simp_all add: same_profiles_def)

lemma same_profiles_counter:
  assumes "in_use s = in_use (slot_of m w)" and "name s = name (slot_of m w)"
    and "name_len s = name_len (slot_of m w)" and "profile s = profile (slot_of m w)" and "i = unat w - 1"
  shows "same_profiles m (m\<lparr>slots := (slots m)[i := s]\<rparr>)"
proof -
  have "in_use ((slots m)[i := s] ! k) = in_use (slots m ! k) \<and> name ((slots m)[i := s] ! k) = name (slots m ! k)
      \<and> name_len ((slots m)[i := s] ! k) = name_len (slots m ! k) \<and> profile ((slots m)[i := s] ! k) = profile (slots m ! k)" for k
    using assms by (cases "i < length (slots m)") (auto simp: slot_of_def nth_list_update list_update_beyond not_less)
  then show ?thesis by (simp add: same_profiles_def)
qed

definition entry_denies :: "mac \<Rightarrow> (policy \<Rightarrow> bool) \<Rightarrow> u16 \<Rightarrow> bool" where
  "entry_denies m ok i \<longleftrightarrow>
     \<not> names_profile m i \<or> \<not> ok (profile (slot_of m i)) \<and> \<not> complain (profile (slot_of m i))"

text \<open>The verdict the module comment describes: the first entry that denies decides, else the first that complains.\<close>

definition outcome :: "mac \<Rightarrow> (policy \<Rightarrow> bool) \<Rightarrow> u16 list \<Rightarrow> i32" where
  "outcome m ok stack =
    (case find (entry_denies m ok) stack of
       Some i \<Rightarrow> if names_profile m i then - int (unat i) else - DENIER_INVALID
     | None \<Rightarrow>
        (case find (\<lambda>i. \<not> ok (profile (slot_of m i))) stack of Some i \<Rightarrow> int (unat i) | None \<Rightarrow> 0))"

lemma same_profiles_decide:
  assumes "same_profiles m m'"
  shows "names_profile m' = names_profile m" and "profile (slot_of m' i) = profile (slot_of m i)"
    and "entry_denies m' ok = entry_denies m ok" and "outcome m' ok = outcome m ok"
proof -
  show n: "names_profile m' = names_profile m" and p: "profile (slot_of m' i) = profile (slot_of m i)" for i
    using assms by (auto simp: same_profiles_def names_profile_def slot_of_def fun_eq_iff)
  show e: "entry_denies m' ok = entry_denies m ok" by (simp add: entry_denies_def fun_eq_iff n p)
  show "outcome m' ok = outcome m ok" by (auto simp: outcome_def fun_eq_iff n p e split: option.split)
qed

lemma eval_loop_same: "same_profiles m (snd (eval_loop kind pid a b ok stack fc m))"
proof (induction stack arbitrary: fc m)
  case Nil
  show ?case by simp
next
  case (Cons i stack)
  let ?s = "slot_of m i"
  let ?m1 = "m\<lparr>slots := (slots m)[unat i - 1 := ?s\<lparr>allowed := allowed ?s + 1\<rparr>]\<rparr>"
  let ?m2 = "record_audit kind True pid i a b (m\<lparr>slots := (slots m)[unat i - 1 := ?s\<lparr>complained := complained ?s + 1\<rparr>],
                total_complained := total_complained m + 1\<rparr>)"
  have m1: "same_profiles m ?m1" by (rule same_profiles_counter [of _ _ i]) simp_all
  have m2: "same_profiles m ?m2" by (simp add: same_profiles_counter [of _ _ i])
  show ?case
    using same_profiles_trans [OF m1 Cons.IH] same_profiles_trans [OF m2 Cons.IH]
    by (simp add: Let_def same_profiles_counter [of _ _ i])
qed

lemma eval_same: "same_profiles m (snd (eval stack kind pid a b ok m))"
  by (simp add: eval_def eval_loop_same)

lemma names_profile_pos:
  assumes "names_profile m i"
  shows "0 < uint i"
proof -
  have "0 < unat i" using assms by (simp add: names_profile_def)
  then have "0 < int (unat i)" by (simp only: of_nat_0_less_iff)
  then show ?thesis by simp
qed

lemma eval_loop_outcome:
  "fst (eval_loop kind pid a b ok stack fc m) =
    (if outcome m ok stack < 0 then outcome m ok stack
     else if fc \<noteq> 0 then int (unat fc) else outcome m ok stack)"
proof (induction stack arbitrary: fc m)
  case Nil
  show ?case by (simp add: outcome_def)
next
  case (Cons i stack)
  let ?s = "slot_of m i"
  let ?m1 = "m\<lparr>slots := (slots m)[unat i - 1 := ?s\<lparr>allowed := allowed ?s + 1\<rparr>]\<rparr>"
  let ?m2 = "record_audit kind True pid i a b (m\<lparr>slots := (slots m)[unat i - 1 := ?s\<lparr>complained := complained ?s + 1\<rparr>],
                total_complained := total_complained m + 1\<rparr>)"
  have m1: "same_profiles m ?m1" by (rule same_profiles_counter [of _ _ i]) simp_all
  have m2: "same_profiles m ?m2" by (simp add: same_profiles_counter [of _ _ i])
  have IH1: "fst (eval_loop kind pid a b ok stack fc ?m1) =
      (if outcome m ok stack < 0 then outcome m ok stack else if fc \<noteq> 0 then int (unat fc) else outcome m ok stack)" for fc
    using Cons.IH [of fc ?m1] unfolding same_profiles_decide(4) [OF m1] .
  have IH2: "fst (eval_loop kind pid a b ok stack fc ?m2) =
      (if outcome m ok stack < 0 then outcome m ok stack else if fc \<noteq> 0 then int (unat fc) else outcome m ok stack)" for fc
    using Cons.IH [of fc ?m2] unfolding same_profiles_decide(4) [OF m2] .
  have pos: "names_profile m i \<Longrightarrow> unat i > 0" by (simp add: names_profile_def)
  consider (bad) "\<not> names_profile m i" | (ok) "names_profile m i" "ok (profile ?s)"
    | (complain) "names_profile m i" "\<not> ok (profile ?s)" "complain (profile ?s)"
    | (deny) "names_profile m i" "\<not> ok (profile ?s)" "\<not> complain (profile ?s)" by blast
  then show ?case
  proof cases
    case bad
    then show ?thesis by (simp add: outcome_def entry_denies_def)
  next
    case ok
    then have "outcome m ok (i # stack) = outcome m ok stack"
      by (simp add: outcome_def entry_denies_def split: option.split)
    with ok IH1 [of fc] show ?thesis by (simp add: Let_def)
  next
    case complain
    then have o: "outcome m ok (i # stack) = (if outcome m ok stack < 0 then outcome m ok stack else int (unat i))"
      by (auto simp: outcome_def entry_denies_def dest!: names_profile_pos split: option.splits)
    have "fst (eval_loop kind pid a b ok (i # stack) fc m)
        = fst (eval_loop kind pid a b ok stack (if fc = 0 then i else fc) ?m2)"
      using complain by (simp add: Let_def)
    moreover have "i \<noteq> 0" using pos complain by auto
    ultimately show ?thesis unfolding o IH2 by simp
  next
    case deny
    with names_profile_pos [of m i] show ?thesis by (simp add: outcome_def entry_denies_def Let_def)
  qed
qed

lemma eval_outcome:
  "fst (eval stack kind pid a b ok m) =
    (if stack = [] then 0 else if length stack > MAX_STACK then - DENIER_INVALID else outcome m ok stack)"
  by (simp add: eval_def eval_loop_outcome)

lemma outcome_denied: "outcome m ok stack < 0 \<longleftrightarrow> (\<exists>i \<in> set stack. entry_denies m ok i)"
proof (cases "find (entry_denies m ok) stack")
  case None
  then have "\<not> (\<exists>i \<in> set stack. entry_denies m ok i)" by (auto simp: find_None_iff)
  with None show ?thesis by (simp add: outcome_def split: option.splits)
next
  case (Some i)
  then have "i \<in> set stack" "entry_denies m ok i" by (auto simp: find_Some_iff)
  with Some names_profile_pos [of m i] show ?thesis by (auto simp: outcome_def)
qed

section \<open>What a profile text grants\<close>

text \<open>The meaning of a text, read off its directives one by one.\<close>

record grant =
  g_complain :: bool
  g_all :: bool
  g_syscalls :: "u32 set"
  g_files :: "(bytes \<times> u8) list"
  g_nets :: "net_rule list"
  g_execs :: "bytes list"

definition letter_bits :: "(u8 \<times> u8) list \<Rightarrow> bytes \<Rightarrow> u8" where
  "letter_bits table word = foldl (\<lambda>acc c. case map_of table c of Some v \<Rightarrow> or acc v | None \<Rightarrow> acc) 0 word"

abbreviation rwd :: "(u8 \<times> u8) list" where
  "rwd \<equiv> [(0x72, FILE_READ), (0x77, FILE_WRITE), (0x64, FILE_DELETE)]"
abbreviation cbs :: "(u8 \<times> u8) list" where
  "cbs \<equiv> [(0x63, NET_CONNECT), (0x62, NET_BIND), (0x73, NET_SEND)]"

definition peer_rule :: "u8 \<Rightarrow> bytes \<Rightarrow> net_rule" where
  "peer_rule perms addr = (case parse_peer 0 perms addr of Ok r \<Rightarrow> r | Err _ \<Rightarrow> net_rule_EMPTY)"

definition grant_allow :: "bytes list \<Rightarrow> grant \<Rightarrow> grant" where
  "grant_allow toks g =
    (case toks of
       [] \<Rightarrow> g
     | kind # args \<Rightarrow>
        if kind = byte_str ''syscall'' then
          g\<lparr>g_all := g_all g \<or> byte_str ''*'' \<in> set args,
            g_syscalls := g_syscalls g \<union> {n. \<exists>t \<in> set args. t \<noteq> byte_str ''*'' \<and> lookup_syscall t = Some n}\<rparr>
        else if kind = byte_str ''file'' then
          g\<lparr>g_files := g_files g @ map (\<lambda>p. (p, letter_bits rwd (hd args))) (tl args)\<rparr>
        else if kind = byte_str ''net'' then
          g\<lparr>g_nets := g_nets g @ map (peer_rule (letter_bits cbs (hd args))) (tl args)\<rparr>
        else if kind = byte_str ''exec'' then g\<lparr>g_execs := g_execs g @ args\<rparr>
        else g)"

definition grant_directive :: "grant \<Rightarrow> bytes list \<Rightarrow> grant" where
  "grant_directive g toks =
    (case toks of
       [] \<Rightarrow> g
     | word # args \<Rightarrow>
        if word = byte_str ''mode'' then g\<lparr>g_complain := (args = [byte_str ''complain''])\<rparr>
        else if word = byte_str ''allow'' then grant_allow args g
        else g)"

definition grants :: "bytes \<Rightarrow> grant" where
  "grants text = foldl grant_directive
     \<lparr>g_complain = False, g_all = False, g_syscalls = {}, g_files = [], g_nets = [], g_execs = []\<rparr>
     (map directive (split_on 0x0A text))"

text \<open>The parsed policy as such a grant.\<close>

definition granted :: "policy \<Rightarrow> grant" where
  "granted pol = \<lparr>g_complain = complain pol, g_all = all_syscalls pol,
     g_syscalls = {n. unat n < 128 \<and> bit (syscalls pol ! (unat n div 32)) (unat n mod 32)},
     g_files = map (\<lambda>r. (file_rule_pattern r, fr_perms r)) (take (unat (nfiles pol)) (files pol)),
     g_nets = take (unat (nnets pol)) (nets pol),
     g_execs = map exec_rule_pattern (take (unat (nexecs pol)) (execs pol))\<rparr>"

definition file_rule_ok :: "file_rule \<Rightarrow> bool" where
  "file_rule_ok r \<longleftrightarrow> length (fr_pat r) = PAT_LEN \<and> unat (fr_len r) \<le> PAT_LEN
     \<and> valid_pattern (file_rule_pattern r) \<and> fr_perms r < 8"

definition net_rule_ok :: "net_rule \<Rightarrow> bool" where
  "net_rule_ok r \<longleftrightarrow> port_lo r \<le> port_hi r \<and> ops r < 8"

definition exec_rule_ok :: "exec_rule \<Rightarrow> bool" where
  "exec_rule_ok r \<longleftrightarrow> length (er_pat r) = PAT_LEN \<and> unat (er_len r) \<le> PAT_LEN
     \<and> valid_pattern (exec_rule_pattern r)"

definition policy_ok :: "policy \<Rightarrow> bool" where
  "policy_ok pol \<longleftrightarrow> length (syscalls pol) = 4
     \<and> length (files pol) = MAX_FILE_RULES \<and> unat (nfiles pol) \<le> MAX_FILE_RULES
     \<and> list_all file_rule_ok (take (unat (nfiles pol)) (files pol))
     \<and> length (nets pol) = MAX_NET_RULES \<and> unat (nnets pol) \<le> MAX_NET_RULES
     \<and> list_all net_rule_ok (take (unat (nnets pol)) (nets pol))
     \<and> length (execs pol) = MAX_EXEC_RULES \<and> unat (nexecs pol) \<le> MAX_EXEC_RULES
     \<and> list_all exec_rule_ok (take (unat (nexecs pol)) (execs pol))"

lemma take_push:
  assumes "unat k < length xs" and "length xs < 256"
  shows "take (unat (k + 1 :: u8)) (xs[unat k := x]) = take (unat k) xs @ [x]" and "unat (k + 1) = unat k + 1"
proof -
  show u: "unat (k + 1) = unat k + 1" using assms by (simp add: unat_word_ariths)
  show "take (unat (k + 1 :: u8)) (xs[unat k := x]) = take (unat k) xs @ [x]"
    unfolding u using assms(1) by (simp add: take_Suc_conv_app_nth)
qed

lemma length_word_u8: "n \<le> PAT_LEN \<Longrightarrow> unat (of_nat n :: u8) = n"
  by (rule unat_of_nat_small) (simp add: PAT_LEN_def)

lemma parse_exec_rules_grants:
  "parse_exec_rules ln toks pol = Ok pol' \<Longrightarrow> policy_ok pol \<Longrightarrow>
     policy_ok pol' \<and> granted pol' = (granted pol)\<lparr>g_execs := g_execs (granted pol) @ toks\<rparr>"
proof (induction toks arbitrary: pol)
  case Nil
  then show ?case by simp
next
  case (Cons pat toks)
  let ?rule = "exec_rule_EMPTY\<lparr>er_pat := copy_prefix pat (er_pat exec_rule_EMPTY), er_len := of_nat (length pat)\<rparr>"
  let ?pol = "pol\<lparr>execs := (execs pol)[unat (nexecs pol) := ?rule], nexecs := nexecs pol + 1\<rparr>"
  have v: "valid_pattern pat" and n: "unat (nexecs pol) < MAX_EXEC_RULES"
    and rest: "parse_exec_rules ln toks ?pol = Ok pol'"
    using Cons.prems(1) by (auto simp: Let_def split: if_splits)
  have l: "length pat \<le> PAT_LEN" using v by (simp add: valid_pattern_def)
  have r: "exec_rule_pattern ?rule = pat" and "exec_rule_ok ?rule"
    using l v by (auto simp: exec_rule_pattern_def exec_rule_ok_def exec_rule_EMPTY_def length_word_u8)
  note push = take_push [of "nexecs pol" "execs pol"]
  have "policy_ok ?pol"
    using Cons.prems(2) n \<open>exec_rule_ok ?rule\<close> push by (simp add: policy_ok_def MAX_EXEC_RULES_def)
  moreover have "granted ?pol = (granted pol)\<lparr>g_execs := g_execs (granted pol) @ [pat]\<rparr>"
    using Cons.prems(2) n r push by (simp add: granted_def policy_ok_def MAX_EXEC_RULES_def)
  ultimately show ?case using Cons.IH [OF rest] by simp
qed

lemma parse_file_rules_grants:
  "parse_file_rules ln perms toks pol = Ok pol' \<Longrightarrow> policy_ok pol \<Longrightarrow> perms < 8 \<Longrightarrow>
     policy_ok pol' \<and> granted pol' = (granted pol)\<lparr>g_files := g_files (granted pol) @ map (\<lambda>p. (p, perms)) toks\<rparr>"
proof (induction toks arbitrary: pol)
  case Nil
  then show ?case by simp
next
  case (Cons pat toks)
  let ?rule = "file_rule_EMPTY\<lparr>fr_pat := copy_prefix pat (fr_pat file_rule_EMPTY),
     fr_len := of_nat (length pat), fr_perms := perms\<rparr>"
  let ?pol = "pol\<lparr>files := (files pol)[unat (nfiles pol) := ?rule], nfiles := nfiles pol + 1\<rparr>"
  have v: "valid_pattern pat" and n: "unat (nfiles pol) < MAX_FILE_RULES"
    and rest: "parse_file_rules ln perms toks ?pol = Ok pol'"
    using Cons.prems(1) by (auto simp: Let_def split: if_splits)
  have l: "length pat \<le> PAT_LEN" using v by (simp add: valid_pattern_def)
  have r: "file_rule_pattern ?rule = pat" and "file_rule_ok ?rule"
    using l v Cons.prems(3) by (auto simp: file_rule_pattern_def file_rule_ok_def file_rule_EMPTY_def length_word_u8)
  note push = take_push [of "nfiles pol" "files pol"]
  have "policy_ok ?pol"
    using Cons.prems(2) n \<open>file_rule_ok ?rule\<close> push by (simp add: policy_ok_def MAX_FILE_RULES_def)
  moreover have "granted ?pol = (granted pol)\<lparr>g_files := g_files (granted pol) @ [(pat, perms)]\<rparr>"
    using Cons.prems(2) n r push by (simp add: granted_def policy_ok_def MAX_FILE_RULES_def)
  ultimately show ?case using Cons.IH [OF rest] Cons.prems(3) by simp
qed

lemma parse_ports_ordered: "parse_ports s = Some (lo, hi) \<Longrightarrow> lo \<le> hi"
  by (auto simp: parse_ports_def split: if_splits option.splits)

lemma parse_peer_ok:
  assumes "parse_peer ln perms addr = Ok r" and "perms < 8"
  shows "net_rule_ok r" and "peer_rule perms addr = r"
  using assms by (auto simp: parse_peer_def peer_rule_def net_rule_ok_def Let_def
      split: option.splits if_splits prod.splits dest: parse_ports_ordered)

lemma parse_net_rules_grants:
  "parse_net_rules ln perms toks pol = Ok pol' \<Longrightarrow> policy_ok pol \<Longrightarrow> perms < 8 \<Longrightarrow>
     policy_ok pol' \<and> granted pol' = (granted pol)\<lparr>g_nets := g_nets (granted pol) @ map (peer_rule perms) toks\<rparr>"
proof (induction toks arbitrary: pol)
  case Nil
  then show ?case by simp
next
  case (Cons addr toks)
  then obtain rule where p: "parse_peer ln perms addr = Ok rule" by (auto split: result.splits)
  let ?pol = "pol\<lparr>nets := (nets pol)[unat (nnets pol) := rule], nnets := nnets pol + 1\<rparr>"
  have n: "unat (nnets pol) < MAX_NET_RULES" and rest: "parse_net_rules ln perms toks ?pol = Ok pol'"
    using Cons.prems(1) p by (auto split: if_splits)
  note r = parse_peer_ok [OF p Cons.prems(3)]
  note push = take_push [of "nnets pol" "nets pol"]
  have "policy_ok ?pol"
    using Cons.prems(2) n r(1) push by (simp add: policy_ok_def MAX_NET_RULES_def)
  moreover have "granted ?pol = (granted pol)\<lparr>g_nets := g_nets (granted pol) @ [rule]\<rparr>"
    using Cons.prems(2) n push by (simp add: granted_def policy_ok_def MAX_NET_RULES_def)
  ultimately show ?case using Cons.IH [OF rest] Cons.prems(3) r(2) by simp
qed

lemma length_SYSCALL_NAMES: "length SYSCALL_NAMES = 75"
  by (simp add: SYSCALL_NAMES_def)

lemma lookup_syscall_bound:
  assumes "lookup_syscall t = Some n"
  shows "unat n < 75"
proof -
  obtain i where "i < length (tl SYSCALL_NAMES)" "n = of_nat (i + 1)"
    using assms by (fastforce simp: lookup_syscall_def dest: position_SomeD)
  then show ?thesis by (simp add: length_SYSCALL_NAMES unat_of_nat del: of_nat_add of_nat_Suc)
qed

lemma bit_index_inj: "(n :: nat) div 32 = m div 32 \<Longrightarrow> n mod 32 = m mod 32 \<Longrightarrow> n = m"
  by (metis div_mult_mod_eq)

lemma granted_syscall:
  assumes "policy_ok pol" and "unat n < 128"
  shows "granted (pol\<lparr>syscalls := (syscalls pol)[unat (n div 32) :=
           or (syscalls pol ! unat (n div 32)) (push_bit (unat (n mod 32)) 1)]\<rparr>)
       = (granted pol)\<lparr>g_syscalls := insert n (g_syscalls (granted pol))\<rparr>"
proof -
  let ?w = "or (syscalls pol ! (unat n div 32)) (push_bit (unat n mod 32) 1)"
  have l: "unat k < 128 \<Longrightarrow> unat k div 32 < length (syscalls pol)" for k :: u32
    using assms(1) by (simp add: policy_ok_def)
  have "bit ((syscalls pol)[unat n div 32 := ?w] ! (unat k div 32)) (unat k mod 32)
      \<longleftrightarrow> k = n \<or> bit (syscalls pol ! (unat k div 32)) (unat k mod 32)" if k: "unat k < 128" for k :: u32
  proof (cases "unat k div 32 = unat n div 32")
    case True
    then show ?thesis using l [OF k] bit_index_inj [of "unat k" "unat n"]
      by (auto simp: bit_or_iff bit_push_bit_iff bit_1_iff bit_exp_iff word_unat_eq)
  next
    case False
    then show ?thesis by auto
  qed
  then have "{k. unat k < 128 \<and> bit ((syscalls pol)[unat n div 32 := ?w] ! (unat k div 32)) (unat k mod 32)}
      = insert n {k. unat k < 128 \<and> bit (syscalls pol ! (unat k div 32)) (unat k mod 32)}"
    using assms(2) by auto
  then show ?thesis by (simp add: granted_def unat_div_distrib unat_mod_distrib)
qed

lemma parse_syscalls_grants:
  "parse_syscalls ln toks pol = Ok pol' \<Longrightarrow> policy_ok pol \<Longrightarrow>
     policy_ok pol' \<and> granted pol' = (granted pol)
       \<lparr>g_all := g_all (granted pol) \<or> byte_str ''*'' \<in> set toks,
        g_syscalls := g_syscalls (granted pol) \<union> {n. \<exists>t \<in> set toks. t \<noteq> byte_str ''*'' \<and> lookup_syscall t = Some n}\<rparr>"
proof (induction toks arbitrary: pol)
  case Nil
  then show ?case by simp
next
  case (Cons t toks)
  show ?case
  proof (cases "t = byte_str ''*''")
    case True
    have "policy_ok (pol\<lparr>all_syscalls := True\<rparr>)" using Cons.prems(2) by (simp add: policy_ok_def)
    moreover have "granted (pol\<lparr>all_syscalls := True\<rparr>) = (granted pol)\<lparr>g_all := True\<rparr>" by (simp add: granted_def)
    ultimately show ?thesis using Cons.IH [of "pol\<lparr>all_syscalls := True\<rparr>"] Cons.prems(1) True by simp
  next
    case False
    with Cons.prems(1) obtain n where n: "lookup_syscall t = Some n" by (auto split: option.splits)
    let ?pol = "pol\<lparr>syscalls := (syscalls pol)[unat (n div 32) :=
           or (syscalls pol ! unat (n div 32)) (push_bit (unat (n mod 32)) 1)]\<rparr>"
    have rest: "parse_syscalls ln toks ?pol = Ok pol'" using Cons.prems(1) False n by simp
    have p: "policy_ok ?pol" using Cons.prems(2) by (simp add: policy_ok_def)
    have g: "granted ?pol = (granted pol)\<lparr>g_syscalls := insert n (g_syscalls (granted pol))\<rparr>"
      using lookup_syscall_bound [OF n] by (intro granted_syscall Cons.prems(2)) simp
    have s: "{k. \<exists>u \<in> set (t # toks). u \<noteq> byte_str ''*'' \<and> lookup_syscall u = Some k}
        = insert n {k. \<exists>u \<in> set toks. u \<noteq> byte_str ''*'' \<and> lookup_syscall u = Some k}"
      using False n by auto
    show ?thesis using Cons.IH [OF rest p] False unfolding s g by simp
  qed
qed

lemma small_or: "(a :: u8) < 8 \<Longrightarrow> b < 8 \<Longrightarrow> or a b < 8"
  using OR_upper [of "uint a" 3 "uint b"] by (simp add: word_less_def unsigned_or_eq)

lemma parse_perms_loop:
  "parse_file_perms ln word perms = Ok p \<Longrightarrow> perms < 8 \<Longrightarrow>
     p < 8 \<and> p = foldl (\<lambda>acc c. case map_of rwd c of Some v \<Rightarrow> or acc v | None \<Rightarrow> acc) perms word"
  "parse_net_ops ln word perms = Ok p \<Longrightarrow> perms < 8 \<Longrightarrow>
     p < 8 \<and> p = foldl (\<lambda>acc c. case map_of cbs c of Some v \<Rightarrow> or acc v | None \<Rightarrow> acc) perms word"
  by (induction word arbitrary: perms) (simp_all add: small_or split: if_splits)

lemma parse_perms_bits:
  "parse_file_perms ln word 0 = Ok p \<Longrightarrow> p < 8 \<and> p = letter_bits rwd word"
  "parse_net_ops ln word 0 = Ok p \<Longrightarrow> p < 8 \<and> p = letter_bits cbs word"
  unfolding letter_bits_def by (rule parse_perms_loop; simp)+

lemma parse_allow_grants:
  assumes "parse_allow ln toks pol = Ok pol'" and "policy_ok pol"
  shows "policy_ok pol' \<and> granted pol' = grant_allow toks (granted pol)"
proof -
  obtain kind args where t: "toks = kind # args" using assms(1) by (cases toks) (auto simp: parse_allow_def)
  have files: "policy_ok pol' \<and> granted pol' = (granted pol)
      \<lparr>g_files := g_files (granted pol) @ map (\<lambda>p. (p, letter_bits rwd (hd args))) (tl args)\<rparr>"
    if "args = w # pats" "parse_file_perms ln w 0 = Ok p" "parse_file_rules ln p pats pol = Ok pol'" for w pats p
  proof -
    have b: "p < 8" "letter_bits rwd w = p" using parse_perms_bits(1) [OF that(2)] by auto
    show ?thesis using parse_file_rules_grants [OF that(3) assms(2) b(1)] by (simp add: that(1) b(2))
  qed
  have nets: "policy_ok pol' \<and> granted pol' = (granted pol)
      \<lparr>g_nets := g_nets (granted pol) @ map (peer_rule (letter_bits cbs (hd args))) (tl args)\<rparr>"
    if "args = w # addrs" "parse_net_ops ln w 0 = Ok p" "parse_net_rules ln p addrs pol = Ok pol'" for w addrs p
  proof -
    have b: "p < 8" "letter_bits cbs w = p" using parse_perms_bits(2) [OF that(2)] by auto
    show ?thesis using parse_net_rules_grants [OF that(3) assms(2) b(1)] by (simp add: that(1) b(2))
  qed
  show ?thesis
    using assms(1) parse_syscalls_grants [OF _ assms(2)] parse_exec_rules_grants [OF _ assms(2)]
    unfolding t parse_allow_def grant_allow_def
    by (simp add: files nets split: if_splits list.splits result.splits)
qed

lemma parse_mode_grants:
  assumes "parse_mode ln args pol = Ok pol'" and "policy_ok pol"
  shows "policy_ok pol' \<and> granted pol' = (granted pol)\<lparr>g_complain := (args = [byte_str ''complain''])\<rparr>"
  using assms by (auto simp: parse_mode_def policy_ok_def granted_def byte_str_def split: list.splits if_splits)

lemma parse_lines_grants:
  "parse_lines n seen raws pol = Ok pol' \<Longrightarrow> policy_ok pol \<Longrightarrow>
     policy_ok pol' \<and> granted pol' = foldl grant_directive (granted pol) (map directive raws)"
proof (induction raws arbitrary: n seen pol)
  case Nil
  then show ?case by simp
next
  case (Cons raw raws)
  let ?n = "saturating_add n 1"
  show ?case
  proof (cases "directive raw")
    case Nil
    then show ?thesis
      using Cons.prems Cons.IH [of ?n seen pol] by (simp add: Let_def grant_directive_def split: if_splits)
  next
    case (Cons word toks)
    note d = this
    show ?thesis
    proof (cases "word = byte_str ''mode''")
      case True
      then obtain pol1 where "parse_mode ?n toks pol = Ok pol1" "parse_lines ?n True raws pol1 = Ok pol'"
        using Cons.prems(1) d by (auto simp: Let_def split: if_splits result.splits)
      with True d Cons.prems(2) Cons.IH [of ?n True pol1] parse_mode_grants [of ?n toks pol pol1] show ?thesis
        by (simp add: grant_directive_def)
    next
      case False
      then obtain pol1 where "word = byte_str ''allow''" "parse_allow ?n toks pol = Ok pol1"
        "parse_lines ?n seen raws pol1 = Ok pol'"
        using Cons.prems(1) d by (auto simp: Let_def split: if_splits result.splits)
      with False d Cons.prems(2) Cons.IH [of ?n seen pol1] parse_allow_grants [of ?n toks pol pol1] show ?thesis
        by (simp add: grant_directive_def)
    qed
  qed
qed

lemma parse_grants:
  assumes "parse text = Ok pol"
  shows "policy_ok pol" and "granted pol = grants text"
proof -
  have "policy_ok policy_EMPTY" by (simp add: policy_ok_def policy_EMPTY_def)
  moreover have "granted policy_EMPTY =
      \<lparr>g_complain = False, g_all = False, g_syscalls = {}, g_files = [], g_nets = [], g_execs = []\<rparr>"
    by (auto simp: granted_def policy_EMPTY_def)
  ultimately show "policy_ok pol" "granted pol = grants text"
    using assms parse_lines_grants [of 0 False "split_on 0x0A text" policy_EMPTY pol]
    by (auto simp: parse_def grants_def split: if_splits)
qed

lemma bit_foldl_or:
  "bit (foldl (\<lambda>acc r. or acc (f r)) w rs) k \<longleftrightarrow> bit w k \<or> (\<exists>r \<in> set rs. bit (f r) k)"
  by (induction rs arbitrary: w) (auto simp: bit_or_iff)

lemma and_eq_right: "and w v = v \<longleftrightarrow> (\<forall>k. bit v k \<longrightarrow> bit w k)" for w v :: "'a::len word"
proof
  assume "and w v = v"
  then show "\<forall>k. bit v k \<longrightarrow> bit w k" by (metis bit_and_iff)
next
  assume "\<forall>k. bit v k \<longrightarrow> bit w k"
  then show "and w v = v" by (auto intro: bit_word_eqI simp: bit_and_iff)
qed

lemma allows_syscall_granted:
  "allows_syscall pol n \<longleftrightarrow> n = SYS_EXIT \<or> n = SYS_MAC_INFO
     \<or> n < SYSCALL_LIMIT \<and> (g_all (granted pol) \<or> n \<in> g_syscalls (granted pol))"
  by (auto simp: allows_syscall_def granted_def word_less_nat_alt word_le_nat_alt unat_div_distrib
      unat_mod_distrib bit_iff_and_drop_bit_eq_1)

lemma allows_file_granted:
  "allows_file pol nm op \<longleftrightarrow> op \<noteq> 0
     \<and> (\<forall>k. bit op k \<longrightarrow> (\<exists>(p, perms) \<in> set (g_files (granted pol)). glob p nm \<and> bit perms k))"
  by (auto simp: allows_file_def granted_def and_eq_right bit_foldl_or glob_match_glob Let_def)

lemma allows_net_granted:
  "allows_net pol op addr port \<longleftrightarrow> (\<exists>r \<in> set (g_nets (granted pol)).
     and (ops r) op \<noteq> 0 \<and> (any_ip r \<or> ip r = addr) \<and> port_lo r \<le> port \<and> port \<le> port_hi r)"
  by (simp add: allows_net_def granted_def list_ex_iff)

lemma allows_exec_granted: "allows_exec pol nm \<longleftrightarrow> (\<exists>p \<in> set (g_execs (granted pol)). glob p nm)"
  by (auto simp: allows_exec_def granted_def list_ex_iff glob_match_glob)

text \<open>
  (C14) A profile that parses grants exactly what its directives list, nothing more and nothing less:
  the listed system calls besides exit and mac_info, every bit of a file operation by some matching
  file pattern, a network peer by a matching rule, and a program by a matching pattern.
\<close>

theorem mac_parse_grants:
  assumes "parse text = Ok pol"
  shows "(allows_syscall pol n \<longleftrightarrow> n = SYS_EXIT \<or> n = SYS_MAC_INFO
             \<or> n < SYSCALL_LIMIT \<and> (g_all (grants text) \<or> n \<in> g_syscalls (grants text)))
    \<and> (allows_file pol nm op \<longleftrightarrow> op \<noteq> 0
             \<and> (\<forall>k. bit op k \<longrightarrow> (\<exists>(p, perms) \<in> set (g_files (grants text)). glob p nm \<and> bit perms k)))
    \<and> (allows_net pol op' addr port \<longleftrightarrow> (\<exists>r \<in> set (g_nets (grants text)).
             and (ops r) op' \<noteq> 0 \<and> (any_ip r \<or> ip r = addr) \<and> port_lo r \<le> port \<and> port \<le> port_hi r))
    \<and> (allows_exec pol nm \<longleftrightarrow> (\<exists>p \<in> set (g_execs (grants text)). glob p nm))
    \<and> is_complain pol = g_complain (grants text)"
proof -
  have "is_complain pol = g_complain (granted pol)" by (simp add: is_complain_def granted_def)
  then show ?thesis
    unfolding allows_syscall_granted allows_file_granted allows_net_granted allows_exec_granted
      parse_grants(2) [OF assms] by simp
qed

text \<open>The same with the length compared as an integer, for evaluation.\<close>

lemma parse_code [code]:
  "parse text =
    (if int (length text) > 4096 then Err TooLarge
     else if \<not> list_all (\<lambda>b. b = 0x0A \<or> b = 0x0D \<or> b = 0x09 \<or> 0x20 \<le> b \<and> b < 0x7F) text then Err BadByte
     else parse_lines 0 False (split_on 0x0A text) policy_EMPTY)"
proof -
  have l: "int (length text) > 4096 \<longleftrightarrow> length text > MAX_PROFILE_TEXT" by (auto simp: MAX_PROFILE_TEXT_def)
  show ?thesis unfolding l by (rule parse_def)
qed

text \<open>A profile for the examples below: it may start one program and nothing else.\<close>

definition example_text :: bytes where
  "example_text = byte_str ''allow exec HELLO.ELF''"

definition example_mac :: mac where
  "example_mac = snd (load mac_new (byte_str ''app'') example_text)"

lemma example_parses: "\<exists>pol. parse example_text = Ok pol"
proof -
  have "\<not> is_err (parse example_text)" by code_simp
  then show ?thesis by (cases "parse example_text") auto
qed

theorem mac_parse_grants_witness:
  "\<exists>pol. parse example_text = Ok pol
     \<and> (allows_exec pol (byte_str ''hello.elf'') \<longleftrightarrow> (\<exists>p \<in> set (g_execs (grants example_text)). glob p (byte_str ''hello.elf'')))"
proof -
  obtain pol where p: "parse example_text = Ok pol" using example_parses by blast
  show ?thesis
    by (rule exI [of _ pol], rule conjI [OF p],
        rule conjunct1 [OF conjunct2 [OF conjunct2 [OF conjunct2 [OF mac_parse_grants [OF p]]]]])
qed

section \<open>The module as a machine\<close>

datatype mac_op =
    LoadOp bytes bytes
  | FreezeOp
  | SyscallOp "u16 list" i32 u32
  | FileOp "u16 list" i32 bytes u8
  | NetOp "u16 list" i32 u8 u32 u16
  | ExecOp "u16 list" i32 bytes

fun mac_step :: "mac_op \<Rightarrow> mac \<Rightarrow> mac" where
  "mac_step (LoadOp nm text) m = snd (load m nm text)"
| "mac_step FreezeOp m = freeze m"
| "mac_step (SyscallOp stack pid n) m = snd (check_syscall stack pid n m)"
| "mac_step (FileOp stack pid nm op) m = snd (check_file stack pid nm op m)"
| "mac_step (NetOp stack pid op addr port) m = snd (check_net stack pid op addr port m)"
| "mac_step (ExecOp stack pid nm) m = snd (check_exec stack pid nm m)"

lemma check_same:
  "same_profiles m (snd (check_syscall stack pid n m))"
  "same_profiles m (snd (check_file stack pid nm op m))"
  "same_profiles m (snd (check_net stack pid op addr port m))"
  "same_profiles m (snd (check_exec stack pid nm m))"
  by (simp_all add: check_syscall_def check_file_def check_net_def check_exec_def eval_same Let_def)

text \<open>Where a load changes the table: one free slot, only while the policy is not frozen.\<close>

lemma load_cases:
  obtains "snd (load m nm text) = m"
  | i pol where "\<not> frozen m" "valid_profile_name nm" "parse text = Ok pol"
      "\<forall>s \<in> set (slots m). \<not> (in_use s \<and> slot_name s = nm \<and> profile s = pol)"
      "i < length (slots m)" "\<not> in_use (slots m ! i)"
      "load m nm text = (Ok (of_nat (i + 1)),
         m\<lparr>slots := (slots m)[i := slot_EMPTY\<lparr>in_use := True, name := copy_prefix nm (name slot_EMPTY),
              name_len := of_nat (length nm), profile := pol\<rparr>]\<rparr>)"
proof -
  have "snd (load m nm text) = m \<or> (\<exists>pol i. \<not> frozen m \<and> valid_profile_name nm \<and> parse text = Ok pol
      \<and> position (\<lambda>s. in_use s \<and> slot_name s = nm \<and> profile s = pol) (slots m) = None
      \<and> position (\<lambda>s. \<not> in_use s) (slots m) = Some i)"
    unfolding load_def by (simp split: result.split option.split if_split)
  then consider "snd (load m nm text) = m"
    | pol i where "\<not> frozen m" "valid_profile_name nm" "parse text = Ok pol"
      "position (\<lambda>s. in_use s \<and> slot_name s = nm \<and> profile s = pol) (slots m) = None"
      "position (\<lambda>s. \<not> in_use s) (slots m) = Some i"
    by blast
  then show thesis
  proof cases
    case 1
    then show thesis by (rule that(1))
  next
    case (2 pol i)
    show thesis
    proof (rule that(2) [of pol i])
      show "i < length (slots m)" "\<not> in_use (slots m ! i)" using position_SomeD(1,2) [OF 2(5)] by auto
      show "\<forall>s \<in> set (slots m). \<not> (in_use s \<and> slot_name s = nm \<and> profile s = pol)"
        using 2(4) unfolding position_None .
      show "load m nm text = (Ok (of_nat (i + 1)),
         m\<lparr>slots := (slots m)[i := slot_EMPTY\<lparr>in_use := True, name := copy_prefix nm (name slot_EMPTY),
              name_len := of_nat (length nm), profile := pol\<rparr>]\<rparr>)"
        using 2 by (simp add: load_def)
    qed (fact 2)+
  qed
qed

lemma slot_name_installed:
  assumes "valid_profile_name nm"
  shows "slot_name (slot_EMPTY\<lparr>in_use := True, name := copy_prefix nm (name slot_EMPTY),
              name_len := of_nat (length nm), profile := pol\<rparr>) = nm"
proof -
  have l: "length nm \<le> NAME_LEN" using assms by (simp add: valid_profile_name_def)
  then have "unat (of_nat (length nm) :: u8) = length nm"
    by (intro unat_of_nat_small) (simp add: NAME_LEN_def)
  with l show ?thesis by (simp add: slot_name_def slot_EMPTY_def)
qed

text \<open>A loaded profile keeps its name and its policy.\<close>

definition keeps_profiles :: "mac \<Rightarrow> mac \<Rightarrow> bool" where
  "keeps_profiles m m' \<longleftrightarrow> length (slots m') = length (slots m) \<and>
     (\<forall>k. in_use (slots m ! k) \<longrightarrow> in_use (slots m' ! k)
        \<and> slot_name (slots m' ! k) = slot_name (slots m ! k) \<and> profile (slots m' ! k) = profile (slots m ! k))"

lemma same_keeps: "same_profiles m m' \<Longrightarrow> keeps_profiles m m'"
  by (simp add: same_profiles_def keeps_profiles_def slot_name_def)

lemma load_keeps: "keeps_profiles m (snd (load m nm text))"
proof (cases rule: load_cases [of m nm "text"])
  case 1
  then show ?thesis by (simp add: same_keeps)
next
  case (2 i pol)
  then show ?thesis by (auto simp: keeps_profiles_def nth_list_update)
qed

lemma step_keeps: "keeps_profiles m (mac_step op m)"
proof (cases op)
  case FreezeOp
  then show ?thesis by (simp add: freeze_def keeps_profiles_def)
qed (simp_all add: load_keeps check_same same_keeps)

lemma reachable_keeps: "reachable (\<lambda>_. True) mac_step m m' \<Longrightarrow> keeps_profiles m m'"
proof (induction rule: reachable.induct)
  case (reachable_step s op)
  then show ?case using step_keeps [of s op] by (simp add: keeps_profiles_def)
qed (simp add: keeps_profiles_def)

lemma keeps_outcome:
  assumes "keeps_profiles m m'" and "list_all (names_profile m) stack"
  shows "outcome m' ok stack = outcome m ok stack"
proof -
  have e: "names_profile m' i" "profile (slot_of m' i) = profile (slot_of m i)"
    "entry_denies m' ok i = entry_denies m ok i" if "i \<in> set stack" for i
  proof -
    have "names_profile m i" using assms(2) that by (simp add: list_all_iff)
    then show "names_profile m' i" "profile (slot_of m' i) = profile (slot_of m i)"
      using assms(1) by (auto simp: names_profile_def slot_of_def keeps_profiles_def)
    then show "entry_denies m' ok i = entry_denies m ok i"
      using \<open>names_profile m i\<close> by (simp add: entry_denies_def)
  qed
  have "find (entry_denies m' ok) stack = find (entry_denies m ok) stack"
    by (rule find_cong) (simp_all add: e)
  moreover have "find (\<lambda>i. \<not> ok (profile (slot_of m' i))) stack = find (\<lambda>i. \<not> ok (profile (slot_of m i))) stack"
    by (rule find_cong) (simp_all add: e)
  moreover have "find (entry_denies m ok) stack = Some i \<Longrightarrow> names_profile m' i = names_profile m i" for i
    using e(1) assms(2) by (auto simp: find_Some_iff list_all_iff)
  ultimately show ?thesis by (simp add: outcome_def split: option.splits)
qed

text \<open>
  (C13) Confinement is permanent: whatever profiles are loaded, whatever is checked and whether or not
  the policy is frozen in between, every check of a process confined by loaded profiles gives the
  answer it gave before.
\<close>

theorem mac_confinement_permanent:
  assumes "reachable (\<lambda>_. True) mac_step m m'" and "list_all (names_profile m) stack"
  shows "fst (check_syscall stack pid n m') = fst (check_syscall stack pid n m)
    \<and> fst (check_file stack pid nm op m') = fst (check_file stack pid nm op m)
    \<and> fst (check_net stack pid op' addr port m') = fst (check_net stack pid op' addr port m)
    \<and> fst (check_exec stack pid nm m') = fst (check_exec stack pid nm m)"
  using keeps_outcome [OF reachable_keeps [OF assms(1)] assms(2)]
  by (simp add: check_syscall_def check_file_def check_net_def check_exec_def Let_def eval_outcome)

lemma example_names: "list_all (names_profile example_mac) [1]" "fst (check_syscall [1] 7 32 example_mac) = -1"
  by code_simp+

theorem mac_confinement_permanent_witness:
  "fst (check_syscall [1] 7 32 (mac_step (LoadOp (byte_str ''app'') (byte_str ''allow syscall *'')) example_mac)) = -1"
proof -
  let ?m' = "mac_step (LoadOp (byte_str ''app'') (byte_str ''allow syscall *'')) example_mac"
  have "reachable (\<lambda>_. True) mac_step example_mac ?m'" by (rule reachable_step [OF reachable_init]) simp
  from mac_confinement_permanent [OF this example_names(1), of 7 32] show ?thesis
    by (simp add: example_names(2) del: mac_step.simps)
qed

text \<open>
  (C30) The verdict on an operation: nothing on the stack means unconfined; a stack too long, or an
  entry that names no loaded profile, denies; otherwise the first enforcing profile that does not allow
  the operation denies it under its id, and only when there is none does the first complaining profile
  report itself while the operation goes ahead.
\<close>

theorem mac_eval_outcome:
  "fst (eval stack kind pid a b ok m) =
    (if stack = [] then 0 else if length stack > MAX_STACK then - DENIER_INVALID else outcome m ok stack)"
  by (rule eval_outcome)

lemma exec_stack_child:
  assumes "exec_stack parent new_id = Ok st"
  shows "take (stack_n st) (ids st) = (if new_id \<noteq> 0 \<and> new_id \<notin> set parent then parent @ [new_id] else parent)"
    and "stack_n st \<le> MAX_STACK" and "length parent \<le> MAX_STACK"
  using assms by (auto simp: exec_stack_def Let_def copy_prefix_def take_Suc_conv_app_nth nth_append
      split: if_splits)

text \<open>
  (C15) A confined program cannot shed its confinement by starting another: the stack of the child denies
  exactly what the stack of the parent denies and what the program's own profile denies.
\<close>

theorem mac_exec_keeps_confinement:
  assumes "exec_stack parent new_id = Ok st"
  shows "fst (eval (take (stack_n st) (ids st)) kind pid a b ok m) < 0 \<longleftrightarrow>
     fst (eval parent kind pid a b ok m) < 0 \<or> new_id \<noteq> 0 \<and> entry_denies m ok new_id"
proof -
  note c = exec_stack_child [OF assms]
  have "length (take (stack_n st) (ids st)) \<le> MAX_STACK" using c(2) by simp
  moreover have "outcome m ok [] = 0" by (simp add: outcome_def)
  ultimately show ?thesis using c(3) unfolding eval_outcome c(1) by (auto simp: outcome_denied)
qed

theorem mac_exec_keeps_confinement_witness:
  "fst (eval [1, 2] KIND_EXEC 7 0 0 (\<lambda>p. allows_exec p (byte_str ''EVIL.ELF'')) example_mac) < 0"
proof -
  have s: "exec_stack [1] 2 = Ok \<lparr>ids = [1, 2, 0, 0], stack_n = 2\<rparr>" by code_simp
  have "entry_denies example_mac (\<lambda>p. allows_exec p (byte_str ''EVIL.ELF'')) 2"
    by (simp add: entry_denies_def) code_simp
  with mac_exec_keeps_confinement [OF s, of KIND_EXEC 7 0 0 "\<lambda>p. allows_exec p (byte_str ''EVIL.ELF'')" example_mac]
  show ?thesis by simp
qed

section \<open>Freezing\<close>

definition profiles :: "mac \<Rightarrow> (bool \<times> bytes \<times> policy) list" where
  "profiles m = map (\<lambda>s. (in_use s, slot_name s, profile s)) (slots m)"

lemma same_profiles_list: "same_profiles m m' \<Longrightarrow> profiles m' = profiles m"
  unfolding profiles_def by (rule nth_equalityI) (auto simp: same_profiles_def slot_name_def)

lemma step_frozen:
  assumes "frozen m"
  shows "frozen (mac_step op m) \<and> profiles (mac_step op m) = profiles m"
proof (cases op)
  case (LoadOp nm t)
  have "snd (load m nm t) = m" using load_cases [of m nm t] assms by metis
  then show ?thesis using assms by (simp add: LoadOp)
next
  case FreezeOp
  then show ?thesis by (simp add: freeze_def profiles_def)
qed (use assms check_same [of m] same_profiles_list in \<open>auto simp: same_profiles_def\<close>)

interpretation frozen_policy: latch "\<lambda>_. True" mac_step frozen profiles
  by unfold_locales (simp_all add: step_frozen)

text \<open>
  (C31) Freezing is one-way: from a frozen state no sequence of calls thaws the policy or changes the
  table of profiles.
\<close>

theorem mac_freeze_is_final:
  assumes "reachable (\<lambda>_. True) mac_step m m'" and "frozen m"
  shows "frozen m' \<and> profiles m' = profiles m"
  using assms by (rule frozen_policy.latched_forever)

theorem mac_freeze_is_final_witness:
  "profiles (mac_step (LoadOp (byte_str ''app'') example_text) (freeze mac_new)) = profiles (freeze mac_new)"
proof -
  have "reachable (\<lambda>_. True) mac_step (freeze mac_new) (mac_step (LoadOp (byte_str ''app'') example_text) (freeze mac_new))"
    by (rule reachable_step [OF reachable_init]) simp
  moreover have "frozen (freeze mac_new)" by (simp add: freeze_def)
  ultimately show ?thesis using mac_freeze_is_final by blast
qed

section \<open>Loading\<close>

text \<open>
  The type of the module state: arrays of their fixed sizes, and every loaded profile a well-formed
  policy under a valid name, no two the same.
\<close>

definition slot_ok :: "slot \<Rightarrow> bool" where
  "slot_ok s \<longleftrightarrow> length (name s) = NAME_LEN \<and> unat (name_len s) \<le> NAME_LEN
     \<and> (in_use s \<longrightarrow> valid_profile_name (slot_name s) \<and> policy_ok (profile s))"

definition mac_ok :: "mac \<Rightarrow> bool" where
  "mac_ok m \<longleftrightarrow> length (slots m) = MAX_PROFILES \<and> length (audit m) = AUDIT_LEN \<and> list_all slot_ok (slots m)
     \<and> uniq (\<lambda>s. (slot_name s, profile s)) in_use (slots m)"

lemma mac_ok_new: "mac_ok mac_new"
  by (simp add: mac_ok_def mac_new_def slot_EMPTY_def slot_ok_def list_all_iff uniq_none)

lemma length_eval_loop: "length (audit (snd (eval_loop kind pid a b ok stack fc m))) = length (audit m)"
  by (induction stack arbitrary: fc m) (simp_all add: Let_def record_audit_def)

lemma same_profiles_ok:
  assumes "same_profiles m m'" and "length (audit m') = length (audit m)" and "mac_ok m"
  shows "mac_ok m'"
proof -
  have l: "length (slots m') = length (slots m)" using assms(1) by (simp add: same_profiles_def)
  have "slot_ok (slots m' ! k) = slot_ok (slots m ! k)" for k
    using assms(1) by (simp add: same_profiles_def slot_ok_def slot_name_def)
  then have "list_all slot_ok (slots m') = list_all slot_ok (slots m)" by (simp add: list_all_length l)
  moreover have "uniq (\<lambda>s. (slot_name s, profile s)) in_use (slots m') = uniq (\<lambda>s. (slot_name s, profile s)) in_use (slots m)"
    using assms(1) by (simp add: uniq_nth l same_profiles_def slot_name_def)
  ultimately show ?thesis using assms(2,3) l by (simp add: mac_ok_def)
qed

lemma load_ok:
  assumes "mac_ok m"
  shows "mac_ok (snd (load m nm t))"
proof (cases rule: load_cases [of m nm t])
  case 1
  then show ?thesis using assms by simp
next
  case (2 i pol)
  let ?s = "slot_EMPTY\<lparr>in_use := True, name := copy_prefix nm (name slot_EMPTY),
              name_len := of_nat (length nm), profile := pol\<rparr>"
  have n: "length nm \<le> NAME_LEN" using 2 by (simp add: valid_profile_name_def)
  then have "unat (of_nat (length nm) :: u8) \<le> NAME_LEN"
    by (subst unat_of_nat_small) (simp_all add: NAME_LEN_def)
  then have "slot_ok ?s"
    using 2 n parse_grants(1) [OF 2(3)] slot_name_installed [OF 2(2), of pol]
    by (simp add: slot_ok_def slot_EMPTY_def)
  moreover have "uniq (\<lambda>s. (slot_name s, profile s)) in_use ((slots m)[i := ?s])"
    using assms 2(4) slot_name_installed [OF 2(2), of pol]
    by (intro uniq_update) (auto simp: mac_ok_def dest: nth_mem)
  ultimately show ?thesis using assms 2(7) by (simp add: mac_ok_def list_all_update)
qed

lemma check_audit_length:
  "length (audit (snd (check_syscall stack pid n m))) = length (audit m)"
  "length (audit (snd (check_file stack pid nm op m))) = length (audit m)"
  "length (audit (snd (check_net stack pid op addr port m))) = length (audit m)"
  "length (audit (snd (check_exec stack pid nm m))) = length (audit m)"
  by (simp_all add: check_syscall_def check_file_def check_net_def check_exec_def Let_def eval_def length_eval_loop)

lemma step_ok:
  assumes "mac_ok m"
  shows "mac_ok (mac_step op m)"
proof (cases op)
  case (LoadOp nm t)
  then show ?thesis using load_ok [OF assms] by simp
next
  case FreezeOp
  then show ?thesis using assms by (simp add: freeze_def mac_ok_def)
qed (auto intro!: same_profiles_ok [OF check_same(1)] same_profiles_ok [OF check_same(2)]
      same_profiles_ok [OF check_same(3)] same_profiles_ok [OF check_same(4)] simp: check_audit_length assms)

interpretation mac_machine: invariant_machine "\<lambda>_. True" mac_step mac_new mac_ok
  by unfold_locales (simp_all add: mac_ok_new step_ok)

text \<open>
  Every state the module reaches is well-typed: the arrays keep their sizes, and every loaded
  profile has a valid name and a well-formed policy (rule counts within the arrays, patterns valid,
  permission bits known, port ranges ordered), no two slots holding the same profile.
\<close>

theorem mac_reachable_ok: "reachable (\<lambda>_. True) mac_step mac_new m \<Longrightarrow> mac_ok m"
  by (rule mac_machine.reachable_inv)

theorem mac_reachable_ok_witness: "mac_ok (mac_step (LoadOp (byte_str ''app'') example_text) mac_new)"
  by (rule mac_reachable_ok, rule reachable_step [OF reachable_init]) simp

text \<open>
  A successful load names a slot that holds the requested name with the policy the text parses to,
  and loading the same text again gives the same id and changes nothing.
\<close>

theorem mac_load_installs:
  assumes "mac_ok m" and "load m nm t = (Ok i, m')"
  shows "names_profile m' i \<and> slot_name (slot_of m' i) = nm \<and> parse t = Ok (profile (slot_of m' i))
    \<and> load m' nm t = (Ok i, m')"
proof -
  have valid: "valid_profile_name nm" using assms(2) by (auto simp: load_def split: if_splits)
  obtain pol where pol: "parse t = Ok pol" using assms(2) valid by (auto simp: load_def split: result.splits)
  let ?P = "\<lambda>s. in_use s \<and> slot_name s = nm \<and> profile s = pol"
  have *: "names_profile m' i \<and> slot_name (slot_of m' i) = nm \<and> parse t = Ok (profile (slot_of m' i))
      \<and> load m' nm t = (Ok i, m')"
    if k: "position ?P (slots m') = Some k" "i = of_nat (k + 1)" "length (slots m') = MAX_PROFILES" for k
  proof -
    have kl: "k < MAX_PROFILES" and P: "?P (slots m' ! k)" using position_SomeD [OF k(1)] k(3) by auto
    have u: "unat i = k + 1" unfolding k(2) using kl
      by (intro unat_of_nat_small) (simp add: MAX_PROFILES_def)
    have "slot_of m' i = slots m' ! k" by (simp add: slot_of_def u)
    then show ?thesis using P u kl valid pol k(1,2) by (simp add: names_profile_def load_def)
  qed
  have l: "length (slots m) = MAX_PROFILES" using assms(1) by (simp add: mac_ok_def)
  show ?thesis
  proof (cases "position ?P (slots m)")
    case (Some k)
    then have "i = of_nat (k + 1)" "m' = m" using assms(2) valid pol by (auto simp: load_def)
    then show ?thesis using Some l by (intro *) simp_all
  next
    case None
    let ?s = "slot_EMPTY\<lparr>in_use := True, name := copy_prefix nm (name slot_EMPTY),
              name_len := of_nat (length nm), profile := pol\<rparr>"
    obtain k where k: "position (\<lambda>s. \<not> in_use s) (slots m) = Some k"
      and m': "m' = m\<lparr>slots := (slots m)[k := ?s]\<rparr>" "i = of_nat (k + 1)"
      using assms(2) valid pol None by (auto simp: load_def split: if_splits option.splits)
    have "\<not> ?P (slots m ! j)" if "j < length (slots m)" for j
      using None nth_mem [OF that] unfolding position_None by blast
    then have "position ?P ((slots m)[k := ?s]) = Some k"
      using position_SomeD(1) [OF k] slot_name_installed [OF valid, of pol] unfolding position_Some
      by (auto simp: nth_list_update)
    then show ?thesis using m' l by (intro *) simp_all
  qed
qed

theorem mac_load_installs_witness: "load example_mac (byte_str ''app'') example_text = (Ok 1, example_mac)"
proof -
  have "load mac_new (byte_str ''app'') example_text = (Ok 1, example_mac)"
    unfolding example_mac_def by (rule prod_eqI) (code_simp, simp)
  from mac_load_installs [OF mac_ok_new this] show ?thesis by simp
qed

section \<open>Auditing\<close>

lemma eval_loop_denied:
  assumes "fst (eval_loop kind pid a b ok stack fc m) < 0"
  shows "\<exists>m0. snd (eval_loop kind pid a b ok stack fc m) =
      record_audit kind False pid (if fst (eval_loop kind pid a b ok stack fc m) = - DENIER_INVALID then 0
        else of_int (- fst (eval_loop kind pid a b ok stack fc m))) a b m0
    \<and> length (audit m0) = length (audit m)
    \<and> (unat (audit_next m) + length stack < 2 ^ 32 \<longrightarrow> unat (audit_next m0) + 1 < 2 ^ 32)"
  using assms
proof (induction stack arbitrary: fc m)
  case Nil
  then show ?case by simp
next
  case (Cons i stack)
  let ?s = "slot_of m i"
  let ?m1 = "m\<lparr>slots := (slots m)[unat i - 1 := ?s\<lparr>allowed := allowed ?s + 1\<rparr>]\<rparr>"
  let ?m2 = "record_audit kind True pid i a b (m\<lparr>slots := (slots m)[unat i - 1 := ?s\<lparr>complained := complained ?s + 1\<rparr>],
                total_complained := total_complained m + 1\<rparr>)"
  consider (bad) "\<not> names_profile m i" | (ok) "names_profile m i" "ok (profile ?s)"
    | (complain) "names_profile m i" "\<not> ok (profile ?s)" "complain (profile ?s)"
    | (deny) "names_profile m i" "\<not> ok (profile ?s)" "\<not> complain (profile ?s)" by blast
  then show ?case
  proof cases
    case bad
    then show ?thesis by (auto intro!: exI)
  next
    case ok
    then have e: "eval_loop kind pid a b ok (i # stack) fc m = eval_loop kind pid a b ok stack fc ?m1"
      by (simp add: Let_def)
    show ?thesis using Cons.IH [of fc ?m1] Cons.prems unfolding e by auto
  next
    case complain
    let ?fc = "if fc = 0 then i else fc"
    from complain have e: "eval_loop kind pid a b ok (i # stack) fc m = eval_loop kind pid a b ok stack ?fc ?m2"
      by (simp add: Let_def)
    have "unat (audit_next ?m2) + length stack < 2 ^ 32" if "unat (audit_next m) + length (i # stack) < 2 ^ 32"
      using that by (simp add: record_audit_def unat_word_ariths)
    moreover have "length (audit ?m2) = length (audit m)" by (simp add: record_audit_def)
    ultimately show ?thesis using Cons.IH [of ?fc ?m2] Cons.prems unfolding e by auto
  next
    case deny
    let ?m3 = "m\<lparr>slots := (slots m)[unat i - 1 := ?s\<lparr>denied := denied ?s + 1\<rparr>], total_denied := total_denied m + 1\<rparr>"
    have "unat i \<le> 32" using deny(1) by (simp add: names_profile_def MAX_PROFILES_def)
    then have "- int (unat i) \<noteq> - 255" by linarith
    moreover have "eval_loop kind pid a b ok (i # stack) fc m = (- int (unat i), record_audit kind False pid i a b ?m3)"
      using deny by (simp add: Let_def)
    ultimately show ?thesis by (intro exI [of _ ?m3]) simp
  qed
qed

lemma audit_newest:
  assumes "length (audit m0) = AUDIT_LEN" and "unat (audit_next m0) + 1 < 2 ^ 32"
  shows "audit_recent (record_audit kind c pid prof a b m0) 0 =
    Some \<lparr>ar_kind = kind, ar_complained = c, ar_pid = pid, ar_profile = prof, ar_a = a, ar_b = b\<rparr>"
proof -
  have u: "unat (audit_next m0 + 1) = unat (audit_next m0) + 1" using assms(2) by (simp add: unat_word_ariths)
  have "\<not> audit_next m0 + 1 \<le> 0" using u by (simp add: word_le_nat_alt)
  then show ?thesis using assms(1) u by (simp add: audit_recent_def record_audit_def AUDIT_LEN_def)
qed

text \<open>
  No denial goes unrecorded: after a check that denies, the newest audit record names the kind of
  operation, the process, its arguments and the profile that denied it (0 for an entry that names no
  profile).  The record counter is assumed not to wrap during the check.
\<close>

theorem mac_denial_audited:
  assumes "mac_ok m" and "length stack \<le> MAX_STACK" and "unat (audit_next m) + MAX_STACK < 2 ^ 32"
    and "eval stack kind pid a b ok m = (r, m')" and "r < 0"
  shows "audit_recent m' 0 = Some \<lparr>ar_kind = kind, ar_complained = False, ar_pid = pid,
     ar_profile = (if r = - DENIER_INVALID then 0 else of_int (- r)), ar_a = a, ar_b = b\<rparr>"
proof -
  have e: "eval_loop kind pid a b ok stack 0 m = (r, m')"
    using assms(2,4,5) by (auto simp: eval_def split: if_splits)
  obtain m0 where m0: "m' = record_audit kind False pid (if r = - DENIER_INVALID then 0 else of_int (- r)) a b m0"
    "length (audit m0) = AUDIT_LEN" "unat (audit_next m0) + 1 < 2 ^ 32"
    using eval_loop_denied [of kind pid a b ok stack 0 m] assms(1,2,3,5) unfolding e fst_conv snd_conv mac_ok_def
    by auto
  show ?thesis unfolding m0(1) by (rule audit_newest [OF m0(2,3)])
qed

theorem mac_denial_audited_witness:
  "audit_recent (snd (check_syscall [99] 1 1 mac_new)) 0 = Some \<lparr>ar_kind = KIND_SYSCALL, ar_complained = False,
     ar_pid = 1, ar_profile = 0, ar_a = 1, ar_b = 0\<rparr>"
proof -
  have "fst (check_syscall [99] 1 1 mac_new) = -255" by code_simp
  then have "eval [99] KIND_SYSCALL 1 1 0 (\<lambda>p. allows_syscall p 1) mac_new = (-255, snd (check_syscall [99] 1 1 mac_new))"
    by (simp add: check_syscall_def prod_eq_iff)
  from mac_denial_audited [OF mac_ok_new _ _ this] show ?thesis
    by (simp add: MAX_STACK_def mac_new_def)
qed

end
