(* ===== verification/Fwpacket.thy ===== *)
theory Fwpacket
  imports Prelude
begin

text \<open>
  The packets the firewall sees (\<open>src/kernel/rust/firewall.rs\<close>): the transport header of one IP
  packet, read from bytes an attacker controls.  An index out of range is a panic of the kernel; it is
  \<open>None\<close> here, and the parser is shown never to reach one.
\<close>

section \<open>Data\<close>

abbreviation PROTO_ICMP :: u8 where "PROTO_ICMP \<equiv> 1"
abbreviation PROTO_TCP :: u8 where "PROTO_TCP \<equiv> 6"
abbreviation PROTO_UDP :: u8 where "PROTO_UDP \<equiv> 17"

abbreviation DIR_IN :: u8 where "DIR_IN \<equiv> 0"
abbreviation DIR_OUT :: u8 where "DIR_OUT \<equiv> 1"
abbreviation DIR_ANY :: u8 where "DIR_ANY \<equiv> 2"

abbreviation BAD_NONE :: u8 where "BAD_NONE \<equiv> 0"
abbreviation BAD_MALFORMED :: u8 where "BAD_MALFORMED \<equiv> 1"
abbreviation BAD_UNSUPPORTED :: u8 where "BAD_UNSUPPORTED \<equiv> 2"
abbreviation BAD_FRAGMENT :: u8 where "BAD_FRAGMENT \<equiv> 3"

record inner =
  i_proto :: u8
  i_src :: u32
  i_dst :: u32
  i_sport :: u16
  i_dport :: u16

record pkt =
  p_dir :: u8
  p_proto :: u8
  p_src :: u32
  p_dst :: u32
  p_sport :: u16
  p_dport :: u16
  p_flags :: u8
  p_icmp_type :: u8
  p_icmp_code :: u8
  p_id :: u16
  p_len :: u16
  p_bad :: u8
  p_inner :: "inner option"

definition pkt_blank :: pkt where
  "pkt_blank = \<lparr>p_dir = DIR_IN, p_proto = 0, p_src = 0, p_dst = 0, p_sport = 0, p_dport = 0, p_flags = 0,
     p_icmp_type = 0, p_icmp_code = 0, p_id = 0, p_len = 0, p_bad = BAD_NONE, p_inner = None\<rparr>"

section \<open>Reading bytes\<close>

definition byte_at :: "bytes \<Rightarrow> usize \<Rightarrow> u8 option" where
  "byte_at b i = (if i < length b then Some (b ! i) else None)"

definition be16 :: "bytes \<Rightarrow> usize \<Rightarrow> u16 option" where
  "be16 b i =
    (case (byte_at b i, byte_at b (i + 1)) of
       (Some x, Some y) \<Rightarrow> Some (or (push_bit 8 (ucast x)) (ucast y))
     | _ \<Rightarrow> None)"

definition be32 :: "bytes \<Rightarrow> usize \<Rightarrow> u32 option" where
  "be32 b i =
    (case (byte_at b i, byte_at b (i + 1), byte_at b (i + 2), byte_at b (i + 3)) of
       (Some w, Some x, Some y, Some z) \<Rightarrow>
         Some (or (or (or (push_bit 24 (ucast w)) (push_bit 16 (ucast x))) (push_bit 8 (ucast y))) (ucast z))
     | _ \<Rightarrow> None)"

definition is_icmp_error :: "u8 \<Rightarrow> bool" where
  "is_icmp_error t \<longleftrightarrow> t = 3 \<or> t = 4 \<or> t = 5 \<or> t = 11 \<or> t = 12"

section \<open>The parser\<close>

definition parse_tcp :: "pkt \<Rightarrow> bytes \<Rightarrow> pkt option" where
  "parse_tcp p d =
    (if length d < 20 then Some (p\<lparr>p_bad := BAD_MALFORMED\<rparr>)
     else case byte_at d 12 of
        None \<Rightarrow> None
      | Some b12 \<Rightarrow>
         let doff = unat (drop_bit 4 b12) * 4 in
         if doff < 20 \<or> doff > length d then Some (p\<lparr>p_bad := BAD_MALFORMED\<rparr>)
         else case (be16 d 0, be16 d 2, byte_at d 13) of
            (Some sp, Some dp, Some fl) \<Rightarrow> Some (p\<lparr>p_sport := sp, p_dport := dp, p_flags := and fl 0x3F\<rparr>)
          | _ \<Rightarrow> None)"

definition parse_udp :: "pkt \<Rightarrow> bytes \<Rightarrow> pkt option" where
  "parse_udp p d =
    (if length d < 8 then Some (p\<lparr>p_bad := BAD_MALFORMED\<rparr>)
     else case be16 d 4 of
        None \<Rightarrow> None
      | Some u \<Rightarrow>
         let ulen = unat u in
         if ulen < 8 \<or> ulen > length d then Some (p\<lparr>p_bad := BAD_MALFORMED\<rparr>)
         else case (be16 d 0, be16 d 2) of
            (Some sp, Some dp) \<Rightarrow> Some (p\<lparr>p_sport := sp, p_dport := dp\<rparr>)
          | _ \<Rightarrow> None)"

text \<open>The packet quoted by an ICMP error; \<open>ip = &d[8..]\<close>.\<close>

definition parse_quoted :: "pkt \<Rightarrow> bytes \<Rightarrow> pkt option" where
  "parse_quoted p ip =
    (if length ip < 20 then Some (p\<lparr>p_bad := BAD_MALFORMED\<rparr>)
     else case byte_at ip 0 of
        None \<Rightarrow> None
      | Some b0 \<Rightarrow>
         if drop_bit 4 b0 \<noteq> 4 then Some (p\<lparr>p_bad := BAD_MALFORMED\<rparr>)
         else
           let ihl = unat (and b0 0x0F) * 4 in
           if ihl < 20 \<or> length ip < ihl + 4 then Some (p\<lparr>p_bad := BAD_MALFORMED\<rparr>)
           else case (byte_at ip 9, be32 ip 12, be32 ip 16) of
              (Some iproto, Some isrc, Some idst) \<Rightarrow>
                if iproto = PROTO_TCP \<or> iproto = PROTO_UDP then
                  (case (be16 ip ihl, be16 ip (ihl + 2)) of
                     (Some sp, Some dp) \<Rightarrow>
                       Some (p\<lparr>p_inner := Some \<lparr>i_proto = iproto, i_src = isrc, i_dst = idst,
                                                i_sport = sp, i_dport = dp\<rparr>\<rparr>)
                   | _ \<Rightarrow> None)
                else if iproto = PROTO_ICMP then
                  if length ip \<ge> ihl + 8 then
                    (case byte_at ip ihl of
                       None \<Rightarrow> None
                     | Some t \<Rightarrow>
                        if t = 8 \<or> t = 0 then
                          (case be16 ip (ihl + 4) of
                             None \<Rightarrow> None
                           | Some i \<Rightarrow>
                              Some (p\<lparr>p_inner := Some \<lparr>i_proto = iproto, i_src = isrc, i_dst = idst,
                                                       i_sport = i, i_dport = i\<rparr>\<rparr>))
                        else Some p)
                  else Some p
                else Some p
            | _ \<Rightarrow> None)"

definition parse_icmp :: "pkt \<Rightarrow> bytes \<Rightarrow> pkt option" where
  "parse_icmp p d =
    (if length d < 8 then Some (p\<lparr>p_bad := BAD_MALFORMED\<rparr>)
     else case (byte_at d 0, byte_at d 1) of
        (Some ty, Some co) \<Rightarrow>
          let p = p\<lparr>p_icmp_type := ty, p_icmp_code := co\<rparr> in
          if ty = 0 \<or> ty = 8 then map_option (\<lambda>i. p\<lparr>p_id := i\<rparr>) (be16 d 4)
          else if is_icmp_error ty then parse_quoted p (drop 8 d)
          else Some p
      | _ \<Rightarrow> None)"

definition parse_packet :: "u8 \<Rightarrow> u32 \<Rightarrow> u32 \<Rightarrow> u8 \<Rightarrow> bool \<Rightarrow> bytes \<Rightarrow> pkt option" where
  "parse_packet dir src dst proto frag d =
    (let p = pkt_blank\<lparr>p_dir := dir, p_proto := proto, p_src := src, p_dst := dst,
               p_len := of_nat (min (length d) 0xFFFF)\<rparr> in
     if frag then Some (p\<lparr>p_bad := BAD_FRAGMENT\<rparr>)
     else if proto = PROTO_TCP then parse_tcp p d
     else if proto = PROTO_UDP then parse_udp p d
     else if proto = PROTO_ICMP then parse_icmp p d
     else Some (p\<lparr>p_bad := BAD_UNSUPPORTED\<rparr>))"

section \<open>No packet makes the parser read out of bounds\<close>

lemma byte_at_in [simp]: "i < length b \<Longrightarrow> byte_at b i = Some (b ! i)"
  by (simp add: byte_at_def)

lemma be16_in: "i + 1 < length b \<Longrightarrow> be16 b i = Some (or (push_bit 8 (ucast (b ! i))) (ucast (b ! (i + 1))))"
  by (simp add: be16_def)

lemma be32_in: "i + 3 < length b \<Longrightarrow> \<exists>w. be32 b i = Some w"
  by (simp add: be32_def)

lemma parse_tcp_total: "\<exists>q. parse_tcp p d = Some q"
  by (simp add: parse_tcp_def be16_in Let_def)

lemma parse_udp_total: "\<exists>q. parse_udp p d = Some q"
  by (simp add: parse_udp_def be16_in Let_def)

lemma parse_quoted_total: "\<exists>q. parse_quoted p ip = Some q"
proof -
  consider "length ip < 20" | "20 \<le> length ip" by linarith
  then show ?thesis
  proof cases
    case 1
    then show ?thesis by (simp add: parse_quoted_def)
  next
    case 2
    then obtain s d where "be32 ip 12 = Some s" "be32 ip 16 = Some d"
      using be32_in [of 12 ip] be32_in [of 16 ip] by auto
    moreover have "byte_at ip 0 = Some (ip ! 0)" using 2 by (intro byte_at_in) linarith
    ultimately show ?thesis using 2 by (simp add: parse_quoted_def be16_in Let_def)
  qed
qed

lemma parse_icmp_total: "\<exists>q. parse_icmp p d = Some q"
proof (cases "length d < 8")
  case True
  then show ?thesis by (simp add: parse_icmp_def)
next
  case False
  then have "byte_at d 0 = Some (d ! 0)" by (intro byte_at_in) linarith
  with False show ?thesis by (simp add: parse_icmp_def be16_in Let_def parse_quoted_total)
qed

lemma parse_packet_safe: "\<exists>p. parse_packet dir src dst proto frag d = Some p"
  by (simp add: parse_packet_def Let_def parse_tcp_total parse_udp_total parse_icmp_total)

text \<open>What a parsed packet is, whatever the bytes: addresses and direction are the caller's.\<close>

lemma parse_packet_frame:
  assumes "parse_packet dir src dst proto frag d = Some p"
  shows "p_dir p = dir \<and> p_src p = src \<and> p_dst p = dst \<and> p_proto p = proto"
  using assms
  by (auto simp: parse_packet_def parse_tcp_def parse_udp_def parse_icmp_def parse_quoted_def pkt_blank_def Let_def
      split: if_splits option.splits)

text \<open>
  (C16) Whatever bytes arrive, the packet parser returns: no header, however truncated or inconsistent,
  makes it index outside the packet.  A packet of a known protocol that is not marked bad is not a
  fragment and holds at least the fixed part of its header.
\<close>

theorem parse_packet_total:
  "\<exists>p. parse_packet dir src dst proto frag d = Some p \<and> p_dir p = dir \<and> p_src p = src \<and> p_dst p = dst
     \<and> (p_bad p = BAD_NONE \<longrightarrow> \<not> frag \<and> (proto = PROTO_TCP \<and> 20 \<le> length d
          \<or> (proto = PROTO_UDP \<or> proto = PROTO_ICMP) \<and> 8 \<le> length d))"
proof -
  obtain p where p: "parse_packet dir src dst proto frag d = Some p" using parse_packet_safe by blast
  have "p_bad p = BAD_NONE \<longrightarrow> \<not> frag \<and> (proto = PROTO_TCP \<and> 20 \<le> length d
          \<or> (proto = PROTO_UDP \<or> proto = PROTO_ICMP) \<and> 8 \<le> length d)"
    using p by (auto simp: parse_packet_def parse_tcp_def parse_udp_def parse_icmp_def Let_def split: if_splits)
  with p parse_packet_frame [OF p] show ?thesis by blast
qed

theorem parse_packet_total_witness:
  "\<exists>p. parse_packet DIR_IN 1 2 PROTO_UDP False [0, 53, 0, 54, 0, 8, 0, 0] = Some p \<and> p_src p = 1 \<and> p_dst p = 2"
  using parse_packet_total [of DIR_IN 1 2 PROTO_UDP False "[0, 53, 0, 54, 0, 8, 0, 0]"] by (elim exE conjE) (intro exI conjI)

end
