(* ===== verification/Fwrules.thy ===== *)
theory Fwrules
  imports Fwpacket Lexer
begin

text \<open>
  The rules of the firewall and the language they are written in (\<open>src/kernel/rust/firewall.rs\<close>).
\<close>

section \<open>Rules\<close>

definition MAX_RULES :: usize where [kconst]: "MAX_RULES = 32"
definition MAX_CONFIG_TEXT :: usize where [kconst]: "MAX_CONFIG_TEXT = 4096"
definition MAX_LINE :: usize where [kconst]: "MAX_LINE = 200"

abbreviation ST_NEW :: u8 where "ST_NEW \<equiv> 1"
abbreviation ST_ESTABLISHED :: u8 where "ST_ESTABLISHED \<equiv> 2"
abbreviation ST_RELATED :: u8 where "ST_RELATED \<equiv> 4"
abbreviation ST_INVALID :: u8 where "ST_INVALID \<equiv> 8"

record rule =
  r_dir :: u8
  r_proto :: u8
  r_accept :: bool
  r_log :: bool
  src_ip :: u32
  src_mask :: u32
  dst_ip :: u32
  dst_mask :: u32
  sp_set :: bool
  sp_lo :: u16
  sp_hi :: u16
  dp_set :: bool
  dp_lo :: u16
  dp_hi :: u16
  states :: u8
  icmp_set :: bool
  r_icmp_type :: u8

definition rule_EMPTY :: rule where
  "rule_EMPTY = \<lparr>r_dir = DIR_IN, r_proto = 0, r_accept = False, r_log = False, src_ip = 0, src_mask = 0,
     dst_ip = 0, dst_mask = 0, sp_set = False, sp_lo = 0, sp_hi = 0, dp_set = False, dp_lo = 0, dp_hi = 0,
     states = 0, icmp_set = False, r_icmp_type = 0\<rparr>"

definition rule_matches :: "rule \<Rightarrow> pkt \<Rightarrow> u8 \<Rightarrow> bool" where
  "rule_matches r p state =
    (if r_dir r \<noteq> DIR_ANY \<and> r_dir r \<noteq> p_dir p then False
     else if r_proto r \<noteq> 0 \<and> r_proto r \<noteq> p_proto p then False
     else if and (p_src p) (src_mask r) \<noteq> src_ip r \<or> and (p_dst p) (dst_mask r) \<noteq> dst_ip r then False
     else
       let has_ports = (p_proto p = PROTO_TCP \<or> p_proto p = PROTO_UDP) in
       if sp_set r \<and> (\<not> has_ports \<or> p_sport p < sp_lo r \<or> p_sport p > sp_hi r) then False
       else if dp_set r \<and> (\<not> has_ports \<or> p_dport p < dp_lo r \<or> p_dport p > dp_hi r) then False
       else if states r \<noteq> 0 \<and> and (states r) state = 0 then False
       else if icmp_set r \<and> (p_proto p \<noteq> PROTO_ICMP \<or> p_icmp_type p \<noteq> r_icmp_type r) then False
       else True)"

section \<open>The language\<close>

datatype parse_error =
    TooLarge
  | BadByte
  | LineTooLong u16
  | Syntax u16
  | BadAddress u16
  | BadPort u16
  | BadState u16
  | BadCombination u16
  | TooManyRules u16

definition parse_cidr :: "bytes \<Rightarrow> (u32 \<times> u32) option" where
  "parse_cidr s =
    (if s = byte_str ''any'' then Some (0, 0)
     else
       case (case position (\<lambda>b. b = 0x2F) s of
               None \<Rightarrow> Some (s, 32)
             | Some i \<Rightarrow> map_option (Pair (take i s)) (parse_u32_dec (drop (i + 1) s) 32)) of
         None \<Rightarrow> None
       | Some (ip_s, bits) \<Rightarrow>
          (case parse_ip ip_s of
             None \<Rightarrow> None
           | Some ip \<Rightarrow>
              let mask = (if bits = 0 then 0 else push_bit (unat (32 - bits)) (- 1)) in
              Some (and ip mask, mask)))"

definition parse_ports :: "bytes \<Rightarrow> (bool \<times> u16 \<times> u16) option" where
  "parse_ports s =
    (if s = byte_str ''any'' then Some (False, 0, 0)
     else case position (\<lambda>b. b = 0x2D) s of
        None \<Rightarrow> (case parse_u32_dec s 65535 of None \<Rightarrow> None | Some v \<Rightarrow> Some (True, ucast v, ucast v))
      | Some i \<Rightarrow>
         (case parse_u32_dec (take i s) 65535 of
            None \<Rightarrow> None
          | Some lo \<Rightarrow>
             (case parse_u32_dec (drop (i + 1) s) 65535 of
                None \<Rightarrow> None
              | Some hi \<Rightarrow>
                 if (ucast lo :: u16) \<le> ucast hi then Some (True, ucast lo, ucast hi) else None)))"

fun parse_states_loop :: "u8 \<Rightarrow> bytes list \<Rightarrow> u8 option" where
  "parse_states_loop m [] = (if m = 0 then None else Some m)"
| "parse_states_loop m (part # rest) =
    (if part = byte_str ''new'' then parse_states_loop (or m ST_NEW) rest
     else if part = byte_str ''established'' then parse_states_loop (or m ST_ESTABLISHED) rest
     else if part = byte_str ''related'' then parse_states_loop (or m ST_RELATED) rest
     else None)"

definition parse_states :: "bytes \<Rightarrow> u8 option" where
  "parse_states s = parse_states_loop 0 (split_on 0x2C s)"

text \<open>The \<open>seen_*\<close> flags of the option loop.\<close>

record seen =
  seen_proto :: bool
  seen_from :: bool
  seen_to :: bool
  seen_sp :: bool
  seen_dp :: bool
  seen_state :: bool
  seen_icmp :: bool

definition seen_none :: seen where
  "seen_none = \<lparr>seen_proto = False, seen_from = False, seen_to = False, seen_sp = False, seen_dp = False,
     seen_state = False, seen_icmp = False\<rparr>"

definition parse_proto :: "bytes \<Rightarrow> u8 option" where
  "parse_proto val =
    (if val = byte_str ''tcp'' then Some PROTO_TCP
     else if val = byte_str ''udp'' then Some PROTO_UDP
     else if val = byte_str ''icmp'' then Some PROTO_ICMP
     else if val = byte_str ''any'' then Some 0
     else None)"

text \<open>One option with its value: the arms of the \<open>match key\<close>, each refused the second time.\<close>

definition parse_option :: "u16 \<Rightarrow> bytes \<Rightarrow> bytes \<Rightarrow> seen \<times> rule \<Rightarrow> (seen \<times> rule, parse_error) result" where
  "parse_option ln key val = (\<lambda>(sn, r).
    if key = byte_str ''proto'' \<and> \<not> seen_proto sn then
      (case parse_proto val of None \<Rightarrow> Err (Syntax ln)
       | Some v \<Rightarrow> Ok (sn\<lparr>seen_proto := True\<rparr>, r\<lparr>r_proto := v\<rparr>))
    else if key = byte_str ''from'' \<and> \<not> seen_from sn then
      (case parse_cidr val of None \<Rightarrow> Err (BadAddress ln)
       | Some (ip, m) \<Rightarrow> Ok (sn\<lparr>seen_from := True\<rparr>, r\<lparr>src_ip := ip, src_mask := m\<rparr>))
    else if key = byte_str ''to'' \<and> \<not> seen_to sn then
      (case parse_cidr val of None \<Rightarrow> Err (BadAddress ln)
       | Some (ip, m) \<Rightarrow> Ok (sn\<lparr>seen_to := True\<rparr>, r\<lparr>dst_ip := ip, dst_mask := m\<rparr>))
    else if key = byte_str ''sport'' \<and> \<not> seen_sp sn then
      (case parse_ports val of None \<Rightarrow> Err (BadPort ln)
       | Some (st, lo, hi) \<Rightarrow> Ok (sn\<lparr>seen_sp := True\<rparr>, r\<lparr>sp_set := st, sp_lo := lo, sp_hi := hi\<rparr>))
    else if key = byte_str ''dport'' \<and> \<not> seen_dp sn then
      (case parse_ports val of None \<Rightarrow> Err (BadPort ln)
       | Some (st, lo, hi) \<Rightarrow> Ok (sn\<lparr>seen_dp := True\<rparr>, r\<lparr>dp_set := st, dp_lo := lo, dp_hi := hi\<rparr>))
    else if key = byte_str ''state'' \<and> \<not> seen_state sn then
      (case parse_states val of None \<Rightarrow> Err (BadState ln)
       | Some m \<Rightarrow> Ok (sn\<lparr>seen_state := True\<rparr>, r\<lparr>states := m\<rparr>))
    else if key = byte_str ''icmp-type'' \<and> \<not> seen_icmp sn then
      (case parse_u32_dec val 255 of None \<Rightarrow> Err (Syntax ln)
       | Some v \<Rightarrow> Ok (sn\<lparr>seen_icmp := True\<rparr>, r\<lparr>icmp_set := True, r_icmp_type := ucast v\<rparr>))
    else Err (Syntax ln))"

text \<open>The option loop over the remaining words.\<close>

fun parse_options :: "u16 \<Rightarrow> bytes list \<Rightarrow> seen \<times> rule \<Rightarrow> (rule, parse_error) result" where
  "parse_options ln [] sr = Ok (snd sr)"
| "parse_options ln (key # toks) sr =
    (if key = byte_str ''log'' then
       if r_log (snd sr) then Err (Syntax ln)
       else parse_options ln toks (fst sr, (snd sr)\<lparr>r_log := True\<rparr>)
     else case toks of
        [] \<Rightarrow> Err (Syntax ln)
      | val # rest \<Rightarrow>
         (case parse_option ln key val sr of
            Err e \<Rightarrow> Err e
          | Ok sr' \<Rightarrow> parse_options ln rest sr'))"

definition parse_action :: "bytes \<Rightarrow> bool option" where
  "parse_action w = (if w = byte_str ''accept'' then Some True else if w = byte_str ''drop'' then Some False else None)"

definition parse_dir :: "bytes \<Rightarrow> u8 option" where
  "parse_dir w =
    (if w = byte_str ''in'' then Some DIR_IN
     else if w = byte_str ''out'' then Some DIR_OUT
     else if w = byte_str ''any'' then Some DIR_ANY
     else None)"

definition parse_rule_tokens :: "u16 \<Rightarrow> bytes list \<Rightarrow> (rule, parse_error) result" where
  "parse_rule_tokens ln toks =
    (case toks of
       a # d # opts \<Rightarrow>
         (case (parse_action a, parse_dir d) of
            (Some acc, Some dir) \<Rightarrow>
              (case parse_options ln opts (seen_none, rule_EMPTY\<lparr>r_accept := acc, r_dir := dir\<rparr>) of
                 Err e \<Rightarrow> Err e
               | Ok r \<Rightarrow>
                  if (sp_set r \<or> dp_set r) \<and> r_proto r \<noteq> PROTO_TCP \<and> r_proto r \<noteq> PROTO_UDP then Err (BadCombination ln)
                  else if icmp_set r \<and> r_proto r \<noteq> PROTO_ICMP then Err (BadCombination ln)
                  else Ok r)
          | _ \<Rightarrow> Err (Syntax ln))
     | _ \<Rightarrow> Err (Syntax ln))"

definition parse_rule :: "bytes \<Rightarrow> (rule, parse_error) result" where
  "parse_rule text =
    (case line_tokens text 0 of
       [] \<Rightarrow> Err (Syntax 1)
     | w # toks \<Rightarrow> if w \<noteq> byte_str ''rule'' then Err (Syntax 1) else parse_rule_tokens 1 toks)"

record config =
  rules :: "rule list"
  n_rules :: usize
  policy_in :: bool
  policy_out :: bool

definition BASELINE :: bytes where
  "BASELINE = byte_str ''policy in drop'' @ [0x0A] @ byte_str ''policy out accept'' @ [0x0A]
     @ byte_str ''rule accept in state established,related'' @ [0x0A]"

definition strip_cr :: "bytes \<Rightarrow> bytes" where
  "strip_cr raw = (if raw \<noteq> [] \<and> last raw = 0x0D then butlast raw else raw)"

definition strip_comment :: "bytes \<Rightarrow> bytes" where
  "strip_comment line = (case position (\<lambda>b. b = 0x23) line of None \<Rightarrow> line | Some i \<Rightarrow> take i line)"

text \<open>A \<open>policy\<close> line; the two flags say which directions were set before.\<close>

definition parse_policy :: "u16 \<Rightarrow> bytes list \<Rightarrow> bool \<times> bool \<times> config \<Rightarrow> (bool \<times> bool \<times> config, parse_error) result" where
  "parse_policy ln toks = (\<lambda>(seen_in, seen_out, c).
    case toks of
      dir # act # extra \<Rightarrow>
        (case parse_action act of
           None \<Rightarrow> Err (Syntax ln)
         | Some accept \<Rightarrow>
            if extra \<noteq> [] then Err (Syntax ln)
            else if dir = byte_str ''in'' \<and> \<not> seen_in then Ok (True, seen_out, c\<lparr>policy_in := accept\<rparr>)
            else if dir = byte_str ''out'' \<and> \<not> seen_out then Ok (seen_in, True, c\<lparr>policy_out := accept\<rparr>)
            else Err (Syntax ln))
    | _ \<Rightarrow> Err (Syntax ln))"

fun parse_config_lines :: "u16 \<Rightarrow> bytes list \<Rightarrow> bool \<times> bool \<times> config \<Rightarrow> (config, parse_error) result" where
  "parse_config_lines n [] s = Ok (snd (snd s))"
| "parse_config_lines n (raw # raws) s =
    (let ln = saturating_add n 1 in
     if length (strip_cr raw) > MAX_LINE then Err (LineTooLong ln)
     else case line_tokens (strip_comment (strip_cr raw)) 0 of
        [] \<Rightarrow> parse_config_lines ln raws s
      | word # toks \<Rightarrow>
         if word = byte_str ''policy'' then
           (case parse_policy ln toks s of
              Err e \<Rightarrow> Err e
            | Ok s' \<Rightarrow> parse_config_lines ln raws s')
         else if word = byte_str ''rule'' then
           let c = snd (snd s) in
           if n_rules c \<ge> MAX_RULES then Err (TooManyRules ln)
           else case parse_rule_tokens ln toks of
              Err e \<Rightarrow> Err e
            | Ok r \<Rightarrow>
               parse_config_lines ln raws
                 (fst s, fst (snd s), c\<lparr>rules := (rules c)[n_rules c := r], n_rules := n_rules c + 1\<rparr>)
         else Err (Syntax ln))"

definition parse_config :: "bytes \<Rightarrow> (config, parse_error) result" where
  "parse_config text =
    (if length text > MAX_CONFIG_TEXT then Err TooLarge
     else if \<not> list_all (\<lambda>b. b = 0x0A \<or> b = 0x0D \<or> b = 0x09 \<or> 0x20 \<le> b \<and> b < 0x7F) text then Err BadByte
     else parse_config_lines 0 (split_on 0x0A text)
       (False, False, \<lparr>rules = replicate MAX_RULES rule_EMPTY, n_rules = 0, policy_in = False, policy_out = True\<rparr>))"

lemma parse_config_code [code]:
  "parse_config text =
    (if int (length text) > 4096 then Err TooLarge
     else if \<not> list_all (\<lambda>b. b = 0x0A \<or> b = 0x0D \<or> b = 0x09 \<or> 0x20 \<le> b \<and> b < 0x7F) text then Err BadByte
     else parse_config_lines 0 (split_on 0x0A text)
       (False, False, \<lparr>rules = replicate MAX_RULES rule_EMPTY, n_rules = 0, policy_in = False, policy_out = True\<rparr>))"
proof -
  have l: "int (length text) > 4096 \<longleftrightarrow> length text > MAX_CONFIG_TEXT" by (auto simp: MAX_CONFIG_TEXT_def)
  show ?thesis unfolding l by (rule parse_config_def)
qed

section \<open>What the parser accepts\<close>

text \<open>A network mask: the leading \<open>n\<close> bits.\<close>

definition prefix_mask :: "nat \<Rightarrow> u32" where
  "prefix_mask n = (if n = 0 then 0 else push_bit (32 - n) (- 1))"

lemma parse_cidr_masked:
  assumes "parse_cidr s = Some (net, mk)"
  shows "and net mk = net" and "\<exists>n \<le> 32. mk = prefix_mask n"
proof -
  have "and net mk = net \<and> (\<exists>n \<le> 32. mk = prefix_mask n)"
  proof (cases "s = byte_str ''any''")
    case True
    then show ?thesis using assms by (auto simp: parse_cidr_def prefix_mask_def intro: exI [of _ 0])
  next
    case False
    define sel where "sel = (case position (\<lambda>b. b = 0x2F) s of None \<Rightarrow> Some (s, 32)
             | Some i \<Rightarrow> map_option (Pair (take i s)) (parse_u32_dec (drop (i + 1) s) 32))"
    obtain ip_s bits ip where sel: "sel = Some (ip_s, bits)"
      and eq: "mk = (if bits = 0 then 0 else push_bit (unat (32 - bits)) (- 1))" "net = and ip mk"
      using assms False unfolding parse_cidr_def sel_def [symmetric] Let_def
      by (simp split: option.splits prod.splits del: push_bit_minus_one) blast
    have b: "unat bits \<le> 32"
      using sel by (auto simp: sel_def parse_u32_dec_value unat_of_nat split: option.splits if_splits)
    have "mk = prefix_mask (unat bits)"
    proof (cases "bits = 0")
      case False
      have "unat (32 - bits) = 32 - unat bits" using b by (subst unat_sub) (auto simp: word_le_nat_alt)
      moreover have "unat bits \<noteq> 0" using False word_unat_eq [of bits 0] by simp
      ultimately show ?thesis using False eq by (simp add: prefix_mask_def)
    qed (simp add: eq prefix_mask_def)
    with b eq show ?thesis by (auto simp: and.assoc)
  qed
  then show "and net mk = net" and "\<exists>n \<le> 32. mk = prefix_mask n" by auto
qed

definition net_ok :: "u32 \<Rightarrow> u32 \<Rightarrow> bool" where
  "net_ok net mk \<longleftrightarrow> and net mk = net \<and> (\<exists>n \<le> 32. mk = prefix_mask n)"

definition options_ok :: "rule \<Rightarrow> bool" where
  "options_ok r \<longleftrightarrow> r_dir r \<le> DIR_ANY \<and> r_proto r \<in> {0, PROTO_ICMP, PROTO_TCP, PROTO_UDP}
     \<and> net_ok (src_ip r) (src_mask r) \<and> net_ok (dst_ip r) (dst_mask r)
     \<and> sp_lo r \<le> sp_hi r \<and> dp_lo r \<le> dp_hi r \<and> and (states r) ST_INVALID = 0"

definition rule_ok :: "rule \<Rightarrow> bool" where
  "rule_ok r \<longleftrightarrow> options_ok r \<and> (sp_set r \<or> dp_set r \<longrightarrow> r_proto r = PROTO_TCP \<or> r_proto r = PROTO_UDP)
     \<and> (icmp_set r \<longrightarrow> r_proto r = PROTO_ICMP)"

lemma parse_cidr_ok: "parse_cidr s = Some (net, mk) \<Longrightarrow> net_ok net mk"
  using parse_cidr_masked [of s net mk] by (simp add: net_ok_def)

lemma parse_ports_ok: "parse_ports s = Some (st, lo, hi) \<Longrightarrow> lo \<le> hi"
  by (auto simp: parse_ports_def split: if_splits option.splits)

lemma parse_proto_ok: "parse_proto s = Some v \<Longrightarrow> v \<in> {0, PROTO_ICMP, PROTO_TCP, PROTO_UDP}"
  by (auto simp: parse_proto_def split: if_splits)

lemma parse_states_ok: "parse_states s = Some m \<Longrightarrow> and m ST_INVALID = 0"
proof -
  have "parse_states_loop k parts = Some m \<Longrightarrow> and k ST_INVALID = 0 \<Longrightarrow> and m ST_INVALID = 0" for k parts
    by (induction parts arbitrary: k) (auto simp: bit.conj_disj_distrib2 split: if_splits)
  then show "parse_states s = Some m \<Longrightarrow> and m ST_INVALID = 0" by (simp add: parse_states_def)
qed

lemma parse_option_ok:
  assumes "parse_option ln key val sr = Ok sr'" and "options_ok (snd sr)"
  shows "options_ok (snd sr')"
proof -
  obtain sn r where sr: "sr = (sn, r)" by (cases sr)
  show ?thesis
    using assms unfolding sr parse_option_def
    by (auto simp: options_ok_def split: if_splits option.splits
        dest: parse_cidr_ok parse_ports_ok parse_proto_ok parse_states_ok)
qed

lemma parse_options_ok: "parse_options ln toks sr = Ok r \<Longrightarrow> options_ok (snd sr) \<Longrightarrow> options_ok r"
proof (induction ln toks sr rule: parse_options.induct)
  case (1 ln sr)
  then show ?case by simp
next
  case (2 ln key toks sr)
  show ?case
  proof (cases "key = byte_str ''log''")
    case True
    then have "\<not> r_log (snd sr)" "parse_options ln toks (fst sr, (snd sr)\<lparr>r_log := True\<rparr>) = Ok r"
      using 2(3) by (auto split: if_splits)
    moreover have "options_ok ((snd sr)\<lparr>r_log := True\<rparr>)" using 2(4) by (simp add: options_ok_def)
    ultimately show ?thesis using 2(1) True by simp
  next
    case False
    then obtain val rest sr' where "toks = val # rest" "parse_option ln key val sr = Ok sr'" "parse_options ln rest sr' = Ok r"
      using 2(3) by (auto split: list.splits result.splits)
    then show ?thesis using 2(2) [OF False] parse_option_ok 2(4) by blast
  qed
qed

lemma net_ok_any [simp]: "net_ok 0 0"
  by (auto simp: net_ok_def prefix_mask_def intro: exI [of _ 0])

lemma parse_rule_tokens_ok:
  assumes "parse_rule_tokens ln toks = Ok r"
  shows "rule_ok r"
proof -
  obtain acc dir opts where r: "parse_options ln opts (seen_none, rule_EMPTY\<lparr>r_accept := acc, r_dir := dir\<rparr>) = Ok r"
    and dir: "dir \<le> DIR_ANY"
    and c: "\<not> ((sp_set r \<or> dp_set r) \<and> r_proto r \<noteq> PROTO_TCP \<and> r_proto r \<noteq> PROTO_UDP)" "\<not> (icmp_set r \<and> r_proto r \<noteq> PROTO_ICMP)"
    using assms unfolding parse_rule_tokens_def
    by (auto simp: parse_dir_def split: list.splits option.splits result.splits if_splits)
  have "options_ok r" using parse_options_ok [OF r] dir by (simp add: options_ok_def rule_EMPTY_def)
  with c show ?thesis by (auto simp: rule_ok_def)
qed

definition config_ok :: "config \<Rightarrow> bool" where
  "config_ok c \<longleftrightarrow> length (rules c) = MAX_RULES \<and> n_rules c \<le> MAX_RULES \<and> list_all rule_ok (take (n_rules c) (rules c))"

lemma parse_config_lines_ok:
  "parse_config_lines n raws s = Ok c \<Longrightarrow> config_ok (snd (snd s)) \<Longrightarrow> config_ok c"
proof (induction raws arbitrary: n s)
  case Nil
  then show ?case by simp
next
  case (Cons raw raws)
  let ?ln = "saturating_add n 1"
  let ?toks = "line_tokens (strip_comment (strip_cr raw)) 0"
  have l: "\<not> length (strip_cr raw) > MAX_LINE" using Cons.prems(1) by (auto simp: Let_def split: if_splits)
  show ?case
  proof (cases ?toks)
    case Nil
    then show ?thesis using Cons.prems l by (auto simp: Let_def intro: Cons.IH)
  next
    case (Cons word toks)
    consider (policy) "word = byte_str ''policy''" | (rule) "word = byte_str ''rule''"
      using Cons.prems(1) l Cons by (auto simp: Let_def split: if_splits)
    then show ?thesis
    proof cases
      case policy
      then obtain s' where s': "parse_policy ?ln toks s = Ok s'" "parse_config_lines ?ln raws s' = Ok c"
        using Cons.prems(1) l Cons by (auto simp: Let_def split: result.splits)
      have "config_ok (snd (snd s'))"
        using s'(1) Cons.prems(2)
        by (cases s) (auto simp: parse_policy_def config_ok_def split: list.splits option.splits if_splits)
      with s'(2) show ?thesis by (rule Cons.IH)
    next
      case rule
      let ?c = "snd (snd s)"
      obtain r where n: "n_rules ?c < MAX_RULES" and r: "parse_rule_tokens ?ln toks = Ok r"
        and p: "parse_config_lines ?ln raws (fst s, fst (snd s), ?c\<lparr>rules := (rules ?c)[n_rules ?c := r], n_rules := n_rules ?c + 1\<rparr>) = Ok c"
        using Cons.prems(1) l Cons rule by (auto simp: Let_def not_le split: if_splits result.splits)
      have "config_ok (?c\<lparr>rules := (rules ?c)[n_rules ?c := r], n_rules := n_rules ?c + 1\<rparr>)"
        using Cons.prems(2) n parse_rule_tokens_ok [OF r] by (simp add: config_ok_def take_Suc_conv_app_nth)
      with Cons.IH [OF p] show ?thesis by simp
    qed
  qed
qed

lemma parse_config_ok: "parse_config text = Ok c \<Longrightarrow> config_ok c"
  by (auto simp: parse_config_def config_ok_def split: if_splits dest!: parse_config_lines_ok)

end
