(* ===== verification/Firewall.thy ===== *)
theory Firewall
  imports Fwrules
begin

text \<open>
  The stateful firewall (\<open>src/kernel/rust/firewall.rs\<close>): connection tracking, classification of
  packets, the filter, administration with its one-way lock, and the functions the C kernel calls.
\<close>

section \<open>Constants\<close>

definition MAX_CONNS :: usize where [kconst]: "MAX_CONNS = 256"
definition MAX_EXPECT :: usize where [kconst]: "MAX_EXPECT = 16"
definition HALF_OPEN_MAX :: usize where [kconst]: "HALF_OPEN_MAX = 64"

abbreviation TICK_HZ :: u32 where "TICK_HZ \<equiv> 100"

abbreviation EPERM :: i32 where "EPERM \<equiv> 1"
abbreviation ENOENT :: i32 where "ENOENT \<equiv> 2"
abbreviation EINVAL :: i32 where "EINVAL \<equiv> 22"
abbreviation ENOSPC :: i32 where "ENOSPC \<equiv> 28"

abbreviation TCP_FIN :: u8 where "TCP_FIN \<equiv> 0x01"
abbreviation TCP_SYN :: u8 where "TCP_SYN \<equiv> 0x02"
abbreviation TCP_RST :: u8 where "TCP_RST \<equiv> 0x04"
abbreviation TCP_ACK :: u8 where "TCP_ACK \<equiv> 0x10"

abbreviation R_RULE :: u8 where "R_RULE \<equiv> 1"
abbreviation R_POLICY :: u8 where "R_POLICY \<equiv> 2"
abbreviation R_INVALID :: u8 where "R_INVALID \<equiv> 3"
abbreviation R_FRAGMENT :: u8 where "R_FRAGMENT \<equiv> 4"
abbreviation R_UNSUPPORTED :: u8 where "R_UNSUPPORTED \<equiv> 5"
abbreviation R_MALFORMED :: u8 where "R_MALFORMED \<equiv> 6"
abbreviation R_TABLE_FULL :: u8 where "R_TABLE_FULL \<equiv> 7"
abbreviation R_HALF_OPEN :: u8 where "R_HALF_OPEN \<equiv> 8"
abbreviation R_DISABLED :: u8 where "R_DISABLED \<equiv> 9"

abbreviation INV_NONE :: u8 where "INV_NONE \<equiv> 0"
abbreviation INV_FLAGS :: u8 where "INV_FLAGS \<equiv> 1"
abbreviation INV_NO_CONN :: u8 where "INV_NO_CONN \<equiv> 2"
abbreviation INV_STATE :: u8 where "INV_STATE \<equiv> 3"
abbreviation INV_PORT0 :: u8 where "INV_PORT0 \<equiv> 4"
abbreviation INV_ICMP :: u8 where "INV_ICMP \<equiv> 5"
abbreviation INV_RELATED :: u8 where "INV_RELATED \<equiv> 6"

abbreviation TCP_SYN_SENT :: u8 where "TCP_SYN_SENT \<equiv> 1"
abbreviation TCP_SYN_RECV :: u8 where "TCP_SYN_RECV \<equiv> 2"
abbreviation TCP_ESTABLISHED :: u8 where "TCP_ESTABLISHED \<equiv> 3"
abbreviation TCP_FIN_WAIT :: u8 where "TCP_FIN_WAIT \<equiv> 4"
abbreviation TCP_LAST_ACK :: u8 where "TCP_LAST_ACK \<equiv> 5"
abbreviation TCP_TIME_WAIT :: u8 where "TCP_TIME_WAIT \<equiv> 6"
abbreviation TCP_CLOSE :: u8 where "TCP_CLOSE \<equiv> 7"
abbreviation UDP_UNREPLIED :: u8 where "UDP_UNREPLIED \<equiv> 1"
abbreviation UDP_REPLIED :: u8 where "UDP_REPLIED \<equiv> 2"
abbreviation ICMP_ECHO :: u8 where "ICMP_ECHO \<equiv> 1"

abbreviation TFTP_PORT :: u16 where "TFTP_PORT \<equiv> 69"

definition T_SYN :: u32 where [kconst]: "T_SYN = 60 * TICK_HZ"
definition T_ESTABLISHED :: u32 where [kconst]: "T_ESTABLISHED = 3600 * TICK_HZ"
definition T_FIN_WAIT :: u32 where [kconst]: "T_FIN_WAIT = 120 * TICK_HZ"
definition T_LAST_ACK :: u32 where [kconst]: "T_LAST_ACK = 30 * TICK_HZ"
definition T_TIME_WAIT :: u32 where [kconst]: "T_TIME_WAIT = 120 * TICK_HZ"
definition T_CLOSE :: u32 where [kconst]: "T_CLOSE = 10 * TICK_HZ"
definition T_UDP_UNREPLIED :: u32 where [kconst]: "T_UDP_UNREPLIED = 30 * TICK_HZ"
definition T_UDP_REPLIED :: u32 where [kconst]: "T_UDP_REPLIED = 180 * TICK_HZ"
definition T_ICMP :: u32 where [kconst]: "T_ICMP = 30 * TICK_HZ"
definition T_EXPECT :: u32 where [kconst]: "T_EXPECT = 30 * TICK_HZ"

section \<open>Connection tracking\<close>

record conn =
  c_used :: bool
  c_proto :: u8
  orig_dir :: u8
  c_state :: u8
  fin_from :: u8
  replied :: bool
  pending :: u8
  a_ip :: u32
  b_ip :: u32
  a_port :: u16
  b_port :: u16
  c_expires :: u32
  created :: u32
  pkts :: "u32 list"
  nbytes :: "u32 list"

definition conn_EMPTY :: conn where
  "conn_EMPTY = \<lparr>c_used = False, c_proto = 0, orig_dir = 0, c_state = 0, fin_from = 0, replied = False,
     pending = 0, a_ip = 0, b_ip = 0, a_port = 0, b_port = 0, c_expires = 0, created = 0,
     pkts = replicate 2 0, nbytes = replicate 2 0\<rparr>"

record expect =
  e_used :: bool
  remote_ip :: u32
  local_ip :: u32
  local_port :: u16
  e_expires :: u32

definition expect_EMPTY :: expect where
  "expect_EMPTY = \<lparr>e_used = False, remote_ip = 0, local_ip = 0, local_port = 0, e_expires = 0\<rparr>"

record key =
  k_proto :: u8
  k_src :: u32
  k_sport :: u16
  k_dst :: u32
  k_dport :: u16

definition key_of :: "pkt \<Rightarrow> key" where
  "key_of p =
    (if p_proto p = PROTO_ICMP then
       \<lparr>k_proto = p_proto p, k_src = p_src p, k_sport = p_id p, k_dst = p_dst p, k_dport = p_id p\<rparr>
     else \<lparr>k_proto = p_proto p, k_src = p_src p, k_sport = p_sport p, k_dst = p_dst p, k_dport = p_dport p\<rparr>)"

definition side_of :: "conn \<Rightarrow> key \<Rightarrow> u8 option" where
  "side_of c k =
    (if c_proto c \<noteq> k_proto k then None
     else if a_ip c = k_src k \<and> a_port c = k_sport k \<and> b_ip c = k_dst k \<and> b_port c = k_dport k then Some 0
     else if b_ip c = k_src k \<and> b_port c = k_sport k \<and> a_ip c = k_dst k \<and> a_port c = k_dport k then Some 1
     else None)"

definition expired :: "u32 \<Rightarrow> u32 \<Rightarrow> bool" where
  "expired expires now \<longleftrightarrow> sint (now - expires) \<ge> 0"

datatype fc = Syn | SynAck | Ack | FinAck | Rst

definition tcp_class :: "u8 \<Rightarrow> fc option" where
  "tcp_class fl =
    (let f = and fl 0x3F in
     if f = TCP_SYN then Some Syn
     else if f = or TCP_SYN TCP_ACK then Some SynAck
     else if and f (or (or TCP_SYN TCP_FIN) TCP_RST) = 0 \<and> and f TCP_ACK \<noteq> 0 then Some Ack
     else if and f (or TCP_SYN TCP_RST) = 0 \<and> and f TCP_FIN \<noteq> 0 \<and> and f TCP_ACK \<noteq> 0 then Some FinAck
     else if and f (or TCP_SYN TCP_FIN) = 0 \<and> and f TCP_RST \<noteq> 0 then Some Rst
     else None)"

text \<open>The table of the code, state by state; its arms are disjoint but for the order noted there.\<close>

definition tcp_next :: "u8 \<Rightarrow> u8 \<Rightarrow> fc \<Rightarrow> u8 \<Rightarrow> (u8 \<times> u8) option" where
  "tcp_next state side fc ff =
    (let s = (\<lambda>n. Some (n, ff)) in
     if state = TCP_SYN_SENT then
       (case fc of
          Syn \<Rightarrow> if side = 0 then s TCP_SYN_SENT else if side = 1 then s TCP_SYN_RECV else None
        | SynAck \<Rightarrow> if side = 1 then s TCP_SYN_RECV else None
        | Rst \<Rightarrow> s TCP_CLOSE
        | _ \<Rightarrow> None)
     else if state = TCP_SYN_RECV then
       (case fc of
          SynAck \<Rightarrow> if side = 1 \<or> side = 0 then s TCP_SYN_RECV else None
        | Syn \<Rightarrow> if side = 0 then s TCP_SYN_RECV else None
        | Ack \<Rightarrow> if side = 0 \<or> side = 1 then s TCP_ESTABLISHED else None
        | FinAck \<Rightarrow> Some (TCP_FIN_WAIT, side)
        | Rst \<Rightarrow> s TCP_CLOSE)
     else if state = TCP_ESTABLISHED then
       (case fc of
          Ack \<Rightarrow> s TCP_ESTABLISHED
        | SynAck \<Rightarrow> if side = 1 then s TCP_ESTABLISHED else None
        | FinAck \<Rightarrow> Some (TCP_FIN_WAIT, side)
        | Rst \<Rightarrow> s TCP_CLOSE
        | _ \<Rightarrow> None)
     else if state = TCP_FIN_WAIT then
       (case fc of
          Ack \<Rightarrow> s TCP_FIN_WAIT
        | FinAck \<Rightarrow> if side = ff then s TCP_FIN_WAIT else s TCP_LAST_ACK
        | Rst \<Rightarrow> s TCP_CLOSE
        | _ \<Rightarrow> None)
     else if state = TCP_LAST_ACK then
       (case fc of
          Ack \<Rightarrow> if side = ff then s TCP_TIME_WAIT else s TCP_LAST_ACK
        | FinAck \<Rightarrow> s TCP_LAST_ACK
        | Rst \<Rightarrow> s TCP_CLOSE
        | _ \<Rightarrow> None)
     else if state = TCP_TIME_WAIT then
       (case fc of Ack \<Rightarrow> s TCP_TIME_WAIT | FinAck \<Rightarrow> s TCP_TIME_WAIT | Rst \<Rightarrow> s TCP_CLOSE | _ \<Rightarrow> None)
     else if state = TCP_CLOSE then
       (case fc of Ack \<Rightarrow> s TCP_CLOSE | Rst \<Rightarrow> s TCP_CLOSE | FinAck \<Rightarrow> s TCP_CLOSE | _ \<Rightarrow> None)
     else None)"

definition conn_timeout :: "conn \<Rightarrow> u32" where
  "conn_timeout c =
    (if c_proto c = PROTO_TCP then
       if c_state c = TCP_SYN_SENT \<or> c_state c = TCP_SYN_RECV then T_SYN
       else if c_state c = TCP_ESTABLISHED then T_ESTABLISHED
       else if c_state c = TCP_FIN_WAIT then T_FIN_WAIT
       else if c_state c = TCP_LAST_ACK then T_LAST_ACK
       else if c_state c = TCP_TIME_WAIT then T_TIME_WAIT
       else T_CLOSE
     else if c_proto c = PROTO_UDP then if replied c then T_UDP_REPLIED else T_UDP_UNREPLIED
     else T_ICMP)"

datatype cls =
    Invalid u8
  | Existing (ex_idx: usize) (ex_side: u8) (ex_next: u8) (ex_fin: u8)
  | Related usize
  | RelatedNew usize
  | New
  | Replace usize

section \<open>The firewall\<close>

record fw_stats =
  accepted_in :: u32
  accepted_out :: u32
  dropped_in :: u32
  dropped_out :: u32
  invalid :: u32
  fragments :: u32
  table_full :: u32
  half_open :: u32
  new_conns :: u32
  related :: u32
  unsupported :: u32
  malformed :: u32
  logged :: u32

record verdict =
  v_accept :: bool
  v_state :: u8
  v_rule :: i32
  v_reason :: u8
  v_detail :: u8
  ct_state :: u8
  v_log :: bool

datatype admin_error = Locked | BadIndex | Full | Parse parse_error

fun admin_errno :: "admin_error \<Rightarrow> i32" where
  "admin_errno Locked = EPERM"
| "admin_errno BadIndex = ENOENT"
| "admin_errno Full = ENOSPC"
| "admin_errno (Parse _) = EINVAL"

record conn_info =
  ci_proto :: u8
  ci_state :: u8
  ci_orig_dir :: u8
  ci_replied :: bool
  ci_a_ip :: u32
  ci_b_ip :: u32
  ci_a_port :: u16
  ci_b_port :: u16
  ci_remaining :: u32
  ci_age :: u32
  ci_pkts :: "u32 list"
  ci_bytes :: "u32 list"
  ci_pending :: u8

record firewall =
  fw_rules :: "rule list"
  nrules :: u8
  hits :: "u32 list"
  hit_bytes :: "u32 list"
  fw_policy_in :: bool
  fw_policy_out :: bool
  disabled :: bool
  locked :: bool
  conns :: "conn list"
  expects :: "expect list"
  fw_stats_of :: fw_stats
  log_seq :: u32

definition stats_zero :: fw_stats where
  "stats_zero = \<lparr>accepted_in = 0, accepted_out = 0, dropped_in = 0, dropped_out = 0, invalid = 0,
     fragments = 0, table_full = 0, half_open = 0, new_conns = 0, related = 0, unsupported = 0,
     malformed = 0, logged = 0\<rparr>"

definition fw_new :: firewall where
  "fw_new = \<lparr>fw_rules = replicate MAX_RULES rule_EMPTY, nrules = 0, hits = replicate MAX_RULES 0,
     hit_bytes = replicate MAX_RULES 0, fw_policy_in = False, fw_policy_out = False, disabled = False,
     locked = False, conns = replicate MAX_CONNS conn_EMPTY, expects = replicate MAX_EXPECT expect_EMPTY,
     fw_stats_of = stats_zero, log_seq = 0\<rparr>"

definition load_config_unchecked :: "config \<Rightarrow> firewall \<Rightarrow> firewall" where
  "load_config_unchecked c f =
    f\<lparr>fw_rules := copy_prefix (take (n_rules c) (rules c)) (replicate MAX_RULES rule_EMPTY),
      nrules := of_nat (n_rules c), hits := replicate MAX_RULES 0, hit_bytes := replicate MAX_RULES 0,
      fw_policy_in := policy_in c, fw_policy_out := policy_out c\<rparr>"

definition fw_init :: "firewall \<Rightarrow> firewall" where
  "fw_init f = (case parse_config BASELINE of Ok c \<Rightarrow> load_config_unchecked c fw_new | Err _ \<Rightarrow> fw_new)"

subsection \<open>Administration\<close>

definition fw_lock :: "firewall \<Rightarrow> firewall" where
  "fw_lock f = f\<lparr>locked := True\<rparr>"

definition apply_config :: "bytes \<Rightarrow> firewall \<Rightarrow> (unit, admin_error) result \<times> firewall" where
  "apply_config text f =
    (if locked f then (Err Locked, f)
     else case parse_config text of
        Err e \<Rightarrow> (Err (Parse e), f)
      | Ok c \<Rightarrow> (Ok (), load_config_unchecked c f))"

text \<open>The loop \<open>while i > pos { xs[i] = xs[i - 1]; i -= 1 }\<close>, on one of the three parallel arrays.\<close>

fun shift_up :: "usize \<Rightarrow> usize \<Rightarrow> 'a list \<Rightarrow> 'a list" where
  "shift_up pos 0 xs = xs"
| "shift_up pos (Suc i) xs = (if Suc i > pos then shift_up pos i (xs[Suc i := xs ! i]) else xs)"

definition add_rule :: "usize \<Rightarrow> rule \<Rightarrow> firewall \<Rightarrow> (unit, admin_error) result \<times> firewall" where
  "add_rule pos r f =
    (if locked f then (Err Locked, f)
     else
       let n = unat (nrules f) in
       if n \<ge> MAX_RULES then (Err Full, f)
       else if pos > n then (Err BadIndex, f)
       else (Ok (), f\<lparr>fw_rules := (shift_up pos n (fw_rules f))[pos := r],
                      hits := (shift_up pos n (hits f))[pos := 0],
                      hit_bytes := (shift_up pos n (hit_bytes f))[pos := 0],
                      nrules := nrules f + 1\<rparr>))"

definition add_rule_text :: "usize \<Rightarrow> bytes \<Rightarrow> firewall \<Rightarrow> (unit, admin_error) result \<times> firewall" where
  "add_rule_text pos text f =
    (if locked f then (Err Locked, f)
     else case parse_rule text of
        Err e \<Rightarrow> (Err (Parse e), f)
      | Ok r \<Rightarrow> add_rule pos r f)"

text \<open>The loop \<open>for i in idx..n - 1 { xs[i] = xs[i + 1] }\<close> and the reset of the last element.\<close>

definition shift_down :: "usize \<Rightarrow> usize \<Rightarrow> 'a \<Rightarrow> 'a list \<Rightarrow> 'a list" where
  "shift_down idx n z xs = (fold (\<lambda>i ys. ys[i := ys ! (i + 1)]) [idx..<n - 1] xs)[n - 1 := z]"

definition del_rule :: "usize \<Rightarrow> firewall \<Rightarrow> (unit, admin_error) result \<times> firewall" where
  "del_rule idx f =
    (if locked f then (Err Locked, f)
     else
       let n = unat (nrules f) in
       if idx \<ge> n then (Err BadIndex, f)
       else (Ok (), f\<lparr>fw_rules := shift_down idx n rule_EMPTY (fw_rules f),
                      hits := shift_down idx n 0 (hits f),
                      hit_bytes := shift_down idx n 0 (hit_bytes f),
                      nrules := nrules f - 1\<rparr>))"

definition flush_rules :: "firewall \<Rightarrow> (unit, admin_error) result \<times> firewall" where
  "flush_rules f =
    (if locked f then (Err Locked, f)
     else (Ok (), f\<lparr>fw_rules := replicate MAX_RULES rule_EMPTY, hits := replicate MAX_RULES 0,
                    hit_bytes := replicate MAX_RULES 0, nrules := 0\<rparr>))"

definition set_policy :: "u8 \<Rightarrow> bool \<Rightarrow> firewall \<Rightarrow> (unit, admin_error) result \<times> firewall" where
  "set_policy dir accept f =
    (if locked f then (Err Locked, f)
     else if dir = DIR_IN then (Ok (), f\<lparr>fw_policy_in := accept\<rparr>)
     else if dir = DIR_OUT then (Ok (), f\<lparr>fw_policy_out := accept\<rparr>)
     else (Err BadIndex, f))"

definition set_enabled :: "bool \<Rightarrow> firewall \<Rightarrow> (unit, admin_error) result \<times> firewall" where
  "set_enabled on f = (if locked f then (Err Locked, f) else (Ok (), f\<lparr>disabled := \<not> on\<rparr>))"

definition flush_conns :: "firewall \<Rightarrow> firewall" where
  "flush_conns f = f\<lparr>conns := replicate MAX_CONNS conn_EMPTY, expects := replicate MAX_EXPECT expect_EMPTY\<rparr>"

subsection \<open>Introspection\<close>

definition rule_count :: "firewall \<Rightarrow> usize" where
  "rule_count f = unat (nrules f)"

definition rule_at :: "usize \<Rightarrow> firewall \<Rightarrow> (rule \<times> u32 \<times> u32) option" where
  "rule_at i f = (if i < unat (nrules f) then Some (fw_rules f ! i, hits f ! i, hit_bytes f ! i) else None)"

definition fw_policy :: "u8 \<Rightarrow> firewall \<Rightarrow> bool" where
  "fw_policy dir f = (if dir = DIR_IN then fw_policy_in f else fw_policy_out f)"

definition live_conn :: "u32 \<Rightarrow> conn \<Rightarrow> bool" where
  "live_conn now c \<longleftrightarrow> c_used c \<and> \<not> expired (c_expires c) now"

definition live_expect :: "u32 \<Rightarrow> expect \<Rightarrow> bool" where
  "live_expect now e \<longleftrightarrow> e_used e \<and> \<not> expired (e_expires e) now"

definition active_conns :: "u32 \<Rightarrow> firewall \<Rightarrow> usize" where
  "active_conns now f = count_if (live_conn now) (conns f)"

definition active_expects :: "u32 \<Rightarrow> firewall \<Rightarrow> usize" where
  "active_expects now f = count_if (live_expect now) (expects f)"

definition conn_nth :: "usize \<Rightarrow> u32 \<Rightarrow> firewall \<Rightarrow> conn_info option" where
  "conn_nth n now f =
    (let cs = filter (live_conn now) (conns f) in
     if n < length cs then
       let c = cs ! n in
       Some \<lparr>ci_proto = c_proto c, ci_state = c_state c, ci_orig_dir = orig_dir c, ci_replied = replied c,
             ci_a_ip = a_ip c, ci_b_ip = b_ip c, ci_a_port = a_port c, ci_b_port = b_port c,
             ci_remaining = c_expires c - now, ci_age = now - created c, ci_pkts = pkts c,
             ci_bytes = nbytes c, ci_pending = pending c\<rparr>
     else None)"

subsection \<open>Classification\<close>

text \<open>The first live flow with a side for the key, among those wanted.\<close>

definition conn_find :: "key \<Rightarrow> u32 \<Rightarrow> u8 option \<Rightarrow> firewall \<Rightarrow> (usize \<times> u8) option" where
  "conn_find k now want_side f =
    (case position (\<lambda>c. live_conn now c \<and>
        (case side_of c k of None \<Rightarrow> False | Some s \<Rightarrow> want_side = None \<or> want_side = Some s)) (conns f) of
       None \<Rightarrow> None
     | Some i \<Rightarrow> map_option (Pair i) (side_of (conns f ! i) k))"

definition has_free_slot :: "u32 \<Rightarrow> firewall \<Rightarrow> bool" where
  "has_free_slot now f = list_ex (\<lambda>c. \<not> c_used c \<or> expired (c_expires c) now) (conns f)"

definition half_open_conn :: "u32 \<Rightarrow> conn \<Rightarrow> bool" where
  "half_open_conn now c \<longleftrightarrow> c_used c \<and> \<not> expired (c_expires c) now \<and> c_proto c = PROTO_TCP
     \<and> orig_dir c = DIR_IN \<and> (c_state c = TCP_SYN_SENT \<or> c_state c = TCP_SYN_RECV)"

definition half_open_inbound :: "u32 \<Rightarrow> firewall \<Rightarrow> usize" where
  "half_open_inbound now f = count_if (half_open_conn now) (conns f)"

definition find_expect :: "pkt \<Rightarrow> u32 \<Rightarrow> firewall \<Rightarrow> usize option" where
  "find_expect p now f =
    (if p_dir p \<noteq> DIR_IN \<or> p_proto p \<noteq> PROTO_UDP then None
     else position (\<lambda>e. e_used e \<and> \<not> expired (e_expires e) now \<and> remote_ip e = p_src p
        \<and> local_ip e = p_dst p \<and> local_port e = p_dport p) (expects f))"

definition classify_tcp :: "pkt \<Rightarrow> u32 \<Rightarrow> firewall \<Rightarrow> cls" where
  "classify_tcp p now f =
    (if p_sport p = 0 \<or> p_dport p = 0 then Invalid INV_PORT0
     else case tcp_class (p_flags p) of
        None \<Rightarrow> Invalid INV_FLAGS
      | Some fc \<Rightarrow>
         (case conn_find (key_of p) now None f of
            Some (idx, side) \<Rightarrow>
              let c = conns f ! idx in
              if fc = Syn \<and> (c_state c = TCP_TIME_WAIT \<or> c_state c = TCP_CLOSE) then Replace idx
              else (case tcp_next (c_state c) side fc (fin_from c) of
                      Some (nx, ff) \<Rightarrow> Existing idx side nx ff
                    | None \<Rightarrow> Invalid INV_STATE)
          | None \<Rightarrow> if fc = Syn then New else Invalid INV_NO_CONN))"

definition classify_udp :: "pkt \<Rightarrow> u32 \<Rightarrow> firewall \<Rightarrow> cls" where
  "classify_udp p now f =
    (if p_dport p = 0 then Invalid INV_PORT0
     else case conn_find (key_of p) now None f of
        Some (idx, side) \<Rightarrow> Existing idx side UDP_REPLIED 0
      | None \<Rightarrow> (case find_expect p now f of Some ex \<Rightarrow> RelatedNew ex | None \<Rightarrow> New))"

definition inner_key :: "inner \<Rightarrow> key" where
  "inner_key i = \<lparr>k_proto = i_proto i, k_src = i_src i, k_sport = i_sport i, k_dst = i_dst i, k_dport = i_dport i\<rparr>"

definition classify_icmp :: "pkt \<Rightarrow> u32 \<Rightarrow> firewall \<Rightarrow> cls" where
  "classify_icmp p now f =
    (if p_icmp_code p \<noteq> 0 \<and> (p_icmp_type p = 0 \<or> p_icmp_type p = 8) then Invalid INV_ICMP
     else if p_icmp_type p = 8 then
       (case conn_find (key_of p) now (Some 0) f of
          Some (idx, side) \<Rightarrow> Existing idx side ICMP_ECHO 0
        | None \<Rightarrow> New)
     else if p_icmp_type p = 0 then
       (case conn_find (key_of p) now (Some 1) f of
          Some (idx, side) \<Rightarrow>
            if pending (conns f ! idx) > 0 then Existing idx side ICMP_ECHO 0 else Invalid INV_NO_CONN
        | None \<Rightarrow> Invalid INV_NO_CONN)
     else if is_icmp_error (p_icmp_type p) then
       (case p_inner p of
          None \<Rightarrow> Invalid INV_RELATED
        | Some i \<Rightarrow>
           (case conn_find (inner_key i) now None f of
              Some (idx, _) \<Rightarrow> Related idx
            | None \<Rightarrow> Invalid INV_RELATED))
     else Invalid INV_ICMP)"

definition classify :: "pkt \<Rightarrow> u32 \<Rightarrow> firewall \<Rightarrow> cls" where
  "classify p now f =
    (if p_proto p = PROTO_TCP then classify_tcp p now f
     else if p_proto p = PROTO_UDP then classify_udp p now f
     else if p_proto p = PROTO_ICMP then classify_icmp p now f
     else Invalid INV_NONE)"

fun state_of :: "cls \<Rightarrow> firewall \<Rightarrow> u8" where
  "state_of (Invalid _) f = ST_INVALID"
| "state_of New f = ST_NEW"
| "state_of (Replace _) f = ST_NEW"
| "state_of (Related _) f = ST_RELATED"
| "state_of (RelatedNew _) f = ST_RELATED"
| "state_of (Existing idx side _ _) f = (if side = 1 \<or> replied (conns f ! idx) then ST_ESTABLISHED else ST_NEW)"

subsection \<open>Committing an accepted packet\<close>

definition alloc_slot :: "u32 \<Rightarrow> firewall \<Rightarrow> (usize \<times> firewall) option" where
  "alloc_slot now f =
    (case position (\<lambda>c. \<not> c_used c \<or> expired (c_expires c) now) (conns f) of
       None \<Rightarrow> None
     | Some i \<Rightarrow> Some (i, f\<lparr>conns := (conns f)[i := conn_EMPTY]\<rparr>))"

definition first_state :: "pkt \<Rightarrow> u8" where
  "first_state p = (if p_proto p = PROTO_TCP then TCP_SYN_SENT
     else if p_proto p = PROTO_UDP then UDP_UNREPLIED else ICMP_ECHO)"

definition new_conn :: "pkt \<Rightarrow> u32 \<Rightarrow> bool \<Rightarrow> conn" where
  "new_conn p now is_related =
    (let k = key_of p;
       c = conn_EMPTY\<lparr>c_used := True, c_proto := p_proto p, orig_dir := p_dir p, a_ip := k_src k,
             a_port := k_sport k, b_ip := k_dst k, b_port := k_dport k, created := now,
             c_state := first_state p\<rparr>;
       c = (if is_related then c\<lparr>replied := True, c_state := UDP_REPLIED\<rparr> else c);
       c = (if p_proto p = PROTO_ICMP then c\<lparr>pending := 1\<rparr> else c);
       c = c\<lparr>pkts := (pkts c)[0 := 1], nbytes := (nbytes c)[0 := ucast (p_len p)]\<rparr>
     in c\<lparr>c_expires := now + conn_timeout c\<rparr>)"

definition start_conn :: "usize \<Rightarrow> pkt \<Rightarrow> u32 \<Rightarrow> bool \<Rightarrow> firewall \<Rightarrow> firewall" where
  "start_conn i p now is_related f = f\<lparr>conns := (conns f)[i := new_conn p now is_related]\<rparr>"

definition add_expect :: "u32 \<Rightarrow> u32 \<Rightarrow> u16 \<Rightarrow> u32 \<Rightarrow> firewall \<Rightarrow> firewall" where
  "add_expect rip lip lport now f =
    (let slot = (case position (\<lambda>e. e_used e \<and> remote_ip e = rip \<and> local_ip e = lip \<and> local_port e = lport) (expects f) of
         Some i \<Rightarrow> i
       | None \<Rightarrow> (case position (\<lambda>e. \<not> e_used e \<or> expired (e_expires e) now) (expects f) of Some i \<Rightarrow> i | None \<Rightarrow> 0))
     in f\<lparr>expects := (expects f)[slot := \<lparr>e_used = True, remote_ip = rip, local_ip = lip, local_port = lport,
            e_expires = now + T_EXPECT\<rparr>]\<rparr>)"

definition bump_new_conns :: "firewall \<Rightarrow> firewall" where
  "bump_new_conns f = f\<lparr>fw_stats_of := (fw_stats_of f)\<lparr>new_conns := new_conns (fw_stats_of f) + 1\<rparr>\<rparr>"

definition bump_related :: "firewall \<Rightarrow> firewall" where
  "bump_related f = f\<lparr>fw_stats_of := (fw_stats_of f)\<lparr>related := related (fw_stats_of f) + 1\<rparr>\<rparr>"

definition advance_conn :: "pkt \<Rightarrow> u8 \<Rightarrow> u8 \<Rightarrow> u8 \<Rightarrow> u32 \<Rightarrow> conn \<Rightarrow> conn" where
  "advance_conn p side nx ff now c =
    (let c = c\<lparr>pkts := (pkts c)[unat side := pkts c ! unat side + 1],
               nbytes := (nbytes c)[unat side := nbytes c ! unat side + ucast (p_len p)]\<rparr>;
       c = (if p_proto p = PROTO_TCP then
              let c = c\<lparr>c_state := nx, fin_from := ff\<rparr> in if side = 1 then c\<lparr>replied := True\<rparr> else c
            else if p_proto p = PROTO_UDP then
              if side = 1 then c\<lparr>replied := True, c_state := UDP_REPLIED\<rparr> else c
            else if side = 0 then c\<lparr>pending := saturating_add (pending c) 1\<rparr>
            else c\<lparr>pending := saturating_sub (pending c) 1, replied := True\<rparr>)
     in c\<lparr>c_expires := now + conn_timeout c\<rparr>)"

fun commit :: "pkt \<Rightarrow> cls \<Rightarrow> u32 \<Rightarrow> firewall \<Rightarrow> u8 \<times> firewall" where
  "commit p (Existing idx side nx ff) now f =
    (let c = advance_conn p side nx ff now (conns f ! idx)
     in (c_state c, f\<lparr>conns := (conns f)[idx := c]\<rparr>))"
| "commit p (Related idx) now f =
    (let c = conns f ! idx;
       f = bump_related (f\<lparr>conns := (conns f)[idx := c\<lparr>pkts := (pkts c)[0 := pkts c ! 0 + 0]\<rparr>]\<rparr>)
     in (c_state (conns f ! idx), f))"
| "commit p (RelatedNew ex) now f =
    (let f = bump_related (f\<lparr>expects := (expects f)[ex := (expects f ! ex)\<lparr>e_used := False\<rparr>]\<rparr>) in
     case alloc_slot now f of
       Some (i, f) \<Rightarrow>
         let f = bump_new_conns (start_conn i p now True f) in (c_state (conns f ! i), f)
     | None \<Rightarrow> (0, f))"
| "commit p New now f =
    (case alloc_slot now f of
       Some (i, f) \<Rightarrow>
         let f = bump_new_conns (start_conn i p now False f);
           f = (if p_proto p = PROTO_UDP \<and> p_dir p = DIR_OUT \<and> p_dport p = TFTP_PORT
                then add_expect (p_dst p) (p_src p) (p_sport p) now f else f)
         in (c_state (conns f ! i), f)
     | None \<Rightarrow> (0, f))"
| "commit p (Replace idx) now f =
    (let f = bump_new_conns (start_conn idx p now False (f\<lparr>conns := (conns f)[idx := conn_EMPTY]\<rparr>))
     in (c_state (conns f ! idx), f))"
| "commit p (Invalid _) now f = (0, f)"

definition want_log :: "bool \<Rightarrow> firewall \<Rightarrow> bool \<times> firewall" where
  "want_log wanted f =
    (if \<not> wanted then (False, f)
     else
       let n = log_seq f; f = f\<lparr>log_seq := log_seq f + 1\<rparr> in
       if n < 32 \<or> n mod 256 = 0
       then (True, f\<lparr>fw_stats_of := (fw_stats_of f)\<lparr>logged := logged (fw_stats_of f) + 1\<rparr>\<rparr>)
       else (False, f))"

subsection \<open>The filter\<close>

text \<open>The verdict of the rules for a classified packet, and whether a log line is wanted.\<close>

definition rule_verdict :: "pkt \<Rightarrow> u8 \<Rightarrow> firewall \<Rightarrow> verdict \<Rightarrow> verdict \<times> bool" where
  "rule_verdict p state f v =
    (case position (\<lambda>r. rule_matches r p state) (take (unat (nrules f)) (fw_rules f)) of
       Some i \<Rightarrow>
         (v\<lparr>v_accept := r_accept (fw_rules f ! i), v_rule := int i, v_reason := R_RULE\<rparr>, r_log (fw_rules f ! i))
     | None \<Rightarrow>
         (v\<lparr>v_accept := (if p_dir p = DIR_IN then fw_policy_in f else fw_policy_out f), v_reason := R_POLICY\<rparr>, False))"

text \<open>A NEW flow needs room, and an inbound one must not use the table up half-open.\<close>

definition room_verdict :: "pkt \<Rightarrow> cls \<Rightarrow> u32 \<Rightarrow> firewall \<Rightarrow> verdict \<times> bool \<Rightarrow> verdict \<times> bool" where
  "room_verdict p c now f = (\<lambda>(v, lg).
    if v_accept v then
      let needs_slot = (case c of New \<Rightarrow> True | RelatedNew _ \<Rightarrow> True | _ \<Rightarrow> False) in
      if needs_slot \<and> \<not> has_free_slot now f then (v\<lparr>v_accept := False, v_reason := R_TABLE_FULL\<rparr>, True)
      else if c = New \<and> p_proto p = PROTO_TCP \<and> p_dir p = DIR_IN \<and> half_open_inbound now f \<ge> HALF_OPEN_MAX
      then (v\<lparr>v_accept := False, v_reason := R_HALF_OPEN\<rparr>, True)
      else (v, lg)
    else (v, lg))"

text \<open>The part of \<open>filter\<close> that decides, before anything is changed.\<close>

definition verdict_START :: verdict where
  "verdict_START = \<lparr>v_accept = False, v_state = ST_INVALID, v_rule = -1, v_reason = R_INVALID,
     v_detail = INV_NONE, ct_state = 0, v_log = False\<rparr>"

definition decide :: "pkt \<Rightarrow> u32 \<Rightarrow> firewall \<Rightarrow> verdict \<times> cls \<times> bool" where
  "decide p now f =
    (if p_bad p \<noteq> BAD_NONE then
       (verdict_START\<lparr>v_reason := (if p_bad p = BAD_FRAGMENT then R_FRAGMENT
           else if p_bad p = BAD_UNSUPPORTED then R_UNSUPPORTED else R_MALFORMED)\<rparr>, Invalid INV_NONE, True)
     else case classify p now f of
        Invalid d \<Rightarrow> (verdict_START\<lparr>v_reason := R_INVALID, v_detail := d\<rparr>, Invalid d, True)
      | c \<Rightarrow>
         let st = state_of c f;
           (v, lg) = room_verdict p c now f (rule_verdict p st f (verdict_START\<lparr>v_state := st\<rparr>))
         in (v, c, lg))"

text \<open>The dry run reports the state the flow would be in.\<close>

definition dry_ct_state :: "pkt \<Rightarrow> cls \<Rightarrow> verdict \<Rightarrow> verdict" where
  "dry_ct_state p c v =
    (if v_accept v then
       (case c of
          Existing _ _ nx _ \<Rightarrow> v\<lparr>ct_state := nx\<rparr>
        | New \<Rightarrow> v\<lparr>ct_state := first_state p\<rparr>
        | Replace _ \<Rightarrow> v\<lparr>ct_state := first_state p\<rparr>
        | _ \<Rightarrow> v)
     else v)"

definition count_verdict :: "verdict \<Rightarrow> bool \<Rightarrow> fw_stats \<Rightarrow> fw_stats" where
  "count_verdict v inbound s =
    (let s = (if v_accept v then
                if inbound then s\<lparr>accepted_in := accepted_in s + 1\<rparr> else s\<lparr>accepted_out := accepted_out s + 1\<rparr>
              else if inbound then s\<lparr>dropped_in := dropped_in s + 1\<rparr> else s\<lparr>dropped_out := dropped_out s + 1\<rparr>);
       rs = v_reason v
     in if rs = R_INVALID then s\<lparr>invalid := invalid s + 1\<rparr>
        else if rs = R_FRAGMENT then s\<lparr>fragments := fragments s + 1\<rparr>
        else if rs = R_UNSUPPORTED then s\<lparr>unsupported := unsupported s + 1\<rparr>
        else if rs = R_MALFORMED then s\<lparr>malformed := malformed s + 1\<rparr>
        else if rs = R_TABLE_FULL then s\<lparr>table_full := table_full s + 1\<rparr>
        else if rs = R_HALF_OPEN then s\<lparr>half_open := half_open s + 1\<rparr>
        else s)"

definition count_rule :: "verdict \<Rightarrow> pkt \<Rightarrow> firewall \<Rightarrow> firewall" where
  "count_rule v p f =
    (if v_rule v \<ge> 0 then
       let r = nat (v_rule v) in
       f\<lparr>hits := (hits f)[r := hits f ! r + 1], hit_bytes := (hit_bytes f)[r := hit_bytes f ! r + ucast (p_len p)]\<rparr>
     else f)"

definition fw_filter :: "pkt \<Rightarrow> u32 \<Rightarrow> bool \<Rightarrow> firewall \<Rightarrow> verdict \<times> firewall" where
  "fw_filter p now do_commit f =
    (if disabled f then (verdict_START\<lparr>v_accept := True, v_reason := R_DISABLED\<rparr>, f)
     else
       let (v, c, lg) = decide p now f in
       if \<not> do_commit then (dry_ct_state p c v, f)
       else
         let (v, f) = (if v_accept v then let (ct, f) = commit p c now f in (v\<lparr>ct_state := ct\<rparr>, f) else (v, f));
           f = f\<lparr>fw_stats_of := count_verdict v (p_dir p = DIR_IN) (fw_stats_of f)\<rparr>;
           f = count_rule v p f;
           (lgd, f) = want_log lg f
         in (v\<lparr>v_log := lgd\<rparr>, f))"

section \<open>The boot self-test\<close>

definition glob_free_cidr_ok :: bool where
  "glob_free_cidr_ok \<longleftrightarrow>
     parse_cidr (byte_str ''10.0.2.0/24'') = Some (0x0A000200, 0xFFFFFF00)
     \<and> parse_cidr (byte_str ''10.0.2.9/24'') = Some (0x0A000200, 0xFFFFFF00)
     \<and> parse_cidr (byte_str ''any'') = Some (0, 0)
     \<and> parse_cidr (byte_str ''1.2.3.4'') = Some (0x01020304, - 1)
     \<and> parse_cidr (byte_str ''1.2.3.4/33'') = None"

definition probe_out :: pkt where
  "probe_out = pkt_blank\<lparr>p_dir := DIR_OUT, p_proto := PROTO_UDP, p_src := 1, p_dst := 2, p_sport := 5000, p_dport := 53\<rparr>"

definition test_syn :: pkt where
  "test_syn = pkt_blank\<lparr>p_dir := DIR_OUT, p_proto := PROTO_TCP, p_src := 0x0A00020F, p_dst := 0x01020304,
     p_sport := 40000, p_dport := 80, p_flags := TCP_SYN\<rparr>"

definition test_synack :: pkt where
  "test_synack = pkt_blank\<lparr>p_dir := DIR_IN, p_proto := PROTO_TCP, p_src := 0x01020304, p_dst := 0x0A00020F,
     p_sport := 80, p_dport := 40000, p_flags := or TCP_SYN TCP_ACK\<rparr>"

definition test_ack :: pkt where
  "test_ack = test_syn\<lparr>p_dir := DIR_OUT, p_flags := TCP_ACK\<rparr>"

definition test_stray :: pkt where
  "test_stray = pkt_blank\<lparr>p_dir := DIR_IN, p_proto := PROTO_TCP, p_src := 0x01020304, p_dst := 0x0A00020F,
     p_sport := 80, p_dport := 40001, p_flags := TCP_ACK\<rparr>"

definition test_unsolicited :: pkt where
  "test_unsolicited = pkt_blank\<lparr>p_dir := DIR_IN, p_proto := PROTO_TCP, p_src := 0x01020304, p_dst := 0x0A00020F,
     p_sport := 4444, p_dport := 22, p_flags := TCP_SYN\<rparr>"

definition test_bad :: pkt where
  "test_bad = test_syn\<lparr>p_flags := or TCP_SYN TCP_FIN\<rparr>"

definition selftest_checks :: "bool list" where
  "selftest_checks =
    (let (v1, _) = fw_filter probe_out 0 True fw_new;
       f = fw_init fw_new;
       c2 = (rule_count f = 1 \<and> fw_policy DIR_OUT f \<and> \<not> fw_policy DIR_IN f);
       (v3, f) = fw_filter test_unsolicited 0 True f;
       (v4, f) = fw_filter test_syn 1 True f;
       (v5, f) = fw_filter test_stray 1 True f;
       (v6, f) = fw_filter test_synack 2 True f;
       (v7, f) = fw_filter test_ack 3 True f;
       c8 = (active_conns 3 f = 1);
       (v9, f) = fw_filter test_bad 4 True f;
       c10 = is_err (parse_config (byte_str ''policy sideways'' @ [0x0A]));
       c11 = is_err (parse_rule (byte_str ''rule accept in dport 22''));
       f = fw_lock f;
       (r13, f) = add_rule 0 rule_EMPTY f;
       (r13', f) = (if is_err r13 then set_enabled False f else (Ok (), f))
     in [\<not> v_accept v1, c2, \<not> v_accept v3, v_accept v4 \<and> v_state v4 = ST_NEW \<and> ct_state v4 = TCP_SYN_SENT,
         \<not> v_accept v5, v_accept v6 \<and> v_state v6 = ST_ESTABLISHED \<and> v_rule v6 = 0,
         v_accept v7 \<and> ct_state v7 = TCP_ESTABLISHED, c8, \<not> v_accept v9, c10, c11, glob_free_cidr_ok,
         is_err r13 \<and> is_err r13'])"

definition selftest :: "u32 \<times> u32" where
  "selftest = (of_nat (count_if (\<lambda>ok. ok) selftest_checks), of_nat (length selftest_checks))"

section \<open>The functions the C kernel calls\<close>

text \<open>A pointer with a length: \<open>None\<close> is NULL, \<open>Some xs\<close> readable memory.\<close>

definition bytes_of :: "bytes option \<Rightarrow> u32 \<Rightarrow> bytes option" where
  "bytes_of p n =
    (if n = 0 then Some []
     else case p of None \<Rightarrow> None | Some xs \<Rightarrow> if unat n > 65535 then None else Some (take (unat n) xs))"

definition errno_of :: "(unit, admin_error) result \<times> firewall \<Rightarrow> i32 \<times> firewall" where
  "errno_of rf = (case fst rf of Ok _ \<Rightarrow> 0 | Err e \<Rightarrow> - admin_errno e, snd rf)"

definition rust_fw_init :: "firewall \<Rightarrow> firewall" where
  "rust_fw_init f = fw_init f"

definition rust_fw_selftest :: "u32 \<times> u32" where
  "rust_fw_selftest = selftest"

text \<open>The result, the kind and line written out where there is an error, and the new state.\<close>

definition rust_fw_load_config :: "bytes option \<Rightarrow> u32 \<Rightarrow> firewall \<Rightarrow> i32 \<times> (u32 \<times> u32) option \<times> firewall" where
  "rust_fw_load_config text len f =
    (case bytes_of text len of
       None \<Rightarrow> (- EINVAL, None, f)
     | Some t \<Rightarrow>
        (case apply_config t f of
           (Ok _, f') \<Rightarrow> (0, None, f')
         | (Err e, f') \<Rightarrow>
            (- admin_errno e,
             Some (case e of
                Parse TooLarge \<Rightarrow> (1, 0)
              | Parse BadByte \<Rightarrow> (2, 0)
              | Parse (LineTooLong l) \<Rightarrow> (3, ucast l)
              | Parse (Syntax l) \<Rightarrow> (4, ucast l)
              | Parse (BadAddress l) \<Rightarrow> (5, ucast l)
              | Parse (BadPort l) \<Rightarrow> (6, ucast l)
              | Parse (BadState l) \<Rightarrow> (7, ucast l)
              | Parse (BadCombination l) \<Rightarrow> (8, ucast l)
              | Parse (TooManyRules l) \<Rightarrow> (9, ucast l)
              | _ \<Rightarrow> (0, 0)), f')))"

text \<open>The arguments of a call to \<open>fw_hal_log\<close>, which formats a log line in C.\<close>

record log_call =
  l_dir :: u32
  l_proto :: u32
  l_src :: u32
  l_dst :: u32
  l_sport :: u32
  l_dport :: u32
  l_accept :: u32
  l_reason :: u32
  l_rule :: i32

definition of_bool_u32 :: "bool \<Rightarrow> u32" where
  "of_bool_u32 b = (if b then 1 else 0)"

text \<open>\<open>None\<close> is a panic: an index out of range in the packet parser.\<close>

definition rust_fw_filter ::
  "u32 \<Rightarrow> u32 \<Rightarrow> u32 \<Rightarrow> u32 \<Rightarrow> u32 \<Rightarrow> bytes option \<Rightarrow> u32 \<Rightarrow> u32 \<Rightarrow> firewall \<Rightarrow> (i32 \<times> log_call option \<times> firewall) option" where
  "rust_fw_filter dir src dst proto frag payload len now f =
    (case bytes_of payload len of
       None \<Rightarrow> Some (0, None, f)
     | Some data \<Rightarrow>
        let d = (if dir = 0 then DIR_IN else DIR_OUT) in
        (case parse_packet d src dst (ucast proto) (frag \<noteq> 0) data of
           None \<Rightarrow> None
         | Some p \<Rightarrow>
            let (v, f') = fw_filter p now True f in
            Some (if v_accept v then 1 else 0,
              (if v_log v then Some \<lparr>l_dir = ucast d, l_proto = ucast (p_proto p), l_src = src, l_dst = dst,
                    l_sport = ucast (p_sport p), l_dport = ucast (p_dport p), l_accept = of_bool_u32 (v_accept v),
                    l_reason = ucast (v_reason v), l_rule = v_rule v\<rparr>
               else None), f')))"

definition probe_pkt :: "u32 list \<Rightarrow> pkt" where
  "probe_pkt i =
    (let p = pkt_blank\<lparr>p_dir := (if i ! 0 = 0 then DIR_IN else DIR_OUT), p_proto := ucast (i ! 1), p_src := i ! 2,
           p_dst := i ! 3, p_sport := ucast (i ! 4), p_dport := ucast (i ! 5), p_flags := and (ucast (i ! 6)) 0x3F,
           p_icmp_type := ucast (i ! 7), p_icmp_code := ucast (i ! 8), p_id := ucast (i ! 9),
           p_bad := (if i ! 10 = 0 then BAD_NONE else BAD_FRAGMENT), p_len := ucast (i ! 17)\<rparr>;
       p = (if i ! 12 \<noteq> 0 then p\<lparr>p_inner := Some \<lparr>i_proto = ucast (i ! 12), i_src = i ! 13, i_dst = i ! 14,
                 i_sport = ucast (i ! 15), i_dport = ucast (i ! 16)\<rparr>\<rparr> else p)
     in if p_proto p \<noteq> PROTO_TCP \<and> p_proto p \<noteq> PROTO_UDP \<and> p_proto p \<noteq> PROTO_ICMP \<and> p_bad p = BAD_NONE
        then p\<lparr>p_bad := BAD_UNSUPPORTED\<rparr> else p)"

text \<open>\<open>inp\<close> is the 18 words read, or \<open>None\<close> when either pointer is NULL; the result holds the 8 words written.\<close>

definition rust_fw_probe :: "u32 list option \<Rightarrow> u32 \<Rightarrow> firewall \<Rightarrow> i32 \<times> u32 list option \<times> firewall" where
  "rust_fw_probe inp now f =
    (case inp of
       None \<Rightarrow> (- EINVAL, None, f)
     | Some i \<Rightarrow>
        let (v, f') = fw_filter (probe_pkt i) now (i ! 11 \<noteq> 0) f in
        (0, Some [of_bool_u32 (v_accept v), ucast (v_state v), of_int (v_rule v), ucast (v_reason v),
             ucast (v_detail v), ucast (ct_state v), 0, 0], f'))"

definition rust_fw_add_rule :: "bytes option \<Rightarrow> u32 \<Rightarrow> u32 \<Rightarrow> firewall \<Rightarrow> i32 \<times> firewall" where
  "rust_fw_add_rule text len pos f =
    (case bytes_of text len of
       None \<Rightarrow> (- EINVAL, f)
     | Some t \<Rightarrow>
        let at = (if pos = - 1 then rule_count f else unat pos) in
        errno_of (add_rule_text at t f))"

definition rust_fw_del_rule :: "u32 \<Rightarrow> firewall \<Rightarrow> i32 \<times> firewall" where
  "rust_fw_del_rule idx f = errno_of (del_rule (unat idx) f)"

definition rust_fw_flush_rules :: "firewall \<Rightarrow> i32 \<times> firewall" where
  "rust_fw_flush_rules f = errno_of (flush_rules f)"

definition rust_fw_set_policy :: "u32 \<Rightarrow> u32 \<Rightarrow> firewall \<Rightarrow> i32 \<times> firewall" where
  "rust_fw_set_policy dir accept f =
    (if dir = 0 then errno_of (set_policy DIR_IN (accept \<noteq> 0) f)
     else if dir = 1 then errno_of (set_policy DIR_OUT (accept \<noteq> 0) f)
     else (- EINVAL, f))"

definition rust_fw_set_enabled :: "u32 \<Rightarrow> firewall \<Rightarrow> i32 \<times> firewall" where
  "rust_fw_set_enabled on f = errno_of (set_enabled (on \<noteq> 0) f)"

definition rust_fw_lock :: "firewall \<Rightarrow> firewall" where
  "rust_fw_lock f = fw_lock f"

definition rust_fw_flush_conns :: "firewall \<Rightarrow> firewall" where
  "rust_fw_flush_conns f = flush_conns f"

definition rust_fw_info :: "u32 \<Rightarrow> firewall \<Rightarrow> u32 list" where
  "rust_fw_info now f =
    (let s = fw_stats_of f in
     [of_bool_u32 (\<not> disabled f), of_bool_u32 (locked f), of_bool_u32 (fw_policy DIR_IN f),
      of_bool_u32 (fw_policy DIR_OUT f), of_nat (rule_count f), of_nat (active_conns now f),
      of_nat (active_expects now f), accepted_in s, accepted_out s, dropped_in s, dropped_out s, invalid s,
      fragments s, table_full s, half_open s, new_conns s, related s, unsupported s, malformed s, logged s,
      of_nat MAX_RULES, of_nat MAX_CONNS, TICK_HZ, 0])"

definition rust_fw_get_rule :: "u32 \<Rightarrow> firewall \<Rightarrow> i32 \<times> u32 list option" where
  "rust_fw_get_rule idx f =
    (case rule_at (unat idx) f of
       None \<Rightarrow> (- ENOENT, None)
     | Some (r, h, b) \<Rightarrow>
        (0, Some [ucast (r_dir r), ucast (r_proto r), of_bool_u32 (r_accept r), of_bool_u32 (r_log r), src_ip r,
           src_mask r, dst_ip r, dst_mask r, of_bool_u32 (sp_set r), ucast (sp_lo r), ucast (sp_hi r),
           of_bool_u32 (dp_set r), ucast (dp_lo r), ucast (dp_hi r),
           or (or (ucast (states r)) (push_bit 8 (of_bool_u32 (icmp_set r)))) (push_bit 16 (ucast (r_icmp_type r))),
           h, b, 0]))"

definition rust_fw_get_conn :: "u32 \<Rightarrow> u32 \<Rightarrow> firewall \<Rightarrow> i32 \<times> u32 list option" where
  "rust_fw_get_conn n now f =
    (case conn_nth (unat n) now f of
       None \<Rightarrow> (- ENOENT, None)
     | Some c \<Rightarrow>
        (0, Some [ucast (ci_proto c), ucast (ci_state c), ucast (ci_orig_dir c), of_bool_u32 (ci_replied c),
           ci_a_ip c, ci_b_ip c, ucast (ci_a_port c), ucast (ci_b_port c), ci_remaining c, ci_pkts c ! 0,
           ci_pkts c ! 1, ci_bytes c ! 0, ci_bytes c ! 1, ci_age c, ucast (ci_pending c), 0]))"

end
