(* ===== verification/Fwsafety.thy ===== *)
theory Fwsafety
  imports Firewall
begin

text \<open>
  What the firewall guarantees: the effect of the filter on its state, first-match semantics, the
  one-way lock, the rule table as a list, and that under the built-in configuration nothing gets in
  that was not asked for.
\<close>

section \<open>What each step leaves alone\<close>

definition fw_config :: "firewall \<Rightarrow> rule list \<times> u8 \<times> bool \<times> bool \<times> bool \<times> bool" where
  "fw_config f = (fw_rules f, nrules f, fw_policy_in f, fw_policy_out f, disabled f, locked f)"

lemma config_simps [simp]:
  "fw_config (f\<lparr>conns := x1\<rparr>) = fw_config f"
  "fw_config (f\<lparr>expects := x2\<rparr>) = fw_config f"
  "fw_config (f\<lparr>fw_stats_of := x3\<rparr>) = fw_config f"
  "fw_config (f\<lparr>log_seq := x4\<rparr>) = fw_config f"
  "fw_config (f\<lparr>hits := x5\<rparr>) = fw_config f"
  "fw_config (f\<lparr>hit_bytes := x5\<rparr>) = fw_config f"
  by (simp_all add: fw_config_def)

lemma bump_simps [simp]:
  "conns (bump_new_conns f) = conns f" "expects (bump_new_conns f) = expects f" "fw_config (bump_new_conns f) = fw_config f"
  "conns (bump_related f) = conns f" "expects (bump_related f) = expects f" "fw_config (bump_related f) = fw_config f"
  by (simp_all add: bump_new_conns_def bump_related_def)

lemma start_simps [simp]:
  "conns (start_conn i p now b f) = (conns f)[i := new_conn p now b]" "expects (start_conn i p now b f) = expects f"
  "fw_config (start_conn i p now b f) = fw_config f"
  by (simp_all add: start_conn_def)

lemma add_expect_simps [simp]:
  "conns (add_expect a b c now f) = conns f" "fw_config (add_expect a b c now f) = fw_config f"
  by (simp_all add: add_expect_def Let_def)

lemma want_log_simps [simp]:
  "conns (snd (want_log w f)) = conns f" "expects (snd (want_log w f)) = expects f" "fw_config (snd (want_log w f)) = fw_config f"
  by (simp_all add: want_log_def Let_def)

lemma count_rule_simps [simp]:
  "conns (count_rule v p f) = conns f" "expects (count_rule v p f) = expects f" "fw_config (count_rule v p f) = fw_config f"
  by (simp_all add: count_rule_def Let_def)

lemma commit_config [simp]: "fw_config (snd (commit p c now f)) = fw_config f"
  by (cases c) (auto simp: Let_def alloc_slot_def split: option.splits)

abbreviation the_verdict :: "pkt \<Rightarrow> u32 \<Rightarrow> firewall \<Rightarrow> verdict" where
  "the_verdict p now f \<equiv> fst (decide p now f)"
abbreviation the_cls :: "pkt \<Rightarrow> u32 \<Rightarrow> firewall \<Rightarrow> cls" where
  "the_cls p now f \<equiv> fst (snd (decide p now f))"

text \<open>The effect of the filter, in terms of its two halves.\<close>

lemma filter_effect:
  assumes "\<not> disabled f"
  shows "v_accept (fst (fw_filter p now True f)) = v_accept (the_verdict p now f)"
    and "conns (snd (fw_filter p now True f)) =
      (if v_accept (the_verdict p now f) then conns (snd (commit p (the_cls p now f) now f)) else conns f)"
    and "expects (snd (fw_filter p now True f)) =
      (if v_accept (the_verdict p now f) then expects (snd (commit p (the_cls p now f) now f)) else expects f)"
    and "fw_config (snd (fw_filter p now True f)) = fw_config f"
  using assms by (simp_all add: fw_filter_def Let_def split_def)

lemma dry_simps [simp]:
  "v_accept (dry_ct_state p c v) = v_accept v" "v_state (dry_ct_state p c v) = v_state v"
  "v_rule (dry_ct_state p c v) = v_rule v" "v_reason (dry_ct_state p c v) = v_reason v"
  "v_detail (dry_ct_state p c v) = v_detail v"
  by (simp_all add: dry_ct_state_def split: cls.splits)

lemma filter_dry_accept: "\<not> disabled f \<Longrightarrow> v_accept (fst (fw_filter p now False f)) = v_accept (the_verdict p now f)"
  by (simp add: fw_filter_def Let_def split_def)

lemma filter_dry: "snd (fw_filter p now False f) = f"
  by (simp add: fw_filter_def Let_def split_def)

lemma filter_disabled: "disabled f \<Longrightarrow> fw_filter p now c f = (verdict_START\<lparr>v_accept := True, v_reason := R_DISABLED\<rparr>, f)"
  by (simp add: fw_filter_def)

lemma filter_config: "fw_config (snd (fw_filter p now c f)) = fw_config f"
  by (cases "disabled f"; cases c) (simp_all add: filter_disabled filter_effect filter_dry)

text \<open>
  (C32) A packet that is not accepted moves no flow: whatever rule or check drops it, the tracked flows
  and the expectations stay exactly as they were.
\<close>

theorem fw_drop_moves_nothing:
  assumes "\<not> v_accept (fst (fw_filter p now c f))"
  shows "conns (snd (fw_filter p now c f)) = conns f \<and> expects (snd (fw_filter p now c f)) = expects f"
proof (cases c)
  case True
  then show ?thesis using assms by (cases "disabled f") (simp_all add: filter_disabled filter_effect)
next
  case False
  then show ?thesis by (simp add: filter_dry)
qed

text \<open>
  (C35) A dry run changes nothing and predicts the decision of the real run: accepted or not, the packet
  state, the rule, the reason and the detail.
\<close>

theorem fw_dry_run:
  "snd (fw_filter p now False f) = f \<and>
   (let v = fst (fw_filter p now False f); w = fst (fw_filter p now True f) in
      v_accept v = v_accept w \<and> v_state v = v_state w \<and> v_rule v = v_rule w
      \<and> v_reason v = v_reason w \<and> v_detail v = v_detail w)"
  by (simp add: fw_filter_def Let_def split_def)

section \<open>First match wins\<close>

text \<open>The rule list read from the front.\<close>

fun first_match :: "rule list \<Rightarrow> pkt \<Rightarrow> u8 \<Rightarrow> bool option" where
  "first_match [] p st = None"
| "first_match (r # rs) p st = (if rule_matches r p st then Some (r_accept r) else first_match rs p st)"

definition active_rules :: "firewall \<Rightarrow> rule list" where
  "active_rules f = take (unat (nrules f)) (fw_rules f)"

definition rules_accept :: "pkt \<Rightarrow> u8 \<Rightarrow> firewall \<Rightarrow> bool" where
  "rules_accept p st f =
    (case first_match (active_rules f) p st of
       Some a \<Rightarrow> a
     | None \<Rightarrow> if p_dir p = DIR_IN then fw_policy_in f else fw_policy_out f)"

definition has_room :: "pkt \<Rightarrow> cls \<Rightarrow> u32 \<Rightarrow> firewall \<Rightarrow> bool" where
  "has_room p c now f \<longleftrightarrow>
     ((c = New \<or> (\<exists>e. c = RelatedNew e)) \<longrightarrow> has_free_slot now f)
     \<and> (c = New \<and> p_proto p = PROTO_TCP \<and> p_dir p = DIR_IN \<longrightarrow> half_open_inbound now f < HALF_OPEN_MAX)"

lemma first_match_position:
  "first_match rs p st = map_option (\<lambda>i. r_accept (rs ! i)) (position (\<lambda>r. rule_matches r p st) rs)"
  by (induction rs) (auto simp: option.map_comp comp_def)

lemma rule_verdict_accept: "v_accept (fst (rule_verdict p st f v)) = rules_accept p st f"
proof (cases "position (\<lambda>r. rule_matches r p st) (active_rules f)")
  case None
  then show ?thesis by (simp add: rule_verdict_def rules_accept_def first_match_position active_rules_def)
next
  case (Some i)
  then have "i < unat (nrules f)" using position_SomeD(1) [OF Some] by (simp add: active_rules_def)
  with Some show ?thesis
    by (simp add: rule_verdict_def rules_accept_def first_match_position active_rules_def)
qed

lemma room_verdict_accept: "v_accept (fst (room_verdict p c now f (v, lg))) = (v_accept v \<and> has_room p c now f)"
  by (cases c) (auto simp: room_verdict_def has_room_def Let_def not_le)

lemma decide_accept:
  "v_accept (the_verdict p now f) \<longleftrightarrow> p_bad p = BAD_NONE \<and> (\<forall>d. classify p now f \<noteq> Invalid d)
     \<and> rules_accept p (state_of (classify p now f) f) f \<and> has_room p (classify p now f) now f"
proof (cases "p_bad p = BAD_NONE")
  case False
  then show ?thesis by (simp add: decide_def verdict_START_def)
next
  case True
  have r: "v_accept (fst (room_verdict p c now f (rule_verdict p st f v))) = (rules_accept p st f \<and> has_room p c now f)" for c st v
    using room_verdict_accept [of p c now f "fst (rule_verdict p st f v)" "snd (rule_verdict p st f v)"]
    by (simp add: rule_verdict_accept)
  show ?thesis
    using True by (cases "classify p now f") (simp_all add: decide_def verdict_START_def Let_def split_def r)
qed

lemma decide_cls: "v_accept (the_verdict p now f) \<Longrightarrow> the_cls p now f = classify p now f"
  by (cases "classify p now f")
    (auto simp: decide_def verdict_START_def Let_def split_def split: if_splits)

text \<open>
  (C17) What the enabled firewall lets through: a well-formed packet that is not INVALID, that the first
  matching rule accepts (or, when none matches, the policy of its direction), and for which there is
  room.  No rule can let an INVALID packet through.
\<close>

theorem fw_accepts_iff:
  assumes "\<not> disabled f"
  shows "v_accept (fst (fw_filter p now c f)) \<longleftrightarrow>
     p_bad p = BAD_NONE \<and> (\<forall>d. classify p now f \<noteq> Invalid d)
     \<and> rules_accept p (state_of (classify p now f) f) f \<and> has_room p (classify p now f) now f"
proof -
  have "v_accept (fst (fw_filter p now c f)) = v_accept (the_verdict p now f)"
    by (cases c) (simp_all add: filter_effect filter_dry_accept assms)
  then show ?thesis by (simp only: decide_accept)
qed

section \<open>Nothing gets in unasked\<close>

lemma conn_find_Some:
  assumes "conn_find k now w f = Some (i, s)"
  shows "i < length (conns f)" and "live_conn now (conns f ! i)" and "side_of (conns f ! i) k = Some s"
    and "w = None \<or> w = Some s"
  using assms by (auto simp: conn_find_def position_Some split: option.splits)

lemma side_of_Some:
  "side_of c k = Some s \<Longrightarrow> c_proto c = k_proto k \<and> {a_ip c, b_ip c} = {k_src k, k_dst k}"
  by (auto simp: side_of_def split: if_splits)

lemma key_of_simps [simp]: "k_proto (key_of p) = p_proto p" "k_src (key_of p) = p_src p" "k_dst (key_of p) = p_dst p"
  by (simp_all add: key_of_def)

lemma new_conn_simps [simp]:
  "c_used (new_conn p now b)" "c_proto (new_conn p now b) = p_proto p"
  "a_ip (new_conn p now b) = p_src p" "b_ip (new_conn p now b) = p_dst p"
  by (simp_all add: new_conn_def Let_def)

lemma advance_conn_simps [simp]:
  "c_used (advance_conn p side nx ff now c) = c_used c" "c_proto (advance_conn p side nx ff now c) = c_proto c"
  "a_ip (advance_conn p side nx ff now c) = a_ip c" "b_ip (advance_conn p side nx ff now c) = b_ip c"
  by (simp_all add: advance_conn_def Let_def)

text \<open>How each class of packet is reached.\<close>

lemma classify_finds:
  "classify_tcp p now f = Existing idx side nx ff \<Longrightarrow> conn_find (key_of p) now None f = Some (idx, side)"
  "classify_udp p now f = Existing idx side nx ff \<Longrightarrow> conn_find (key_of p) now None f = Some (idx, side)"
  "classify_icmp p now f = Existing idx side nx ff \<Longrightarrow> \<exists>w. conn_find (key_of p) now w f = Some (idx, side)"
  by (auto simp: classify_tcp_def classify_udp_def classify_icmp_def Let_def split: if_splits option.splits)

lemma classify_Existing:
  assumes "classify p now f = Existing idx side nx ff"
  shows "idx < length (conns f) \<and> c_used (conns f ! idx) \<and> c_proto (conns f ! idx) = p_proto p
    \<and> {a_ip (conns f ! idx), b_ip (conns f ! idx)} = {p_src p, p_dst p}"
proof -
  obtain w where "conn_find (key_of p) now w f = Some (idx, side)"
    using assms classify_finds [of p now f idx side nx ff] unfolding classify_def by (metis cls.distinct(1))
  note c = conn_find_Some [OF this]
  from side_of_Some [OF c(3)] c(1,2) show ?thesis by (simp add: live_conn_def)
qed

lemma classify_Existing_own:
  assumes "classify p now f = Existing idx side nx ff"
  shows "\<not> (p_proto p = PROTO_ICMP \<and> is_icmp_error (p_icmp_type p))"
proof
  assume "p_proto p = PROTO_ICMP \<and> is_icmp_error (p_icmp_type p)"
  with assms show False
    by (auto simp: classify_def classify_icmp_def is_icmp_error_def split: if_splits option.splits)
qed

lemma classify_not_related:
  "classify_tcp p now f \<noteq> Related idx" "classify_udp p now f \<noteq> Related idx"
  "classify_tcp p now f \<noteq> RelatedNew ex" "classify_icmp p now f \<noteq> RelatedNew ex"
  by (auto simp: classify_tcp_def classify_udp_def classify_icmp_def Let_def split: if_splits option.splits)

lemma classify_Related:
  assumes "classify p now f = Related idx"
  obtains i where "p_proto p = PROTO_ICMP" "is_icmp_error (p_icmp_type p)" "p_inner p = Some i"
    "idx < length (conns f)" "c_used (conns f ! idx)" "c_proto (conns f ! idx) = i_proto i"
    "{a_ip (conns f ! idx), b_ip (conns f ! idx)} = {i_src i, i_dst i}"
proof -
  have icmp: "p_proto p = PROTO_ICMP" "classify_icmp p now f = Related idx"
    using assms classify_not_related by (auto simp: classify_def split: if_splits)
  then obtain i s where e: "is_icmp_error (p_icmp_type p)" "p_inner p = Some i"
    and "conn_find (inner_key i) now None f = Some (idx, s)"
    by (auto simp: classify_icmp_def split: if_splits option.splits)
  note c = conn_find_Some [OF this(3)]
  from side_of_Some [OF c(3)] c(1,2) show thesis
    by (intro that [OF icmp(1) e]) (simp_all add: live_conn_def inner_key_def)
qed

lemma classify_RelatedNew:
  assumes "classify p now f = RelatedNew ex"
  shows "p_proto p = PROTO_UDP \<and> ex < length (expects f) \<and> e_used (expects f ! ex)
    \<and> remote_ip (expects f ! ex) = p_src p \<and> local_ip (expects f ! ex) = p_dst p"
proof -
  have "classify_udp p now f = RelatedNew ex"
    using assms classify_not_related by (auto simp: classify_def split: if_splits)
  then have "find_expect p now f = Some ex"
    by (auto simp: classify_udp_def split: if_splits option.splits)
  then show ?thesis by (auto simp: find_expect_def position_Some split: if_splits)
qed

text \<open>The hosts and the protocol a packet is about: for an ICMP error, those of the packet it quotes.\<close>

definition about :: "pkt \<Rightarrow> u8 \<times> u32 set" where
  "about p =
    (case p_inner p of
       Some i \<Rightarrow> if p_proto p = PROTO_ICMP \<and> is_icmp_error (p_icmp_type p) then (i_proto i, {i_src i, i_dst i})
                 else (p_proto p, {p_src p, p_dst p})
     | None \<Rightarrow> (p_proto p, {p_src p, p_dst p}))"

text \<open>Among the packets let through so far, one that went out between these hosts.\<close>

definition asked :: "pkt list \<Rightarrow> u8 \<Rightarrow> u32 set \<Rightarrow> bool" where
  "asked h proto hosts \<longleftrightarrow> (\<exists>q \<in> set h. p_dir q \<noteq> DIR_IN \<and> p_proto q = proto \<and> {p_src q, p_dst q} = hosts)"

lemma asked_mono: "asked h proto hosts \<Longrightarrow> asked (p # h) proto hosts"
  by (auto simp: asked_def)

lemma asked_own: "p_dir p \<noteq> DIR_IN \<Longrightarrow> asked (p # h) (p_proto p) {p_src p, p_dst p}"
  by (auto simp: asked_def)

definition all_asked :: "pkt list \<Rightarrow> firewall \<Rightarrow> bool" where
  "all_asked h f \<longleftrightarrow>
     (\<forall>c \<in> set (conns f). c_used c \<longrightarrow> asked h (c_proto c) {a_ip c, b_ip c})
     \<and> (\<forall>e \<in> set (expects f). e_used e \<longrightarrow> asked h PROTO_UDP {remote_ip e, local_ip e})"

text \<open>The only rule of the built-in configuration.\<close>

definition baseline_rule :: rule where
  "baseline_rule = rule_EMPTY\<lparr>r_accept := True, r_dir := DIR_IN, states := or ST_ESTABLISHED ST_RELATED\<rparr>"

definition at_baseline :: "firewall \<Rightarrow> bool" where
  "at_baseline f \<longleftrightarrow> active_rules f = [baseline_rule] \<and> \<not> fw_policy_in f \<and> fw_policy_out f \<and> \<not> disabled f"

lemma parse_BASELINE:
  "parse_config BASELINE = Ok \<lparr>rules = baseline_rule # replicate 31 rule_EMPTY, n_rules = 1, policy_in = False, policy_out = True\<rparr>"
  by code_simp

lemma init_baseline: "at_baseline (fw_init f)" "all_asked [] (fw_init f)"
  by (simp_all add: at_baseline_def active_rules_def fw_init_def parse_BASELINE load_config_unchecked_def fw_new_def
      copy_prefix_def all_asked_def conn_EMPTY_def expect_EMPTY_def)

lemma baseline_config: "fw_config f' = fw_config f \<Longrightarrow> at_baseline f \<Longrightarrow> at_baseline f'"
  by (simp add: at_baseline_def fw_config_def active_rules_def)

lemma baseline_inbound:
  assumes "at_baseline f" and "p_dir p = DIR_IN" and "rules_accept p st f"
  shows "and (or ST_ESTABLISHED ST_RELATED) st \<noteq> 0"
  using assms by (auto simp: at_baseline_def rules_accept_def rule_matches_def baseline_rule_def rule_EMPTY_def
      split: if_splits)

lemma all_asked_mono: "all_asked h f \<Longrightarrow> all_asked (p # h) f"
  by (auto simp: all_asked_def intro: asked_mono)

lemma all_asked_conn:
  assumes "all_asked h f" and "c_used c \<Longrightarrow> asked h (c_proto c) {a_ip c, b_ip c}"
  shows "all_asked h (f\<lparr>conns := (conns f)[i := c]\<rparr>)"
  using assms by (auto simp: all_asked_def dest!: set_update_subset_insert [THEN subsetD])

lemma all_asked_expect:
  assumes "all_asked h f" and "e_used e \<Longrightarrow> asked h PROTO_UDP {remote_ip e, local_ip e}"
  shows "all_asked h (f\<lparr>expects := (expects f)[i := e]\<rparr>)"
  using assms by (auto simp: all_asked_def dest!: set_update_subset_insert [THEN subsetD])

lemma all_asked_cong: "conns f' = conns f \<Longrightarrow> expects f' = expects f \<Longrightarrow> all_asked h f' = all_asked h f"
  by (simp add: all_asked_def)

lemma all_asked_bump [simp]: "all_asked h (bump_new_conns f) = all_asked h f" "all_asked h (bump_related f) = all_asked h f"
  by (simp_all add: all_asked_def)

lemma all_asked_start:
  assumes "all_asked h f" and "asked h (p_proto p) {p_src p, p_dst p}"
  shows "all_asked h (start_conn i p now b f)"
  unfolding start_conn_def using assms by (intro all_asked_conn) simp_all

lemma all_asked_add_expect:
  assumes "all_asked h f" and "asked h PROTO_UDP {rip, lip}"
  shows "all_asked h (add_expect rip lip lport now f)"
  unfolding add_expect_def Let_def using assms by (intro all_asked_expect) simp_all

lemma all_asked_free: "all_asked h f \<Longrightarrow> all_asked h (f\<lparr>conns := (conns f)[i := conn_EMPTY]\<rparr>)"
  by (rule all_asked_conn) (simp_all add: conn_EMPTY_def)

lemma all_asked_alloc: "all_asked h f \<Longrightarrow> alloc_slot now f = Some (i, f') \<Longrightarrow> all_asked h f'"
  by (auto simp: alloc_slot_def all_asked_free split: option.splits)

lemma nth_asked:
  "all_asked h f \<Longrightarrow> i < length (conns f) \<Longrightarrow> c_used (conns f ! i) \<Longrightarrow>
     asked h (c_proto (conns f ! i)) {a_ip (conns f ! i), b_ip (conns f ! i)}"
  "all_asked h f \<Longrightarrow> e < length (expects f) \<Longrightarrow> e_used (expects f ! e) \<Longrightarrow>
     asked h PROTO_UDP {remote_ip (expects f ! e), local_ip (expects f ! e)}"
  by (simp_all add: all_asked_def)

text \<open>An accepted packet that starts a flow went out: the rules of the baseline let in no NEW packet.\<close>

lemma commit_asked:
  assumes inv: "all_asked h f" and new: "state_of (classify p now f) f = ST_NEW \<Longrightarrow> p_dir p \<noteq> DIR_IN"
  shows "all_asked (p # h) (snd (commit p (classify p now f) now f))"
proof (cases "classify p now f")
  case (Invalid d)
  then show ?thesis using inv by (simp add: all_asked_mono)
next
  case (Existing idx side nx ff)
  have "all_asked (p # h) (f\<lparr>conns := (conns f)[idx := advance_conn p side nx ff now (conns f ! idx)]\<rparr>)"
    using classify_Existing [OF Existing] nth_asked(1) [OF inv, of idx] inv
    by (intro all_asked_conn) (simp_all add: all_asked_mono asked_mono)
  then show ?thesis by (simp add: Existing Let_def)
next
  case (Related idx)
  from Related obtain i where "idx < length (conns f)" "c_used (conns f ! idx)" by (rule classify_Related) blast
  with nth_asked(1) [OF inv, of idx] inv show ?thesis
    unfolding Related by (auto simp: Let_def intro!: all_asked_conn all_asked_mono asked_mono)
next
  case (RelatedNew ex)
  note r = classify_RelatedNew [OF RelatedNew]
  have a: "asked h (p_proto p) {p_src p, p_dst p}" using nth_asked(2) [OF inv, of ex] r by simp
  let ?f = "bump_related (f\<lparr>expects := (expects f)[ex := (expects f ! ex)\<lparr>e_used := False\<rparr>]\<rparr>)"
  have "all_asked (p # h) ?f" using all_asked_mono [OF inv, of p] by (auto intro!: all_asked_expect)
  then show ?thesis
    unfolding RelatedNew using asked_mono [OF a] all_asked_alloc [of "p # h" ?f now]
    by (auto simp: Let_def all_asked_start split: option.split)
next
  case New
  then have d: "p_dir p \<noteq> DIR_IN" using new by simp
  note a = asked_own [OF d, of h]
  have "asked (p # h) PROTO_UDP {p_dst p, p_src p}" if "p_proto p = PROTO_UDP"
    using a that by (simp add: insert_commute)
  then show ?thesis
    unfolding New using a all_asked_mono [OF inv, of p] all_asked_alloc [of "p # h" f now]
    by (auto simp: Let_def all_asked_start all_asked_add_expect split: option.split)
next
  case (Replace idx)
  then have d: "p_dir p \<noteq> DIR_IN" using new by simp
  show ?thesis
    unfolding Replace using asked_own [OF d, of h] all_asked_mono [OF inv, of p]
    by (simp add: Let_def all_asked_start all_asked_free)
qed

text \<open>A run of the firewall with the packets it let through, newest first; flows may be flushed at any time.\<close>

inductive fw_trace :: "firewall \<Rightarrow> pkt list \<Rightarrow> firewall \<Rightarrow> bool" for f0 :: firewall where
  trace_start: "fw_trace f0 [] f0"
| trace_packet: "fw_trace f0 h f \<Longrightarrow>
     fw_trace f0 (if v_accept (fst (fw_filter p now True f)) then p # h else h) (snd (fw_filter p now True f))"
| trace_flush: "fw_trace f0 h f \<Longrightarrow> fw_trace f0 h (flush_conns f)"

lemma baseline_step:
  assumes "at_baseline f" and "all_asked h f"
  shows "all_asked (if v_accept (fst (fw_filter p now True f)) then p # h else h) (snd (fw_filter p now True f))"
proof -
  have en: "\<not> disabled f" using assms(1) by (simp add: at_baseline_def)
  note e = filter_effect [OF en, of p now]
  show ?thesis
  proof (cases "v_accept (the_verdict p now f)")
    case False
    then show ?thesis using assms(2) all_asked_cong [of "snd (fw_filter p now True f)" f h] by (simp add: e)
  next
    case True
    have "p_dir p \<noteq> DIR_IN" if "state_of (classify p now f) f = ST_NEW"
      using True that baseline_inbound [OF assms(1), of p ST_NEW] unfolding decide_accept by auto
    then have "all_asked (p # h) (snd (commit p (classify p now f) now f))"
      by (rule commit_asked [OF assms(2)])
    with True decide_cls [OF True]
      all_asked_cong [of "snd (fw_filter p now True f)" "snd (commit p (classify p now f) now f)" "p # h"]
    show ?thesis by (simp add: e)
  qed
qed

lemma trace_baseline:
  "fw_trace (fw_init f0) h f \<Longrightarrow> at_baseline f \<and> all_asked h f"
proof (induction rule: fw_trace.induct)
  case trace_start
  show ?case by (simp add: init_baseline)
next
  case (trace_packet h f p now)
  then show ?case using baseline_step [of f h p now] baseline_config [OF filter_config] by blast
next
  case (trace_flush h f)
  have "fw_config (flush_conns f) = fw_config f" by (simp add: flush_conns_def fw_config_def)
  with trace_flush show ?case
    using baseline_config [of "flush_conns f" f]
    by (simp add: flush_conns_def all_asked_def conn_EMPTY_def expect_EMPTY_def)
qed

text \<open>
  (C3) Nothing gets in unless we asked for it: under the built-in configuration, after any traffic, an
  inbound packet is let through only if it is about two hosts between which a packet of the same
  protocol was let out before (for an ICMP error: the hosts and protocol of the packet it quotes).
\<close>

theorem fw_nothing_unasked:
  assumes "fw_trace (fw_init f0) h f" and "p_dir p = DIR_IN" and "v_accept (fst (fw_filter p now True f))"
  shows "\<exists>q \<in> set h. p_dir q \<noteq> DIR_IN \<and> (p_proto q, {p_src q, p_dst q}) = about p"
proof -
  have b: "at_baseline f" and inv: "all_asked h f" using trace_baseline [OF assms(1)] by auto
  then have "\<not> disabled f" by (simp add: at_baseline_def)
  from assms(3) have acc: "v_accept (the_verdict p now f)" unfolding filter_effect(1) [OF \<open>\<not> disabled f\<close>] .
  have st: "and (or ST_ESTABLISHED ST_RELATED) (state_of (classify p now f) f) \<noteq> 0"
    using acc baseline_inbound [OF b assms(2)] unfolding decide_accept by blast
  show ?thesis
  proof (cases "classify p now f")
    case (Existing idx side nx ff)
    have "asked h (p_proto p) {p_src p, p_dst p}"
      using classify_Existing [OF Existing] nth_asked(1) [OF inv, of idx] by simp
    moreover have "about p = (p_proto p, {p_src p, p_dst p})"
      using classify_Existing_own [OF Existing] by (auto simp: about_def split: option.split)
    ultimately show ?thesis by (auto simp: asked_def)
  next
    case (Related idx)
    from Related show ?thesis
    proof (rule classify_Related)
      fix i assume i: "p_proto p = PROTO_ICMP" "is_icmp_error (p_icmp_type p)" "p_inner p = Some i"
        "idx < length (conns f)" "c_used (conns f ! idx)" "c_proto (conns f ! idx) = i_proto i"
        "{a_ip (conns f ! idx), b_ip (conns f ! idx)} = {i_src i, i_dst i}"
      then have "asked h (i_proto i) {i_src i, i_dst i}" using nth_asked(1) [OF inv, of idx] by simp
      then show ?thesis using i by (auto simp: asked_def about_def)
    qed
  next
    case (RelatedNew ex)
    note r = classify_RelatedNew [OF RelatedNew]
    then have "asked h (p_proto p) {p_src p, p_dst p}" using nth_asked(2) [OF inv, of ex] by simp
    moreover have "about p = (p_proto p, {p_src p, p_dst p})" using r by (simp add: about_def split: option.split)
    ultimately show ?thesis by (auto simp: asked_def)
  qed (use st acc in \<open>auto simp: decide_accept\<close>)
qed

theorem fw_nothing_unasked_witness:
  "\<exists>q \<in> set [test_syn]. p_dir q \<noteq> DIR_IN \<and> (p_proto q, {p_src q, p_dst q}) = about test_synack"
proof -
  let ?f0 = "fw_init fw_new"
  let ?f1 = "snd (fw_filter test_syn 1 True ?f0)"
  have "v_accept (fst (fw_filter test_syn 1 True ?f0))" by code_simp
  then have "fw_trace ?f0 [test_syn] ?f1" using trace_packet [OF trace_start, of ?f0 test_syn 1] by simp
  moreover have "v_accept (fst (fw_filter test_synack 2 True ?f1))" by code_simp
  moreover have "p_dir test_synack = DIR_IN" by (simp add: test_synack_def)
  ultimately show ?thesis using fw_nothing_unasked by blast
qed

section \<open>The rule table as a list\<close>

lemma length_shift_up [simp]: "length (shift_up pos n xs) = length xs"
  by (induction pos n xs rule: shift_up.induct) auto

lemma shift_up_nth:
  "n < length xs \<Longrightarrow> pos \<le> n \<Longrightarrow> shift_up pos n xs ! j = (if pos < j \<and> j \<le> n then xs ! (j - 1) else xs ! j)"
proof (induction n arbitrary: xs)
  case 0
  then show ?case by simp
next
  case (Suc i)
  show ?case
  proof (cases "Suc i > pos")
    case False
    then show ?thesis by auto
  next
    case True
    let ?ys = "xs[Suc i := xs ! i]"
    have "shift_up pos i ?ys ! j = (if pos < j \<and> j \<le> i then ?ys ! (j - 1) else ?ys ! j)"
      using Suc.prems True by (intro Suc.IH) auto
    then show ?thesis using True Suc.prems by (auto simp: nth_list_update le_Suc_eq)
  qed
qed

lemma shift_up_take:
  assumes "n < length xs" and "pos \<le> n"
  shows "take (n + 1) ((shift_up pos n xs)[pos := x]) = take pos (take n xs) @ x # drop pos (take n xs)"
proof (rule nth_equalityI)
  show "length (take (n + 1) ((shift_up pos n xs)[pos := x])) = length (take pos (take n xs) @ x # drop pos (take n xs))"
    using assms by simp
  fix i assume i: "i < length (take (n + 1) ((shift_up pos n xs)[pos := x]))"
  consider "i < pos" | "i = pos" | k where "i = Suc (pos + k)" by (metis less_iff_Suc_add linorder_neqE_nat)
  then show "take (n + 1) ((shift_up pos n xs)[pos := x]) ! i = (take pos (take n xs) @ x # drop pos (take n xs)) ! i"
    using assms i by cases (auto simp: shift_up_nth nth_append)
qed

lemma shift_down_nth:
  assumes "idx \<le> m" and "m < length xs"
  shows "fold (\<lambda>i ys. ys[i := ys ! (i + 1)]) [idx..<m] xs ! j = (if idx \<le> j \<and> j < m then xs ! (j + 1) else xs ! j)
    \<and> length (fold (\<lambda>i ys. ys[i := ys ! (i + 1)]) [idx..<m] xs) = length xs"
  using assms
proof (induction m arbitrary: j)
  case 0
  then show ?case by simp
next
  case (Suc m)
  show ?case
  proof (cases "idx \<le> m")
    case False
    then show ?thesis by auto
  next
    case True
    then show ?thesis using Suc.IH [OF True] Suc.prems by (auto simp: nth_list_update less_Suc_eq)
  qed
qed

lemma length_shift_down [simp]: "idx < n \<Longrightarrow> n \<le> length xs \<Longrightarrow> length (shift_down idx n z xs) = length xs"
  using shift_down_nth [of idx "n - 1" xs] by (simp add: shift_down_def)

lemma shift_down_take:
  assumes "idx < n" and "n \<le> length xs"
  shows "take (n - 1) (shift_down idx n z xs) = take idx (take n xs) @ drop (Suc idx) (take n xs)"
proof (rule nth_equalityI)
  show "length (take (n - 1) (shift_down idx n z xs)) = length (take idx (take n xs) @ drop (Suc idx) (take n xs))"
    using assms by simp
  fix i assume i: "i < length (take (n - 1) (shift_down idx n z xs))"
  then show "take (n - 1) (shift_down idx n z xs) ! i = (take idx (take n xs) @ drop (Suc idx) (take n xs)) ! i"
    using assms shift_down_nth [of idx "n - 1" xs i] by (auto simp: shift_down_def nth_append)
qed

definition fw_ok_rules :: "firewall \<Rightarrow> bool" where
  "fw_ok_rules f \<longleftrightarrow> length (fw_rules f) = MAX_RULES \<and> length (hits f) = MAX_RULES
     \<and> length (hit_bytes f) = MAX_RULES \<and> unat (nrules f) \<le> MAX_RULES \<and> list_all rule_ok (active_rules f)"

text \<open>The rules with their hit and byte counters.\<close>

definition rule_table :: "firewall \<Rightarrow> (rule \<times> u32 \<times> u32) list" where
  "rule_table f = take (unat (nrules f)) (zip (fw_rules f) (zip (hits f) (hit_bytes f)))"

lemma rule_table_zip:
  "rule_table f = zip (active_rules f) (zip (take (unat (nrules f)) (hits f)) (take (unat (nrules f)) (hit_bytes f)))"
  by (simp add: rule_table_def active_rules_def take_zip)

text \<open>
  (C18) Adding and deleting rules is inserting into and deleting from a list: a rule added at a position
  stands there with its counters at zero, the rules before it and after it keep their order and their
  counters, and deleting takes out exactly the rule at the index.
\<close>

theorem fw_rule_table_edits:
  assumes "fw_ok_rules f"
  shows "(add_rule pos r f = (Ok (), f') \<longrightarrow>
            rule_table f' = take pos (rule_table f) @ (r, 0, 0) # drop pos (rule_table f))
       \<and> (del_rule idx f = (Ok (), f') \<longrightarrow>
            rule_table f' = take idx (rule_table f) @ drop (Suc idx) (rule_table f))"
proof (intro conjI impI)
  assume a: "add_rule pos r f = (Ok (), f')"
  then have n: "unat (nrules f) < MAX_RULES" "pos \<le> unat (nrules f)"
    by (auto simp: add_rule_def Let_def split: if_splits)
  then have u: "unat (nrules f + 1) = unat (nrules f) + 1" by (simp add: unat_word_ariths MAX_RULES_def)
  have f': "f' = f\<lparr>fw_rules := (shift_up pos (unat (nrules f)) (fw_rules f))[pos := r],
      hits := (shift_up pos (unat (nrules f)) (hits f))[pos := 0],
      hit_bytes := (shift_up pos (unat (nrules f)) (hit_bytes f))[pos := 0], nrules := nrules f + 1\<rparr>"
    using a by (auto simp: add_rule_def Let_def split: if_splits)
  show "rule_table f' = take pos (rule_table f) @ (r, 0, 0) # drop pos (rule_table f)"
    unfolding rule_table_zip active_rules_def using assms n
    by (simp add: f' u shift_up_take [simplified] fw_ok_rules_def take_zip drop_zip zip_append)
next
  assume d: "del_rule idx f = (Ok (), f')"
  then have n: "idx < unat (nrules f)" by (auto simp: del_rule_def Let_def split: if_splits)
  have l: "unat (nrules f) \<le> MAX_RULES" using assms by (simp add: fw_ok_rules_def)
  have u: "unat (nrules f - 1) = unat (nrules f) - 1" using n by (subst unat_sub) (auto simp: word_le_nat_alt)
  have f': "f' = f\<lparr>fw_rules := shift_down idx (unat (nrules f)) rule_EMPTY (fw_rules f),
      hits := shift_down idx (unat (nrules f)) 0 (hits f),
      hit_bytes := shift_down idx (unat (nrules f)) 0 (hit_bytes f), nrules := nrules f - 1\<rparr>"
    using d by (auto simp: del_rule_def Let_def split: if_splits)
  show "rule_table f' = take idx (rule_table f) @ drop (Suc idx) (rule_table f)"
    unfolding rule_table_zip active_rules_def using assms n l
    by (simp add: f' u shift_down_take [simplified] fw_ok_rules_def take_zip drop_zip zip_append)
qed

lemma new_ok_rules: "fw_ok_rules fw_new"
  by (simp add: fw_ok_rules_def fw_new_def active_rules_def)

theorem fw_rule_table_edits_witness:
  "rule_table (snd (add_rule 0 baseline_rule fw_new)) = [(baseline_rule, 0, 0)]"
proof -
  have "add_rule 0 baseline_rule fw_new = (Ok (), snd (add_rule 0 baseline_rule fw_new))"
    by (simp add: add_rule_def fw_new_def MAX_RULES_def)
  moreover have "rule_table fw_new = []" by (simp add: rule_table_def fw_new_def)
  ultimately show ?thesis using fw_rule_table_edits [OF new_ok_rules, of 0 baseline_rule] by simp
qed

section \<open>The firewall as a machine\<close>

datatype fw_op =
    Packet pkt u32 bool
  | ApplyConfig bytes
  | AddRule usize bytes
  | DelRule usize
  | FlushRules
  | SetPolicy u8 bool
  | SetEnabled bool
  | LockOp
  | FlushConns

fun fw_step :: "fw_op \<Rightarrow> firewall \<Rightarrow> firewall" where
  "fw_step (Packet p now c) f = snd (fw_filter p now c f)"
| "fw_step (ApplyConfig text) f = snd (apply_config text f)"
| "fw_step (AddRule pos text) f = snd (add_rule_text pos text f)"
| "fw_step (DelRule idx) f = snd (del_rule idx f)"
| "fw_step FlushRules f = snd (flush_rules f)"
| "fw_step (SetPolicy dir accept) f = snd (set_policy dir accept f)"
| "fw_step (SetEnabled on) f = snd (set_enabled on f)"
| "fw_step LockOp f = fw_lock f"
| "fw_step FlushConns f = flush_conns f"

lemma step_locked:
  assumes "locked f"
  shows "locked (fw_step op f) \<and> fw_config (fw_step op f) = fw_config f"
proof (cases op)
  case (Packet p now c)
  then show ?thesis using filter_config [of p now c f] assms by (simp add: fw_config_def)
qed (use assms in \<open>simp_all add: apply_config_def add_rule_text_def del_rule_def flush_rules_def set_policy_def
      set_enabled_def fw_lock_def flush_conns_def fw_config_def\<close>)

interpretation fw_latch: latch "\<lambda>_. True" fw_step locked fw_config
  by unfold_locales (simp_all add: step_locked)

text \<open>
  (C33) The lock is one-way: once locked, no sequence of packets and administrative calls unlocks the
  firewall or changes its rules, its policies or whether it is enabled.
\<close>

theorem fw_lock_is_final:
  assumes "reachable (\<lambda>_. True) fw_step f f'" and "locked f"
  shows "locked f' \<and> fw_config f' = fw_config f"
  using assms by (rule fw_latch.latched_forever)

theorem fw_lock_is_final_witness: "fw_config (fw_step (SetEnabled False) (fw_lock fw_new)) = fw_config (fw_lock fw_new)"
proof -
  have "reachable (\<lambda>_. True) fw_step (fw_lock fw_new) (fw_step (SetEnabled False) (fw_lock fw_new))"
    by (rule reachable_step [OF reachable_init]) simp
  moreover have "locked (fw_lock fw_new)" by (simp add: fw_lock_def)
  ultimately show ?thesis using fw_lock_is_final by blast
qed

section \<open>What a tracked flow can be\<close>

text \<open>
  A TCP flow is in one of its seven states, and in every state past SYN_SENT other than CLOSE the
  responder has been heard from; a UDP flow is REPLIED exactly when it was.
\<close>

definition conn_ok :: "conn \<Rightarrow> bool" where
  "conn_ok c \<longleftrightarrow> length (pkts c) = 2 \<and> length (nbytes c) = 2 \<and>
     (c_used c \<longrightarrow>
        (c_proto c = PROTO_TCP \<longrightarrow> c_state c \<in> {1, 2, 3, 4, 5, 6, 7} \<and> (c_state c \<in> {2, 3, 4, 5, 6} \<longrightarrow> replied c))
        \<and> (c_proto c = PROTO_UDP \<longrightarrow> c_state c = (if replied c then UDP_REPLIED else UDP_UNREPLIED)))"

lemma tcp_next_states:
  assumes "tcp_next st side fc ff = Some (nx, ff')"
  shows "nx \<in> {1, 2, 3, 4, 5, 6, 7}" and "nx \<in> {2, 3, 4, 5, 6} \<Longrightarrow> side = 1 \<or> st \<in> {2, 3, 4, 5, 6}"
  using assms by (auto simp: tcp_next_def Let_def split: if_splits fc.splits)

lemma classify_Existing_tcp:
  assumes "classify p now f = Existing idx side nx ff" and "p_proto p = PROTO_TCP"
  shows "\<exists>fc. tcp_next (c_state (conns f ! idx)) side fc (fin_from (conns f ! idx)) = Some (nx, ff)"
  using assms by (auto simp: classify_def classify_tcp_def Let_def split: if_splits option.splits)

lemma advance_ok:
  assumes "conn_ok c" and "c_used c" and "c_proto c = p_proto p"
    and "p_proto p = PROTO_TCP \<Longrightarrow> \<exists>fc. tcp_next (c_state c) side fc (fin_from c) = Some (nx, ff)"
  shows "conn_ok (advance_conn p side nx ff now c)"
proof (cases "p_proto p = PROTO_TCP")
  case True
  then obtain fc where t: "tcp_next (c_state c) side fc (fin_from c) = Some (nx, ff)" using assms(4) by blast
  have "nx \<in> {2, 3, 4, 5, 6} \<Longrightarrow> side = 1 \<or> replied c"
    using tcp_next_states(2) [OF t] assms(1-3) True by (auto simp: conn_ok_def)
  then show ?thesis
    using assms(1,2,3) True tcp_next_states(1) [OF t] by (auto simp: conn_ok_def advance_conn_def Let_def)
next
  case False
  then show ?thesis using assms(1,2,3) by (simp add: conn_ok_def advance_conn_def Let_def)
qed

lemma new_conn_ok: "b \<longrightarrow> p_proto p = PROTO_UDP \<Longrightarrow> conn_ok (new_conn p now b)"
  by (auto simp: conn_ok_def new_conn_def conn_EMPTY_def first_state_def Let_def)

lemma empty_conn_ok [simp]: "conn_ok conn_EMPTY"
  by (simp add: conn_ok_def conn_EMPTY_def)

definition flows_ok :: "firewall \<Rightarrow> bool" where
  "flows_ok f \<longleftrightarrow> length (conns f) = MAX_CONNS \<and> length (expects f) = MAX_EXPECT \<and> list_all conn_ok (conns f)"

lemma flows_ok_simps [simp]:
  "flows_ok (bump_new_conns f) = flows_ok f" "flows_ok (bump_related f) = flows_ok f"
  "flows_ok (add_expect a b c now f) = flows_ok f" "flows_ok (f\<lparr>expects := (expects f)[i := e]\<rparr>) = flows_ok f"
  by (simp_all add: flows_ok_def add_expect_def Let_def)

lemma flows_ok_conn: "flows_ok f \<Longrightarrow> conn_ok c \<Longrightarrow> flows_ok (f\<lparr>conns := (conns f)[i := c]\<rparr>)"
  by (simp add: flows_ok_def list_all_update)

lemma flows_ok_start: "flows_ok f \<Longrightarrow> b \<longrightarrow> p_proto p = PROTO_UDP \<Longrightarrow> flows_ok (start_conn i p now b f)"
  unfolding start_conn_def by (intro flows_ok_conn new_conn_ok)

lemma flows_ok_alloc: "flows_ok f \<Longrightarrow> alloc_slot now f = Some (i, f') \<Longrightarrow> flows_ok f'"
  by (auto simp: alloc_slot_def flows_ok_conn split: option.splits)

lemma commit_flows_ok:
  assumes inv: "flows_ok f"
  shows "flows_ok (snd (commit p (classify p now f) now f))"
proof (cases "classify p now f")
  case (Existing idx side nx ff)
  note e = classify_Existing [OF Existing]
  then have "conn_ok (conns f ! idx)" using inv by (simp add: flows_ok_def list_all_length)
  then have "conn_ok (advance_conn p side nx ff now (conns f ! idx))"
    using e classify_Existing_tcp [OF Existing] by (intro advance_ok) auto
  then show ?thesis using inv by (simp add: Existing Let_def flows_ok_conn)
next
  case (Related idx)
  then obtain "idx < length (conns f)" by (rule classify_Related)
  then have "conn_ok ((conns f ! idx)\<lparr>pkts := (pkts (conns f ! idx))[0 := pkts (conns f ! idx) ! 0 + 0]\<rparr>)"
    using inv by (auto simp: flows_ok_def list_all_length conn_ok_def)
  from flows_ok_conn [OF inv this, of idx] show ?thesis unfolding Related by (simp add: Let_def)
next
  case (RelatedNew ex)
  let ?f = "bump_related (f\<lparr>expects := (expects f)[ex := (expects f ! ex)\<lparr>e_used := False\<rparr>]\<rparr>)"
  have "flows_ok ?f" using inv by simp
  then show ?thesis
    unfolding RelatedNew using classify_RelatedNew [OF RelatedNew] flows_ok_alloc [of ?f now]
    by (auto simp: Let_def flows_ok_start split: option.split)
next
  case New
  show ?thesis
    unfolding New using inv flows_ok_alloc [OF inv, of now]
    by (auto simp: Let_def flows_ok_start split: option.split)
next
  case (Replace idx)
  show ?thesis unfolding Replace using inv by (simp add: Let_def flows_ok_start flows_ok_conn)
qed (use inv in simp)

lemma filter_flows_ok: "flows_ok f \<Longrightarrow> flows_ok (snd (fw_filter p now c f))"
proof (cases "disabled f \<or> \<not> c")
  case True
  then show "flows_ok f \<Longrightarrow> flows_ok (snd (fw_filter p now c f))"
    by (cases c) (auto simp: filter_disabled filter_dry)
next
  case False
  then have e: "\<not> disabled f" and c: "c = True" by auto
  assume inv: "flows_ok f"
  show ?thesis
  proof (cases "v_accept (the_verdict p now f)")
    case True
    then show ?thesis
      using commit_flows_ok [OF inv, of p now] decide_cls [OF True] unfolding c
      by (simp add: flows_ok_def filter_effect [OF e])
  next
    case False
    then show ?thesis using inv unfolding c by (simp add: flows_ok_def filter_effect [OF e])
  qed
qed

lemma filter_hits_length:
  "length (hits (snd (fw_filter p now c f))) = length (hits f)"
  "length (hit_bytes (snd (fw_filter p now c f))) = length (hit_bytes f)"
proof -
  have a: "hits (snd (commit p cl now f)) = hits f" "hit_bytes (snd (commit p cl now f)) = hit_bytes f" for cl
    by (cases cl; auto simp: Let_def alloc_slot_def start_conn_def add_expect_def bump_new_conns_def bump_related_def
        split: option.splits)+
  have b: "hits (snd (want_log w g)) = hits g" "hit_bytes (snd (want_log w g)) = hit_bytes g" for w g
    by (simp_all add: want_log_def Let_def)
  have c: "length (hits (count_rule v p g)) = length (hits g)" "length (hit_bytes (count_rule v p g)) = length (hit_bytes g)" for v g
    by (simp_all add: count_rule_def Let_def)
  show "length (hits (snd (fw_filter p now c f))) = length (hits f)"
    "length (hit_bytes (snd (fw_filter p now c f))) = length (hit_bytes f)"
    by (simp_all add: fw_filter_def Let_def split_def a b c)
qed

lemma filter_rules_ok: "fw_ok_rules f \<Longrightarrow> fw_ok_rules (snd (fw_filter p now c f))"
  using filter_config [of p now c f] filter_hits_length [of p now c f]
  by (simp add: fw_ok_rules_def fw_config_def active_rules_def)

lemma apply_config_rules_ok: "fw_ok_rules f \<Longrightarrow> fw_ok_rules (snd (apply_config text f))"
proof (cases "parse_config text")
  case (Ok c)
  assume inv: "fw_ok_rules f"
  have "n_rules c \<le> MAX_RULES" "length (rules c) = MAX_RULES" "list_all rule_ok (take (n_rules c) (rules c))"
    using parse_config_ok [OF Ok] by (auto simp: config_ok_def)
  moreover from this have "unat (of_nat (n_rules c) :: u8) = n_rules c"
    by (intro unat_of_nat_small) (simp add: MAX_RULES_def)
  ultimately have "fw_ok_rules (load_config_unchecked c f)"
    by (simp add: fw_ok_rules_def load_config_unchecked_def active_rules_def)
  then show ?thesis using inv by (simp add: apply_config_def Ok)
next
  case (Err e)
  assume "fw_ok_rules f"
  then show ?thesis by (simp add: apply_config_def Err)
qed

lemma add_rule_rules_ok:
  assumes "fw_ok_rules f" and "rule_ok r"
  shows "fw_ok_rules (snd (add_rule pos r f))"
proof (cases "fst (add_rule pos r f) = Ok ()")
  case True
  then have n: "unat (nrules f) < MAX_RULES" "pos \<le> unat (nrules f)" "\<not> locked f"
    by (auto simp: add_rule_def Let_def split: if_splits)
  then have u: "unat (nrules f + 1) = unat (nrules f) + 1" by (simp add: unat_word_ariths MAX_RULES_def)
  have "take (Suc (unat (nrules f))) ((shift_up pos (unat (nrules f)) (fw_rules f))[pos := r])
      = take pos (active_rules f) @ r # drop pos (active_rules f)"
    using n assms(1) shift_up_take [of "unat (nrules f)" "fw_rules f" pos r] by (simp add: fw_ok_rules_def active_rules_def)
  moreover have "list_all rule_ok (take pos (active_rules f) @ r # drop pos (active_rules f))"
    using assms by (auto simp: fw_ok_rules_def list_all_iff dest: in_set_takeD in_set_dropD)
  ultimately show ?thesis
    using n assms(1) by (simp add: add_rule_def Let_def fw_ok_rules_def u active_rules_def)
next
  case False
  then show ?thesis using assms(1) by (simp add: add_rule_def Let_def split: if_splits)
qed

lemma del_rule_rules_ok:
  assumes "fw_ok_rules f"
  shows "fw_ok_rules (snd (del_rule idx f))"
proof (cases "idx < unat (nrules f) \<and> \<not> locked f")
  case True
  then have n: "idx < unat (nrules f)" "\<not> locked f" by auto
  have u: "unat (nrules f - 1) = unat (nrules f) - 1" using n by (subst unat_sub) (auto simp: word_le_nat_alt)
  have "take (unat (nrules f) - 1) (shift_down idx (unat (nrules f)) rule_EMPTY (fw_rules f))
      = take idx (active_rules f) @ drop (Suc idx) (active_rules f)"
    using n assms shift_down_take [of idx "unat (nrules f)" "fw_rules f" rule_EMPTY] by (simp add: fw_ok_rules_def active_rules_def)
  moreover have "list_all rule_ok (take idx (active_rules f) @ drop (Suc idx) (active_rules f))"
    using assms by (auto simp: fw_ok_rules_def list_all_iff dest: in_set_takeD in_set_dropD)
  moreover have "unat (nrules f) - 1 \<le> MAX_RULES" using assms unfolding fw_ok_rules_def by linarith
  ultimately show ?thesis
    using n assms by (simp add: del_rule_def Let_def fw_ok_rules_def u active_rules_def)
next
  case False
  then show ?thesis using assms by (auto simp: del_rule_def Let_def)
qed

lemma parse_rule_ok: "parse_rule text = Ok r \<Longrightarrow> rule_ok r"
  by (auto simp: parse_rule_def split: list.splits if_splits dest: parse_rule_tokens_ok)

lemma fw_step_ok:
  assumes "fw_ok_rules f \<and> flows_ok f"
  shows "fw_ok_rules (fw_step op f) \<and> flows_ok (fw_step op f)"
proof (cases op)
  case (Packet p now c)
  then show ?thesis using assms by (simp add: filter_rules_ok filter_flows_ok)
next
  case (ApplyConfig t)
  then show ?thesis
    using assms apply_config_rules_ok [of f t]
    by (simp add: apply_config_def load_config_unchecked_def flows_ok_def split: result.split)
next
  case (AddRule pos t)
  then show ?thesis
    using assms parse_rule_ok [of t] add_rule_rules_ok [of f _ pos]
    by (auto simp: add_rule_text_def add_rule_def Let_def flows_ok_def split: result.split)
next
  case (DelRule idx)
  then show ?thesis using assms del_rule_rules_ok [of f idx] by (simp add: del_rule_def Let_def flows_ok_def)
qed (use assms in \<open>auto simp: flush_rules_def set_policy_def set_enabled_def fw_lock_def flush_conns_def
      fw_ok_rules_def flows_ok_def active_rules_def list_all_iff\<close>)

definition fw_ok :: "firewall \<Rightarrow> bool" where
  "fw_ok f \<longleftrightarrow> fw_ok_rules f \<and> flows_ok f"

lemma init_ok: "fw_ok (fw_init f)"
proof -
  have eq: "fw_init f = fw_step (ApplyConfig BASELINE) fw_new"
    by (simp add: fw_init_def apply_config_def fw_new_def split: result.split)
  have "flows_ok fw_new" by (simp add: flows_ok_def fw_new_def list_all_iff)
  then show ?thesis unfolding fw_ok_def eq by (intro fw_step_ok conjI new_ok_rules)
qed

interpretation fw_machine: invariant_machine "\<lambda>_. True" fw_step "fw_init f" fw_ok for f
  by unfold_locales (rule init_ok, simp add: fw_ok_def fw_step_ok)

text \<open>
  (C34) Every state reached from boot is well-typed: rule and flow tables of their sizes, every rule
  well-formed (network masked, ports ordered and only with TCP or UDP, never a rule for INVALID), every
  TCP flow in one of its seven states, and no TCP flow past SYN_SENT without an answer from the
  responder unless it is closed.
\<close>

theorem fw_reachable_ok: "reachable (\<lambda>_. True) fw_step (fw_init f0) f \<Longrightarrow> fw_ok f"
  by (rule fw_machine.reachable_inv)

theorem fw_reachable_ok_witness: "fw_ok (fw_step (Packet test_syn 1 True) (fw_init fw_new))"
  by (rule fw_reachable_ok [of fw_new], rule reachable_step [OF reachable_init]) simp

section \<open>Limits\<close>

text \<open>An uninitialised firewall drops everything, in both directions.\<close>

lemma new_drops: "\<not> v_accept (fst (fw_filter p now c fw_new))"
proof -
  have "\<not> disabled fw_new" by (simp add: fw_new_def)
  moreover have "\<not> rules_accept p st fw_new" for st
    by (simp add: rules_accept_def active_rules_def fw_new_def)
  ultimately show ?thesis by (cases c) (simp_all add: filter_effect filter_dry_accept decide_accept)
qed

theorem fw_drop_moves_nothing_witness:
  "conns (snd (fw_filter test_syn 1 True fw_new)) = conns fw_new \<and> expects (snd (fw_filter test_syn 1 True fw_new)) = expects fw_new"
  by (rule fw_drop_moves_nothing [OF new_drops])

theorem fw_accepts_iff_witness:
  "v_accept (fst (fw_filter test_unsolicited 0 True fw_new)) \<longleftrightarrow>
     p_bad test_unsolicited = BAD_NONE \<and> (\<forall>d. classify test_unsolicited 0 fw_new \<noteq> Invalid d)
     \<and> rules_accept test_unsolicited (state_of (classify test_unsolicited 0 fw_new) fw_new) fw_new
     \<and> has_room test_unsolicited (classify test_unsolicited 0 fw_new) 0 fw_new"
  by (rule fw_accepts_iff) (simp add: fw_new_def)

text \<open>The number of half-open inbound flows when one entry of the table is replaced.\<close>

lemma half_open_update:
  "i < length (conns f) \<Longrightarrow> count_if (half_open_conn now) ((conns f)[i := c]) + of_bool (half_open_conn now (conns f ! i))
     = half_open_inbound now f + of_bool (half_open_conn now c)"
  by (simp add: half_open_inbound_def count_if_update)

lemma expired_new: "\<not> expired (now + T_SYN) now"
proof -
  have "now - (now + T_SYN) = - T_SYN" by simp
  moreover have "sint (- T_SYN) < 0" by (simp add: T_SYN_def)
  ultimately show ?thesis by (simp add: expired_def)
qed

text \<open>
  (C36) The cap on half-open inbound connections is not applied when a SYN replaces a finished flow: such
  a packet is let through and adds a half-open flow whatever their number, so a peer that opens, resets
  and reopens each connection is not held to the cap.
\<close>

theorem fw_replace_skips_cap:
  assumes "\<not> disabled f" and "p_bad p = BAD_NONE" and "p_dir p = DIR_IN" and "p_proto p = PROTO_TCP"
    and "classify p now f = Replace idx" and "rules_accept p ST_NEW f"
  shows "v_accept (fst (fw_filter p now True f))
    \<and> half_open_inbound now (snd (fw_filter p now True f)) = half_open_inbound now f + 1"
proof -
  have acc: "v_accept (the_verdict p now f)" unfolding decide_accept using assms by (simp add: has_room_def)
  obtain fc side where fi: "conn_find (key_of p) now None f = Some (idx, side)"
    and st: "c_state (conns f ! idx) = TCP_TIME_WAIT \<or> c_state (conns f ! idx) = TCP_CLOSE"
    using assms(4,5) by (auto simp: classify_def classify_tcp_def Let_def split: if_splits option.splits)
  have idx: "idx < length (conns f)" by (rule conn_find_Some(1) [OF fi])
  have new: "half_open_conn now (new_conn p now False)"
    using assms(3,4) expired_new
    by (simp add: half_open_conn_def new_conn_def conn_EMPTY_def first_state_def conn_timeout_def Let_def)
  have old: "\<not> half_open_conn now (conns f ! idx)" using st by (auto simp: half_open_conn_def)
  have "conns (snd (fw_filter p now True f)) = (conns f)[idx := new_conn p now False]"
    using acc decide_cls [OF acc] assms(5) by (simp add: filter_effect [OF assms(1)] Let_def)
  then show ?thesis
    using acc half_open_update [OF idx, of now "new_conn p now False"] new old
    by (simp add: filter_effect [OF assms(1)] half_open_inbound_def)
qed

text \<open>A table with the cap reached and one closed connection, under a policy that accepts.\<close>

definition example_fw :: firewall where
  "example_fw = fw_new\<lparr>fw_policy_in := True,
     conns := (new_conn test_unsolicited 0 False)\<lparr>c_state := TCP_CLOSE\<rparr>
       # replicate 64 (new_conn (test_unsolicited\<lparr>p_sport := 1\<rparr>) 0 False) @ replicate 191 conn_EMPTY\<rparr>"

theorem fw_replace_skips_cap_witness:
  "half_open_inbound 1 example_fw = HALF_OPEN_MAX
     \<and> half_open_inbound 1 (snd (fw_filter test_unsolicited 1 True example_fw)) = HALF_OPEN_MAX + 1"
proof -
  have "half_open_inbound 1 example_fw = HALF_OPEN_MAX" by code_simp
  moreover have "classify test_unsolicited 1 example_fw = Replace 0" by code_simp
  moreover have "rules_accept test_unsolicited ST_NEW example_fw" by code_simp
  moreover have "\<not> disabled example_fw" by (simp add: example_fw_def fw_new_def)
  moreover have "p_bad test_unsolicited = BAD_NONE" "p_dir test_unsolicited = DIR_IN" "p_proto test_unsolicited = PROTO_TCP"
    by (simp_all add: test_unsolicited_def pkt_blank_def)
  ultimately show ?thesis using fw_replace_skips_cap by metis
qed

end
