(* ===== verification/Shm.thy ===== *)
theory Shm
  imports Prelude
begin

text \<open>
  The shared-memory objects (\<open>src/kernel/rust/shm.rs\<close>): reference-counted sets of physical frames, an
  access list per object, and the table of which process has which object mapped where.  The \<open>Hal\<close> trait
  is a record of functions on the state of the machine below (\<open>'h\<close>), which every operation passes
  through; the functions the kernel supplies are modelled in \<open>Shmkernel\<close>.  An operation returns its result,
  the new table and the new machine state.
\<close>

section \<open>Data\<close>

definition PAGE_SIZE :: u32 where [kconst]: "PAGE_SIZE = 4096"
definition MAX_OBJECTS :: usize where [kconst]: "MAX_OBJECTS = 32"
definition MAX_PAGES_PER_OBJECT :: usize where [kconst]: "MAX_PAGES_PER_OBJECT = 4096"
definition MAX_TOTAL_PAGES :: u32 where [kconst]: "MAX_TOTAL_PAGES = 6144"
definition MAX_OBJECTS_PER_OWNER :: u32 where [kconst]: "MAX_OBJECTS_PER_OWNER = 8"
definition MAX_MAPS_PER_PROC :: u32 where [kconst]: "MAX_MAPS_PER_PROC = 8"
definition MAX_MAP_RECORDS :: usize where [kconst]: "MAX_MAP_RECORDS = 256"
definition MAX_GRANTS :: usize where [kconst]: "MAX_GRANTS = 8"
definition SHM_VIRT_BASE :: u32 where [kconst]: "SHM_VIRT_BASE = 0x68000000"
definition SHM_VIRT_END :: u32 where [kconst]: "SHM_VIRT_END = 0x7C000000"

abbreviation RIGHT_READ :: u32 where "RIGHT_READ \<equiv> 1"
abbreviation RIGHT_WRITE :: u32 where "RIGHT_WRITE \<equiv> 2"

abbreviation EPERM :: i32 where "EPERM \<equiv> 1"
abbreviation ESRCH :: i32 where "ESRCH \<equiv> 3"
abbreviation EBADF :: i32 where "EBADF \<equiv> 9"
abbreviation ENOMEM :: i32 where "ENOMEM \<equiv> 12"
abbreviation EACCES :: i32 where "EACCES \<equiv> 13"
abbreviation EEXIST :: i32 where "EEXIST \<equiv> 17"
abbreviation EINVAL :: i32 where "EINVAL \<equiv> 22"
abbreviation ENOSPC :: i32 where "ENOSPC \<equiv> 28"

record 'h hal =
  alloc_frame :: "'h \<Rightarrow> u32 option \<times> 'h"
  free_frame :: "u32 \<Rightarrow> 'h \<Rightarrow> 'h"
  zero_frame :: "u32 \<Rightarrow> 'h \<Rightarrow> 'h"
  map_page :: "i32 \<Rightarrow> u32 \<Rightarrow> u32 \<Rightarrow> bool \<Rightarrow> 'h \<Rightarrow> bool \<times> 'h"
  unmap_page :: "i32 \<Rightarrow> u32 \<Rightarrow> 'h \<Rightarrow> 'h"
  pid_is_live :: "i32 \<Rightarrow> 'h \<Rightarrow> bool"

record grant_rec =
  g_pid :: i32
  g_rights :: u32

record object =
  in_use :: bool
  dying :: bool
  gen :: u32
  owner :: i32
  pages :: u32
  map_count :: u32
  grants :: "grant_rec list"

record map_rec =
  m_in_use :: bool
  m_pid :: i32
  m_addr :: u32
  m_pages :: u32
  m_obj :: u32
  m_rights :: u32

definition EMPTY_GRANT :: grant_rec where
  "EMPTY_GRANT = \<lparr>g_pid = 0, g_rights = 0\<rparr>"

definition EMPTY_OBJ :: object where
  "EMPTY_OBJ = \<lparr>in_use = False, dying = False, gen = 0, owner = 0, pages = 0, map_count = 0,
     grants = replicate MAX_GRANTS EMPTY_GRANT\<rparr>"

definition EMPTY_MAP :: map_rec where
  "EMPTY_MAP = \<lparr>m_in_use = False, m_pid = 0, m_addr = 0, m_pages = 0, m_obj = 0, m_rights = 0\<rparr>"

record shm =
  objects :: "object list"
  frames :: "u32 list list"
  maps :: "map_rec list"
  total_pages :: u32

record info_rec =
  i_size :: u32
  i_owner :: i32
  i_mappings :: u32
  i_my_rights :: u32

definition next_gen :: "u32 \<Rightarrow> u32" where
  "next_gen g = (let n = (g + 1) AND 0x00FFFFFF in if n = 0 then 1 else n)"

definition shm_new :: shm where
  "shm_new = \<lparr>objects = replicate MAX_OBJECTS EMPTY_OBJ,
     frames = replicate MAX_OBJECTS (replicate MAX_PAGES_PER_OBJECT 0),
     maps = replicate MAX_MAP_RECORDS EMPTY_MAP, total_pages = 0\<rparr>"

section \<open>Handles and rights\<close>

definition handle_for :: "shm \<Rightarrow> usize \<Rightarrow> u32" where
  "handle_for s slot = push_bit 8 (gen (objects s ! slot)) OR (of_nat slot + 1)"

definition lookup :: "shm \<Rightarrow> u32 \<Rightarrow> (usize, i32) result" where
  "lookup s handle =
    (let low = unat (handle AND 0xFF); g = drop_bit 8 handle in
     if low = 0 \<or> low > MAX_OBJECTS \<or> g = 0 then Err EBADF
     else let slot = low - 1; ob = objects s ! slot in
       if \<not> in_use ob \<or> dying ob \<or> gen ob \<noteq> g then Err EBADF else Ok slot)"

definition rights_of :: "shm \<Rightarrow> usize \<Rightarrow> i32 \<Rightarrow> u32" where
  "rights_of s slot p =
    (let ob = objects s ! slot in
     if owner ob = p then RIGHT_READ OR RIGHT_WRITE
     else case position (\<lambda>g. g_rights g \<noteq> 0 \<and> g_pid g = p) (grants ob) of
       Some k \<Rightarrow> g_rights (grants ob ! k) | None \<Rightarrow> 0)"

section \<open>Lifetime\<close>

text \<open>A mapping record is written or cleared, and its object's count follows.\<close>

definition add_rec :: "usize \<Rightarrow> map_rec \<Rightarrow> shm \<Rightarrow> shm" where
  "add_rec ri r s =
    (let slot = unat (m_obj r); ob = objects s ! slot in
     s\<lparr>maps := (maps s)[ri := r], objects := (objects s)[slot := ob\<lparr>map_count := map_count ob + 1\<rparr>]\<rparr>)"

definition drop_rec :: "usize \<Rightarrow> shm \<Rightarrow> shm" where
  "drop_rec ri s =
    (let slot = unat (m_obj (maps s ! ri)); ob = objects s ! slot in
     s\<lparr>maps := (maps s)[ri := EMPTY_MAP], objects := (objects s)[slot := ob\<lparr>map_count := map_count ob - 1\<rparr>]\<rparr>)"

text \<open>The loop that gives frames back and clears their entries, over the indices given.\<close>

fun free_frames :: "('h, 'z) hal_scheme \<Rightarrow> usize list \<Rightarrow> u32 list \<Rightarrow> 'h \<Rightarrow> u32 list \<times> 'h" where
  "free_frames hal [] fs h = (fs, h)"
| "free_frames hal (i # is) fs h = free_frames hal is (fs[i := 0]) (free_frame hal (fs ! i) h)"

definition free_object :: "('h, 'z) hal_scheme \<Rightarrow> usize \<Rightarrow> shm \<Rightarrow> 'h \<Rightarrow> shm \<times> 'h" where
  "free_object hal slot s h =
    (let n = unat (pages (objects s ! slot));
         (fs, h') = free_frames hal [0..<n] (frames s ! slot) h
     in (s\<lparr>frames := (frames s)[slot := fs], total_pages := total_pages s - of_nat n,
           objects := (objects s)[slot := EMPTY_OBJ\<lparr>gen := next_gen (gen (objects s ! slot))\<rparr>]\<rparr>, h'))"

section \<open>Operations\<close>

text \<open>The frames of a new object: zeroed, or given back again when one cannot be had.\<close>

fun alloc_frames :: "('h, 'z) hal_scheme \<Rightarrow> usize list \<Rightarrow> u32 list \<Rightarrow> 'h \<Rightarrow> bool \<times> u32 list \<times> 'h" where
  "alloc_frames hal [] fs h = (True, fs, h)"
| "alloc_frames hal (i # is) fs h =
    (case alloc_frame hal h of
       (Some f, h1) \<Rightarrow> alloc_frames hal is (fs[i := f]) (zero_frame hal f h1)
     | (None, h1) \<Rightarrow> (False, free_frames hal [0..<i] fs h1))"

definition create :: "('h, 'z) hal_scheme \<Rightarrow> i32 \<Rightarrow> u32 \<Rightarrow> u32 \<Rightarrow> shm \<Rightarrow> 'h \<Rightarrow> (u32 \<times> u32, i32) result \<times> shm \<times> 'h" where
  "create hal p sz flags s h =
    (if flags \<noteq> 0 \<or> sz = 0 \<or> sz > of_nat MAX_PAGES_PER_OBJECT * PAGE_SIZE then (Err EINVAL, s, h)
     else
       let n = (sz + PAGE_SIZE - 1) div PAGE_SIZE;
           owned = of_nat (count_if (\<lambda>ob. in_use ob \<and> owner ob = p \<and> \<not> dying ob) (objects s)) in
       case position (\<lambda>ob. \<not> in_use ob) (objects s) of
         None \<Rightarrow> (Err ENOSPC, s, h)
       | Some slot \<Rightarrow>
          if owned \<ge> MAX_OBJECTS_PER_OWNER then (Err ENOSPC, s, h)
          else if total_pages s + n > MAX_TOTAL_PAGES then (Err ENOMEM, s, h)
          else case alloc_frames hal [0..<unat n] (frames s ! slot) h of
            (False, fs, h1) \<Rightarrow> (Err ENOMEM, s\<lparr>frames := (frames s)[slot := fs]\<rparr>, h1)
          | (True, fs, h1) \<Rightarrow>
             let g = (if gen (objects s ! slot) = 0 then 1 else gen (objects s ! slot));
                 s1 = s\<lparr>frames := (frames s)[slot := fs],
                        objects := (objects s)[slot := \<lparr>in_use = True, dying = False, gen = g, owner = p, pages = n,
                          map_count = 0, grants = replicate MAX_GRANTS EMPTY_GRANT\<rparr>],
                        total_pages := total_pages s + n\<rparr>
             in (Ok (handle_for s1 slot, n * PAGE_SIZE), s1, h1))"

definition set_grants :: "usize \<Rightarrow> grant_rec list \<Rightarrow> shm \<Rightarrow> shm" where
  "set_grants slot gs s = s\<lparr>objects := (objects s)[slot := (objects s ! slot)\<lparr>grants := gs\<rparr>]\<rparr>"

definition grant :: "('h, 'z) hal_scheme \<Rightarrow> i32 \<Rightarrow> u32 \<Rightarrow> i32 \<Rightarrow> u32 \<Rightarrow> shm \<Rightarrow> 'h \<Rightarrow> (unit, i32) result \<times> shm \<times> 'h" where
  "grant hal caller handle target rights s h =
    (case lookup s handle of
       Err e \<Rightarrow> (Err e, s, h)
     | Ok slot \<Rightarrow>
        let gs = grants (objects s ! slot) in
        if owner (objects s ! slot) \<noteq> caller then (Err EPERM, s, h)
        else if target = caller \<or> \<not> (rights = 0 \<or> rights = RIGHT_READ \<or> rights = (RIGHT_READ OR RIGHT_WRITE))
          then (Err EINVAL, s, h)
        else if rights = 0 then
          (Ok (), set_grants slot (map (\<lambda>g. if g_rights g \<noteq> 0 \<and> g_pid g = target then EMPTY_GRANT else g) gs) s, h)
        else if \<not> pid_is_live hal target h then (Err ESRCH, s, h)
        else case position (\<lambda>g. g_rights g \<noteq> 0 \<and> g_pid g = target) gs of
          Some k \<Rightarrow> (Ok (), set_grants slot (gs[k := (gs ! k)\<lparr>g_rights := rights\<rparr>]) s, h)
        | None \<Rightarrow>
           (case position (\<lambda>g. g_rights g = 0) gs of
              Some k \<Rightarrow> (Ok (), set_grants slot (gs[k := \<lparr>g_pid = target, g_rights = rights\<rparr>]) s, h)
            | None \<Rightarrow> (Err ENOSPC, s, h)))"

text \<open>
  \<open>find_gap\<close>: the spans (mapping and guard page) of the process, sorted by address with an insertion sort,
  and the first gap that is wide enough.
\<close>

definition gap_spans :: "shm \<Rightarrow> i32 \<Rightarrow> (u32 \<times> u32) list" where
  "gap_spans s p = take (unat MAX_MAPS_PER_PROC)
     (map (\<lambda>r. (m_addr r, m_addr r + (m_pages r + 1) * PAGE_SIZE)) (filter (\<lambda>r. m_in_use r \<and> m_pid r = p) (maps s)))"

fun sift_span :: "usize \<Rightarrow> (u32 \<times> u32) list \<Rightarrow> (u32 \<times> u32) list" where
  "sift_span 0 sp = sp"
| "sift_span (Suc j) sp =
    (if fst (sp ! j) > fst (sp ! Suc j) then sift_span j (sp[j := sp ! Suc j, Suc j := sp ! j]) else sp)"

definition sort_spans :: "(u32 \<times> u32) list \<Rightarrow> (u32 \<times> u32) list" where
  "sort_spans sp = fold sift_span [1..<length sp] sp"

fun gap_scan :: "u64 \<Rightarrow> u32 \<Rightarrow> u64 \<Rightarrow> (u32 \<times> u32) list \<Rightarrow> u32 option" where
  "gap_scan need e_end cand [] = (if cand + need \<le> ucast e_end then Some (ucast cand) else None)"
| "gap_scan need e_end cand ((a, e) # sp) =
    (if ucast a \<ge> cand \<and> ucast a - cand \<ge> need then Some (ucast cand)
     else gap_scan need e_end (if ucast e > cand then ucast e else cand) sp)"

definition find_gap :: "shm \<Rightarrow> i32 \<Rightarrow> u32 \<Rightarrow> u32 \<Rightarrow> u32 \<Rightarrow> u32 option" where
  "find_gap s p need_pages base e_end =
     gap_scan (ucast need_pages * ucast PAGE_SIZE) e_end (ucast base) (sort_spans (gap_spans s p))"

definition page_addr :: "u32 \<Rightarrow> usize \<Rightarrow> u32" where
  "page_addr addr i = addr + of_nat i * PAGE_SIZE"

definition unmap_pages :: "('h, 'z) hal_scheme \<Rightarrow> i32 \<Rightarrow> u32 \<Rightarrow> usize list \<Rightarrow> 'h \<Rightarrow> 'h" where
  "unmap_pages hal p addr is h = fold (\<lambda>i. unmap_page hal p (page_addr addr i)) is h"

fun map_pages :: "('h, 'z) hal_scheme \<Rightarrow> i32 \<Rightarrow> u32 \<Rightarrow> bool \<Rightarrow> u32 list \<Rightarrow> usize list \<Rightarrow> 'h \<Rightarrow> bool \<times> 'h" where
  "map_pages hal p addr w fs [] h = (True, h)"
| "map_pages hal p addr w fs (i # is) h =
    (case map_page hal p (page_addr addr i) (fs ! i) w h of
       (True, h1) \<Rightarrow> map_pages hal p addr w fs is h1
     | (False, h1) \<Rightarrow> (False, unmap_pages hal p addr [0..<i] h1))"

definition map_in :: "('h, 'z) hal_scheme \<Rightarrow> i32 \<Rightarrow> u32 \<Rightarrow> u32 \<Rightarrow> u32 \<Rightarrow> u32 \<Rightarrow> shm \<Rightarrow> 'h
    \<Rightarrow> (u32 \<times> u32, i32) result \<times> shm \<times> 'h" where
  "map_in hal p handle want base e_end s h =
    (case lookup s handle of
       Err e \<Rightarrow> (Err e, s, h)
     | Ok slot \<Rightarrow>
        if want \<noteq> RIGHT_READ \<and> want \<noteq> (RIGHT_READ OR RIGHT_WRITE) then (Err EINVAL, s, h)
        else if want AND NOT (rights_of s slot p) \<noteq> 0 then (Err EACCES, s, h)
        else if list_ex (\<lambda>r. m_in_use r \<and> m_pid r = p \<and> unat (m_obj r) = slot) (maps s) then (Err EEXIST, s, h)
        else if of_nat (count_if (\<lambda>r. m_in_use r \<and> m_pid r = p) (maps s)) \<ge> MAX_MAPS_PER_PROC then (Err ENOSPC, s, h)
        else case position (\<lambda>r. \<not> m_in_use r) (maps s) of
          None \<Rightarrow> (Err ENOSPC, s, h)
        | Some ri \<Rightarrow>
           let n = pages (objects s ! slot) in
           case find_gap s p (n + 1) base e_end of
             None \<Rightarrow> (Err ENOMEM, s, h)
           | Some addr \<Rightarrow>
              (case map_pages hal p addr (want AND RIGHT_WRITE \<noteq> 0) (frames s ! slot) [0..<unat n] h of
                 (False, h1) \<Rightarrow> (Err ENOMEM, s, h1)
               | (True, h1) \<Rightarrow>
                  (Ok (addr, n * PAGE_SIZE),
                   add_rec ri \<lparr>m_in_use = True, m_pid = p, m_addr = addr, m_pages = n, m_obj = of_nat slot,
                     m_rights = want\<rparr> s, h1)))"

definition shm_map :: "('h, 'z) hal_scheme \<Rightarrow> i32 \<Rightarrow> u32 \<Rightarrow> u32 \<Rightarrow> shm \<Rightarrow> 'h \<Rightarrow> (u32 \<times> u32, i32) result \<times> shm \<times> 'h" where
  "shm_map hal p handle want s h = map_in hal p handle want SHM_VIRT_BASE SHM_VIRT_END s h"

definition unmap :: "('h, 'z) hal_scheme \<Rightarrow> i32 \<Rightarrow> u32 \<Rightarrow> shm \<Rightarrow> 'h \<Rightarrow> (unit, i32) result \<times> shm \<times> 'h" where
  "unmap hal p addr s h =
    (case position (\<lambda>r. m_in_use r \<and> m_pid r = p \<and> m_addr r = addr) (maps s) of
       None \<Rightarrow> (Err EINVAL, s, h)
     | Some ri \<Rightarrow>
        let r = maps s ! ri;
            h1 = unmap_pages hal p (m_addr r) [0..<unat (m_pages r)] h;
            slot = unat (m_obj r);
            s1 = drop_rec ri s
        in if dying (objects s1 ! slot) \<and> map_count (objects s1 ! slot) = 0 then (case free_object hal slot s1 h1 of (s2, h2) \<Rightarrow> (Ok (), s2, h2))
           else (Ok (), s1, h1))"

definition destroy :: "('h, 'z) hal_scheme \<Rightarrow> i32 \<Rightarrow> u32 \<Rightarrow> shm \<Rightarrow> 'h \<Rightarrow> (unit, i32) result \<times> shm \<times> 'h" where
  "destroy hal p handle s h =
    (case lookup s handle of
       Err e \<Rightarrow> (Err e, s, h)
     | Ok slot \<Rightarrow>
        let ob = objects s ! slot;
            s1 = s\<lparr>objects := (objects s)[slot := ob\<lparr>dying := True\<rparr>]\<rparr> in
        if owner ob \<noteq> p then (Err EPERM, s, h)
        else if map_count ob = 0 then (case free_object hal slot s1 h of (s2, h2) \<Rightarrow> (Ok (), s2, h2))
        else (Ok (), s1, h))"

definition info :: "shm \<Rightarrow> i32 \<Rightarrow> u32 \<Rightarrow> (info_rec, i32) result" where
  "info s p handle =
    (case lookup s handle of
       Err e \<Rightarrow> Err e
     | Ok slot \<Rightarrow>
        let rights = rights_of s slot p; ob = objects s ! slot in
        if rights = 0 then Err EACCES
        else Ok \<lparr>i_size = pages ob * PAGE_SIZE, i_owner = owner ob, i_mappings = map_count ob, i_my_rights = rights\<rparr>)"

text \<open>\<open>process_exit\<close>, loop by loop: the owned objects become dying, ...\<close>

definition mark_dying :: "i32 \<Rightarrow> shm \<Rightarrow> shm" where
  "mark_dying p s = s\<lparr>objects := map (\<lambda>ob. if in_use ob \<and> owner ob = p then ob\<lparr>dying := True\<rparr> else ob) (objects s)\<rparr>"

text \<open>... the mappings are dropped, ...\<close>

definition drop_one :: "i32 \<Rightarrow> usize \<Rightarrow> shm \<Rightarrow> shm" where
  "drop_one p ri s = (if m_in_use (maps s ! ri) \<and> m_pid (maps s ! ri) = p then drop_rec ri s else s)"

text \<open>... the grants are forgotten, ...\<close>

definition forget_grants :: "i32 \<Rightarrow> shm \<Rightarrow> shm" where
  "forget_grants p s = s\<lparr>objects := map (\<lambda>ob. if in_use ob
     then ob\<lparr>grants := map (\<lambda>g. if g_rights g \<noteq> 0 \<and> g_pid g = p then EMPTY_GRANT else g) (grants ob)\<rparr> else ob)
     (objects s)\<rparr>"

text \<open>... and what nothing refers to any more is freed.\<close>

fun sweep :: "('h, 'z) hal_scheme \<Rightarrow> usize list \<Rightarrow> shm \<Rightarrow> 'h \<Rightarrow> shm \<times> 'h" where
  "sweep hal [] s h = (s, h)"
| "sweep hal (slot # ks) s h =
    (let ob = objects s ! slot in
     if in_use ob \<and> dying ob \<and> map_count ob = 0
     then (case free_object hal slot s h of (s1, h1) \<Rightarrow> sweep hal ks s1 h1)
     else sweep hal ks s h)"

definition process_exit :: "('h, 'z) hal_scheme \<Rightarrow> i32 \<Rightarrow> shm \<Rightarrow> 'h \<Rightarrow> shm \<times> 'h" where
  "process_exit hal p s h =
     sweep hal [0..<MAX_OBJECTS] (forget_grants p (fold (drop_one p) [0..<MAX_MAP_RECORDS] (mark_dying p s))) h"

definition fork_one :: "i32 \<Rightarrow> i32 \<Rightarrow> usize \<Rightarrow> shm \<Rightarrow> shm" where
  "fork_one parent child pi s =
    (let r = maps s ! pi in
     if m_in_use r \<and> m_pid r = parent then
       let copy = r\<lparr>m_pid := child\<rparr>; slot = unat (m_obj copy); ob = objects s ! slot in
       case position (\<lambda>q. \<not> m_in_use q) (maps s) of
         Some ci \<Rightarrow> add_rec ci copy s
       | None \<Rightarrow> s\<lparr>objects := (objects s)[slot := ob\<lparr>map_count := map_count ob + 1\<rparr>]\<rparr>
     else s)"

definition fork :: "i32 \<Rightarrow> i32 \<Rightarrow> shm \<Rightarrow> (unit, i32) result \<times> shm" where
  "fork parent child s =
    (if list_ex (\<lambda>r. m_in_use r \<and> m_pid r \<noteq> parent \<and> m_pid r = child) (maps s) then (Err EINVAL, s)
     else if count_if (\<lambda>r. m_in_use r \<and> m_pid r = parent) (maps s) > count_if (\<lambda>r. \<not> m_in_use r) (maps s)
       then (Err ENOMEM, s)
     else (Ok (), fold (fork_one parent child) [0..<MAX_MAP_RECORDS] s))"

section \<open>The module's own consistency check\<close>

definition check_object :: "shm \<Rightarrow> usize \<Rightarrow> string option" where
  "check_object s i =
    (let ob = objects s ! i in
     if \<not> in_use ob then (if map_count ob \<noteq> 0 then Some ''a free object slot has mappings'' else None)
     else if pages ob = 0 \<or> unat (pages ob) > MAX_PAGES_PER_OBJECT then Some ''an object has an impossible size''
     else if dying ob \<and> map_count ob = 0 then Some ''a dying object with no mappings was not freed''
     else if of_nat (count_if (\<lambda>r. m_in_use r \<and> unat (m_obj r) = i) (maps s)) \<noteq> map_count ob
       then Some ''an object's map_count disagrees with the mapping records''
     else None)"

definition span_lo :: "map_rec \<Rightarrow> u64" where
  "span_lo r = ucast (m_addr r)"

definition span_hi :: "map_rec \<Rightarrow> u64" where
  "span_hi r = ucast (m_addr r) + (ucast (m_pages r) + 1) * ucast PAGE_SIZE"

definition check_map :: "shm \<Rightarrow> usize \<Rightarrow> string option" where
  "check_map s i =
    (let r = maps s ! i in
     if \<not> m_in_use r then None
     else if \<not> in_use (objects s ! unat (m_obj r)) then Some ''a mapping refers to a free object''
     else if m_addr r mod PAGE_SIZE \<noteq> 0 \<or> m_addr r < SHM_VIRT_BASE
         \<or> ucast (m_addr r) + ucast (m_pages r) * ucast PAGE_SIZE > (ucast SHM_VIRT_END :: u64)
       then Some ''a mapping lies outside the shared-memory region''
     else if list_ex (\<lambda>j. let q = maps s ! j in m_in_use q \<and> m_pid q = m_pid r \<and> j \<noteq> i
           \<and> span_lo r < span_hi q \<and> span_lo q < span_hi r) [0..<length (maps s)]
       then Some ''two mappings of one process overlap''
     else if of_nat (count_if (\<lambda>q. m_in_use q \<and> m_pid q = m_pid r) (maps s)) > MAX_MAPS_PER_PROC
       then Some ''a process holds more mappings than the limit''
     else None)"

definition check_counts :: "shm \<Rightarrow> (unit, string) result" where
  "check_counts s =
    (case first_err (check_object s) [0..<length (objects s)] of
       Some e \<Rightarrow> Err e
     | None \<Rightarrow>
        if sum_list (map pages (filter in_use (objects s))) \<noteq> total_pages s
        then Err ''total_pages disagrees with the sum of the objects''
        else (case first_err (check_map s) [0..<length (maps s)] of Some e \<Rightarrow> Err e | None \<Rightarrow> Ok ()))"

definition shm_stats :: "shm \<Rightarrow> u32 \<times> u32 \<times> u32" where
  "shm_stats s = (of_nat (count_if in_use (objects s)), total_pages s, of_nat (count_if m_in_use (maps s)))"

section \<open>The C boundary\<close>

text \<open>Out-parameters are the values they hold, before and after.\<close>

definition rust_shm_create :: "('h, 'z) hal_scheme \<Rightarrow> i32 \<Rightarrow> u32 \<Rightarrow> u32 \<Rightarrow> u32 \<times> u32 \<Rightarrow> shm \<Rightarrow> 'h
    \<Rightarrow> (i32 \<times> u32 \<times> u32) \<times> shm \<times> 'h" where
  "rust_shm_create hal p sz flags out s h =
    (case create hal p sz flags s h of
       (Ok (hdl, n), s', h') \<Rightarrow> ((0, hdl, n), s', h')
     | (Err e, s', h') \<Rightarrow> ((- e, out), s', h'))"

definition rust_shm_grant :: "('h, 'z) hal_scheme \<Rightarrow> i32 \<Rightarrow> u32 \<Rightarrow> i32 \<Rightarrow> u32 \<Rightarrow> shm \<Rightarrow> 'h \<Rightarrow> i32 \<times> shm \<times> 'h" where
  "rust_shm_grant hal p handle target rights s h =
    (case grant hal p handle target rights s h of (r, s', h') \<Rightarrow> (neg_errno r, s', h'))"

definition rust_shm_map :: "('h, 'z) hal_scheme \<Rightarrow> i32 \<Rightarrow> u32 \<Rightarrow> u32 \<Rightarrow> u32 \<times> u32 \<Rightarrow> shm \<Rightarrow> 'h
    \<Rightarrow> (i32 \<times> u32 \<times> u32) \<times> shm \<times> 'h" where
  "rust_shm_map hal p handle rights out s h =
    (case shm_map hal p handle rights s h of
       (Ok (a, sz), s', h') \<Rightarrow> ((0, a, sz), s', h')
     | (Err e, s', h') \<Rightarrow> ((- e, out), s', h'))"

definition rust_shm_unmap :: "('h, 'z) hal_scheme \<Rightarrow> i32 \<Rightarrow> u32 \<Rightarrow> shm \<Rightarrow> 'h \<Rightarrow> i32 \<times> shm \<times> 'h" where
  "rust_shm_unmap hal p addr s h = (case unmap hal p addr s h of (r, s', h') \<Rightarrow> (neg_errno r, s', h'))"

definition rust_shm_destroy :: "('h, 'z) hal_scheme \<Rightarrow> i32 \<Rightarrow> u32 \<Rightarrow> shm \<Rightarrow> 'h \<Rightarrow> i32 \<times> shm \<times> 'h" where
  "rust_shm_destroy hal p handle s h = (case destroy hal p handle s h of (r, s', h') \<Rightarrow> (neg_errno r, s', h'))"

definition rust_shm_info :: "i32 \<Rightarrow> u32 \<Rightarrow> u32 list \<Rightarrow> shm \<Rightarrow> i32 \<times> u32 list" where
  "rust_shm_info p handle out s =
    (case info s p handle of
       Ok i \<Rightarrow> (0, copy_prefix [i_size i, word_of_int (i_owner i), i_mappings i, i_my_rights i] out)
     | Err e \<Rightarrow> (- e, out))"

definition rust_shm_process_exit :: "('h, 'z) hal_scheme \<Rightarrow> i32 \<Rightarrow> shm \<Rightarrow> 'h \<Rightarrow> shm \<times> 'h" where
  "rust_shm_process_exit hal p s h = process_exit hal p s h"

definition rust_shm_fork :: "i32 \<Rightarrow> i32 \<Rightarrow> shm \<Rightarrow> i32 \<times> shm" where
  "rust_shm_fork parent child s = (case fork parent child s of (r, s') \<Rightarrow> (neg_errno r, s'))"

definition rust_shm_selftest :: "shm \<Rightarrow> u32 \<times> (u32 \<times> u32 \<times> u32)" where
  "rust_shm_selftest s = ((case check_counts s of Ok _ \<Rightarrow> 0 | Err _ \<Rightarrow> 1), shm_stats s)"

end
