(* ===== verification/Shmgap.thy ===== *)
theory Shmgap
  imports Shm "HOL-Library.Multiset"
begin

text \<open>
  Where a mapping is placed: the insertion sort of \<open>find_gap\<close> sorts, and its scan finds the lowest address
  at which the mapping and its guard page fit between the spans already taken.
\<close>

section \<open>The insertion sort\<close>

lemma mset_sift_span: "j < length sp \<Longrightarrow> mset (sift_span j sp) = mset sp"
proof (induction j arbitrary: sp)
  case 0
  show ?case by simp
next
  case (Suc j)
  have "mset (sp[j := sp ! Suc j, Suc j := sp ! j]) = mset sp"
    using Suc.prems mset_swap [of "Suc j" sp j] by simp
  with Suc show ?case by simp
qed

lemma length_sift_span [simp]: "length (sift_span j sp) = length sp"
  by (induction j arbitrary: sp) simp_all

lemma fold_sift_invariant:
  assumes "set is \<subseteq> {0..<length sp}"
  shows "mset (fold sift_span is sp) = mset sp" "length (fold sift_span is sp) = length sp"
  using assms
  by (induction "is" arbitrary: sp) (auto simp: mset_sift_span)

lemma mset_sort_spans: "mset (sort_spans sp) = mset sp"
  unfolding sort_spans_def by (rule fold_sift_invariant) auto

lemma set_sort_spans: "set (sort_spans sp) = set sp"
  using mset_sort_spans by (metis set_mset_mset)

text \<open>Everything up to \<open>n\<close> is in order, but for the element at \<open>j\<close>, which may still move down.\<close>

definition almost_sorted :: "usize \<Rightarrow> usize \<Rightarrow> (u32 \<times> u32) list \<Rightarrow> bool" where
  "almost_sorted j n sp \<longleftrightarrow> (\<forall>a b. a < b \<longrightarrow> b \<le> n \<longrightarrow> b \<noteq> j \<longrightarrow> fst (sp ! a) \<le> fst (sp ! b))"

lemma sift_span_sorts:
  "almost_sorted j n sp \<Longrightarrow> j \<le> n \<Longrightarrow> n < length sp \<Longrightarrow> a < b \<Longrightarrow> b \<le> n
    \<Longrightarrow> fst (sift_span j sp ! a) \<le> fst (sift_span j sp ! b)"
proof (induction j arbitrary: sp)
  case 0
  then show ?case by (auto simp: almost_sorted_def)
next
  case (Suc j)
  let ?sp = "sp[j := sp ! Suc j, Suc j := sp ! j]"
  show ?case
  proof (cases "fst (sp ! j) > fst (sp ! Suc j)")
    case True
    have "almost_sorted j n ?sp"
      unfolding almost_sorted_def
    proof (intro allI impI)
      fix a b
      assume ab: "a < b" "b \<le> n" "b \<noteq> j"
      have s: "fst (sp ! x) \<le> fst (sp ! y)" if "x < y" "y \<le> n" "y \<noteq> Suc j" for x y
        using Suc.prems(1) that by (simp add: almost_sorted_def)
      consider "b = Suc j" "a = j" | "b = Suc j" "a < j" | "b > Suc j" | "b < j"
        using ab by linarith
      then show "fst (?sp ! a) \<le> fst (?sp ! b)"
      proof cases
        case 1
        with True Suc.prems show ?thesis by simp
      next
        case 2
        with s [of a j] Suc.prems show ?thesis by simp
      next
        case 3
        with ab s [of j b] s [of "Suc j" b] s [of a b] Suc.prems show ?thesis by (auto simp: nth_list_update)
      next
        case 4
        with ab s [of a b] show ?thesis by simp
      qed
    qed
    with True Suc.prems show ?thesis using Suc.IH [of ?sp] by simp
  next
    case False
    have s: "fst (sp ! x) \<le> fst (sp ! y)" if "x < y" "y \<le> n" "y \<noteq> Suc j" for x y
      using Suc.prems(1) that by (simp add: almost_sorted_def)
    have "fst (sp ! a) \<le> fst (sp ! b)"
    proof (cases "b = Suc j")
      case True
      have "fst (sp ! a) \<le> fst (sp ! j)" using s [of a j] True Suc.prems by (cases "a = j") auto
      with True False show ?thesis by simp
    qed (use s Suc.prems in blast)
    with False show ?thesis by simp
  qed
qed

lemma fold_sift_sorts:
  "n < length sp \<Longrightarrow> a < b \<Longrightarrow> b \<le> n
    \<Longrightarrow> fst (fold sift_span [1..<Suc n] sp ! a) \<le> fst (fold sift_span [1..<Suc n] sp ! b)"
proof (induction n arbitrary: a b)
  case 0
  then show ?case by simp
next
  case (Suc n)
  let ?sp = "fold sift_span [1..<Suc n] sp"
  have len: "length ?sp = length sp"
    using Suc.prems(1) by (intro fold_sift_invariant) auto
  have "almost_sorted (Suc n) (Suc n) ?sp"
    unfolding almost_sorted_def using Suc.IH Suc.prems(1) by (metis Suc_lessD le_SucE)
  then have "fst (sift_span (Suc n) ?sp ! a) \<le> fst (sift_span (Suc n) ?sp ! b)"
    using Suc.prems len by (intro sift_span_sorts) auto
  then show ?case by simp
qed

lemma sorted_sort_spans: "sorted_wrt (\<lambda>x y. fst x \<le> fst y) (sort_spans sp)"
proof (cases "length sp")
  case (Suc n)
  then have "length (sort_spans sp) = Suc n"
    using mset_sort_spans [of sp] by (metis size_mset)
  with Suc show ?thesis
    using fold_sift_sorts [of n sp] by (auto simp: sorted_wrt_iff_nth_less sort_spans_def)
qed (simp add: sort_spans_def)

section \<open>The scan\<close>

text \<open>The address \<open>x\<close> is free for \<open>need\<close> bytes.\<close>

definition fits :: "nat \<Rightarrow> (u32 \<times> u32) list \<Rightarrow> nat \<Rightarrow> bool" where
  "fits need sp x \<longleftrightarrow> (\<forall>(a, e) \<in> set sp. x + need \<le> unat a \<or> unat e \<le> x)"

lemma unat_ucast_64 [simp]: "unat (ucast (w :: u32) :: u64) = unat w"
  by (rule unat_ucast_up) simp

lemma unat_ucast_32: "unat (w :: u64) < 2 ^ 32 \<Longrightarrow> unat (ucast w :: u32) = unat w"
  by (simp add: unsigned_ucast_eq take_bit_nat_eq_self)

lemma gap_fit_iff:
  "ucast a \<ge> cand \<and> ucast a - cand \<ge> need \<longleftrightarrow> unat cand + unat need \<le> unat a" for a :: u32 and cand need :: u64
proof -
  have "unat (ucast a - cand) = unat a - unat cand" if "cand \<le> ucast a"
    using that by (simp add: unat_sub)
  then show ?thesis by (auto simp: word_le_nat_alt)
qed

lemma gap_scan_spec:
  assumes "sorted_wrt (\<lambda>x y. fst x \<le> fst y) sp" and "unat cand < 2 ^ 32" and "unat need < 2 ^ 32"
    and "\<And>a e. (a, e) \<in> set sp \<Longrightarrow> unat a \<le> unat e_end"
  shows "case gap_scan need e_end cand sp of
      Some g \<Rightarrow> unat cand \<le> unat g \<and> unat g + unat need \<le> unat e_end \<and> fits (unat need) sp (unat g)
        \<and> (unat g = unat cand \<or> g \<in> snd ` set sp)
        \<and> (\<forall>x. unat cand \<le> x \<longrightarrow> x < unat g \<longrightarrow> \<not> fits (unat need) sp x)
    | None \<Rightarrow> \<forall>x. unat cand \<le> x \<longrightarrow> x + unat need \<le> unat e_end \<longrightarrow> \<not> fits (unat need) sp x"
  using assms
proof (induction sp arbitrary: cand)
  case Nil
  have "unat (cand + need) = unat cand + unat need"
    using Nil.prems by (intro unat_add_small) simp
  then show ?case
    using Nil.prems by (auto simp: word_le_nat_alt unat_ucast_32 fits_def)
next
  case (Cons s sp)
  obtain a e where s: "s = (a, e)" by force
  let ?c = "if ucast e > cand then ucast e else cand"
  show ?case
  proof (cases "unat cand + unat need \<le> unat a")
    case True
    then have g: "gap_scan need e_end cand (s # sp) = Some (ucast cand)"
      using gap_fit_iff [where a = a and cand = cand and need = need] by (simp add: s)
    have "unat cand + unat need \<le> unat b" if "(b, f) \<in> set sp" for b f
      using True Cons.prems(1) that s by (fastforce simp: word_le_nat_alt)
    with g True show ?thesis
      using Cons.prems(2) Cons.prems(4) [of a e] s by (auto simp: fits_def unat_ucast_32)
  next
    case False
    then have g: "gap_scan need e_end cand (s # sp) = gap_scan need e_end ?c sp"
      using gap_fit_iff [where a = a and cand = cand and need = need] by (auto simp: s)
    have c: "unat ?c = max (unat cand) (unat e)" by (auto simp: word_less_nat_alt)
    have IH: "case gap_scan need e_end ?c sp of
      Some g \<Rightarrow> unat ?c \<le> unat g \<and> unat g + unat need \<le> unat e_end \<and> fits (unat need) sp (unat g)
        \<and> (unat g = unat ?c \<or> g \<in> snd ` set sp)
        \<and> (\<forall>x. unat ?c \<le> x \<longrightarrow> x < unat g \<longrightarrow> \<not> fits (unat need) sp x)
      | None \<Rightarrow> \<forall>x. unat ?c \<le> x \<longrightarrow> x + unat need \<le> unat e_end \<longrightarrow> \<not> fits (unat need) sp x"
      using Cons.prems unat_bound [of e] c by (intro Cons.IH) auto
    have fits: "fits (unat need) (s # sp) x \<longleftrightarrow> (x + unat need \<le> unat a \<or> unat e \<le> x) \<and> fits (unat need) sp x" for x
      by (simp add: fits_def s)
    have skip: "\<not> fits (unat need) (s # sp) x" if "unat cand \<le> x" "\<not> unat ?c \<le> x" for x
      using that False unfolding fits c by auto
    show ?thesis
    proof (cases "gap_scan need e_end ?c sp")
      case None
      with IH g skip show ?thesis by (auto simp: fits)
    next
      case (Some r)
      with IH have r: "unat ?c \<le> unat r" "unat r + unat need \<le> unat e_end" "fits (unat need) sp (unat r)"
        "unat r = unat ?c \<or> r \<in> snd ` set sp" "\<And>x. unat ?c \<le> x \<Longrightarrow> x < unat r \<Longrightarrow> \<not> fits (unat need) sp x"
        by simp_all
      have "unat r = unat cand \<or> r \<in> snd ` set (s # sp)"
        using r(4) c s by (auto simp: max_def word_unat_eq split: if_splits)
      moreover have "\<not> fits (unat need) (s # sp) x" if "unat cand \<le> x" "x < unat r" for x
        using skip [OF that(1)] r(5) [OF _ that(2)] fits by blast
      ultimately show ?thesis
        using r c g Some by (auto simp: fits)
    qed
  qed
qed

end
