(* ===== verification/Shmbooks.thy ===== *)
theory Shmbooks
  imports Shmgap
begin

text \<open>
  The invariant of the shared-memory table, that every operation keeps it whatever the machine below
  answers, and that it implies the module's own consistency check.
\<close>

section \<open>The invariant\<close>

definition refs :: "map_rec list \<Rightarrow> usize \<Rightarrow> nat" where
  "refs ms i = count_if (\<lambda>r. m_in_use r \<and> unat (m_obj r) = i) ms"

definition held :: "map_rec list \<Rightarrow> i32 \<Rightarrow> nat" where
  "held ms p = count_if (\<lambda>r. m_in_use r \<and> m_pid r = p) ms"

definition object_ok :: "object \<Rightarrow> bool" where
  "object_ok ob \<longleftrightarrow> length (grants ob) = MAX_GRANTS \<and> unat (gen ob) < 2 ^ 24 \<and>
     (if in_use ob then gen ob \<noteq> 0 \<and> 0 < unat (pages ob) \<and> unat (pages ob) \<le> MAX_PAGES_PER_OBJECT
      else pages ob = 0 \<and> \<not> dying ob)"

definition frames_ok :: "object \<Rightarrow> u32 list \<Rightarrow> bool" where
  "frames_ok ob fs \<longleftrightarrow> length fs = MAX_PAGES_PER_OBJECT
     \<and> (\<forall>j < MAX_PAGES_PER_OBJECT. unat (pages ob) \<le> j \<longrightarrow> fs ! j = 0)"

definition span_end :: "map_rec \<Rightarrow> nat" where
  "span_end r = unat (m_addr r) + (unat (m_pages r) + 1) * 4096"

definition rec_ok :: "object list \<Rightarrow> map_rec \<Rightarrow> bool" where
  "rec_ok obs r \<longleftrightarrow> unat (m_obj r) < length obs \<and> in_use (obs ! unat (m_obj r))
     \<and> m_pages r = pages (obs ! unat (m_obj r)) \<and> 4096 dvd unat (m_addr r)
     \<and> unat SHM_VIRT_BASE \<le> unat (m_addr r) \<and> span_end r \<le> unat SHM_VIRT_END
     \<and> (m_rights r = 1 \<or> m_rights r = 3)"

definition apart :: "map_rec \<Rightarrow> map_rec \<Rightarrow> bool" where
  "apart r q \<longleftrightarrow> span_end r \<le> unat (m_addr q) \<or> span_end q \<le> unat (m_addr r)"

definition recs_apart :: "map_rec list \<Rightarrow> bool" where
  "recs_apart ms \<longleftrightarrow> (\<forall>i < length ms. \<forall>j < length ms. i \<noteq> j \<longrightarrow> m_in_use (ms ! i) \<longrightarrow> m_in_use (ms ! j)
     \<longrightarrow> m_pid (ms ! i) = m_pid (ms ! j) \<longrightarrow> apart (ms ! i) (ms ! j) \<and> m_obj (ms ! i) \<noteq> m_obj (ms ! j))"

definition shm_core :: "shm \<Rightarrow> bool" where
  "shm_core s \<longleftrightarrow> length (objects s) = MAX_OBJECTS \<and> length (frames s) = MAX_OBJECTS \<and> length (maps s) = MAX_MAP_RECORDS
     \<and> (\<forall>i < MAX_OBJECTS. object_ok (objects s ! i) \<and> frames_ok (objects s ! i) (frames s ! i)
          \<and> unat (map_count (objects s ! i)) = refs (maps s) i)
     \<and> (\<forall>r \<in> set (maps s). m_in_use r \<longrightarrow> rec_ok (objects s) r)
     \<and> recs_apart (maps s) \<and> (\<forall>p. held (maps s) p \<le> unat MAX_MAPS_PER_PROC)
     \<and> unat (total_pages s) = sum_list (map (unat \<circ> pages) (objects s)) \<and> total_pages s \<le> MAX_TOTAL_PAGES"

text \<open>A dying object is kept only while something maps it.\<close>

definition shm_ok :: "shm \<Rightarrow> bool" where
  "shm_ok s \<longleftrightarrow> shm_core s \<and> (\<forall>ob \<in> set (objects s). dying ob \<longrightarrow> map_count ob \<noteq> 0)"

lemma shm_coreI:
  assumes "length (objects s) = MAX_OBJECTS" "length (frames s) = MAX_OBJECTS" "length (maps s) = MAX_MAP_RECORDS"
    and "\<And>i. i < MAX_OBJECTS \<Longrightarrow> object_ok (objects s ! i)"
    and "\<And>i. i < MAX_OBJECTS \<Longrightarrow> frames_ok (objects s ! i) (frames s ! i)"
    and "\<And>i. i < MAX_OBJECTS \<Longrightarrow> unat (map_count (objects s ! i)) = refs (maps s) i"
    and "\<And>r. r \<in> set (maps s) \<Longrightarrow> m_in_use r \<Longrightarrow> rec_ok (objects s) r"
    and "recs_apart (maps s)" "\<And>p. held (maps s) p \<le> unat MAX_MAPS_PER_PROC"
    and "unat (total_pages s) = sum_list (map (unat \<circ> pages) (objects s))" "total_pages s \<le> MAX_TOTAL_PAGES"
  shows "shm_core s"
  using assms unfolding shm_core_def by blast

lemma shm_coreD:
  assumes "shm_core s"
  shows "length (objects s) = MAX_OBJECTS" "length (frames s) = MAX_OBJECTS" "length (maps s) = MAX_MAP_RECORDS"
    and "i < MAX_OBJECTS \<Longrightarrow> object_ok (objects s ! i)"
    and "i < MAX_OBJECTS \<Longrightarrow> frames_ok (objects s ! i) (frames s ! i)"
    and "i < MAX_OBJECTS \<Longrightarrow> unat (map_count (objects s ! i)) = refs (maps s) i"
    and "r \<in> set (maps s) \<Longrightarrow> m_in_use r \<Longrightarrow> rec_ok (objects s) r"
    and "recs_apart (maps s)" "held (maps s) p \<le> unat MAX_MAPS_PER_PROC"
    and "unat (total_pages s) = sum_list (map (unat \<circ> pages) (objects s))" "total_pages s \<le> MAX_TOTAL_PAGES"
  using assms unfolding shm_core_def by blast+

lemmas core_len = shm_coreD(1-3)

lemma rec_okD:
  assumes "rec_ok obs r"
  shows "unat (m_obj r) < length obs" "in_use (obs ! unat (m_obj r))" "m_pages r = pages (obs ! unat (m_obj r))"
    and "4096 dvd unat (m_addr r)" "unat SHM_VIRT_BASE \<le> unat (m_addr r)" "span_end r \<le> unat SHM_VIRT_END"
    and "m_rights r = 1 \<or> m_rights r = 3"
  using assms by (simp_all add: rec_ok_def)

text \<open>A change that keeps what the records depend on.\<close>

lemma rec_ok_objs:
  assumes "rec_ok obs r" and "length obs' = length obs"
    and "in_use (obs' ! unat (m_obj r)) = in_use (obs ! unat (m_obj r))"
    and "pages (obs' ! unat (m_obj r)) = pages (obs ! unat (m_obj r))"
  shows "rec_ok obs' r"
  using assms by (simp add: rec_ok_def)

lemma sum_pages_update:
  assumes "i < length obs"
  shows "sum_list (map (unat \<circ> pages) (obs[i := ob])) + unat (pages (obs ! i))
       = sum_list (map (unat \<circ> pages) obs) + unat (pages ob)"
  using assms
proof (induction obs arbitrary: i)
  case Nil
  then show ?case by simp
next
  case (Cons x xs)
  then show ?case by (cases i) auto
qed

definition same_books :: "object \<Rightarrow> object \<Rightarrow> bool" where
  "same_books a b \<longleftrightarrow> in_use a = in_use b \<and> gen a = gen b \<and> pages a = pages b \<and> map_count a = map_count b
     \<and> length (grants a) = length (grants b) \<and> (dying b \<longrightarrow> dying a \<or> in_use a)"

lemma same_books_refl [simp]: "same_books a a"
  by (simp add: same_books_def)

lemma core_objs:
  assumes core: "shm_core s" and len: "length obs = length (objects s)"
    and same: "\<And>i. i < length obs \<Longrightarrow> same_books (objects s ! i) (obs ! i)"
  shows "shm_core (s\<lparr>objects := obs\<rparr>)"
proof (rule shm_coreI)
  note d = shm_coreD [OF core]
  have sb: "same_books (objects s ! i) (obs ! i)" if "i < MAX_OBJECTS" for i
    using same len d(1) that by simp
  show "object_ok (objects (s\<lparr>objects := obs\<rparr>) ! i)" if "i < MAX_OBJECTS" for i
    using sb [OF that] d(4) [OF that] by (auto simp: object_ok_def same_books_def split: if_splits)
  show "frames_ok (objects (s\<lparr>objects := obs\<rparr>) ! i) (frames (s\<lparr>objects := obs\<rparr>) ! i)" if "i < MAX_OBJECTS" for i
    using sb [OF that] d(5) [OF that] by (simp add: frames_ok_def same_books_def)
  show "unat (map_count (objects (s\<lparr>objects := obs\<rparr>) ! i)) = refs (maps (s\<lparr>objects := obs\<rparr>)) i" if "i < MAX_OBJECTS" for i
    using sb [OF that] d(6) [OF that] by (simp add: same_books_def)
  show "rec_ok (objects (s\<lparr>objects := obs\<rparr>)) r" if "r \<in> set (maps (s\<lparr>objects := obs\<rparr>))" "m_in_use r" for r
  proof -
    have r: "rec_ok (objects s) r" using d(7) that by simp
    have "same_books (objects s ! unat (m_obj r)) (obs ! unat (m_obj r))"
      using same rec_okD(1) [OF r] len by simp
    then show ?thesis using rec_ok_objs [OF r len] by (simp add: same_books_def)
  qed
  have "map (unat \<circ> pages) obs = map (unat \<circ> pages) (objects s)"
    by (rule nth_equalityI) (use len same in \<open>auto simp: same_books_def\<close>)
  then show "unat (total_pages (s\<lparr>objects := obs\<rparr>)) = sum_list (map (unat \<circ> pages) (objects (s\<lparr>objects := obs\<rparr>)))"
    using d(10) by simp
qed (use shm_coreD [OF core] len in simp_all)

lemma core_obj_update:
  assumes "shm_core s" and "same_books (objects s ! i) ob"
  shows "shm_core (s\<lparr>objects := (objects s)[i := ob]\<rparr>)"
proof (rule core_objs [OF assms(1)])
  fix k
  assume "k < length ((objects s)[i := ob])"
  then show "same_books (objects s ! k) ((objects s)[i := ob] ! k)"
    using assms(2) by (cases "k = i") simp_all
qed simp

lemma core_map_objs:
  assumes "shm_core s" and "\<And>ob. same_books ob (f ob)"
  shows "shm_core (s\<lparr>objects := map f (objects s)\<rparr>)"
  using assms by (intro core_objs) auto

section \<open>Adding and dropping a mapping record\<close>

lemma apart_commute: "apart r q \<longleftrightarrow> apart q r"
  by (auto simp: apart_def)

lemma recs_apart_update:
  assumes "recs_apart ms"
    and "m_in_use r \<Longrightarrow> \<forall>j < length ms. j \<noteq> i \<longrightarrow> m_in_use (ms ! j) \<longrightarrow> m_pid (ms ! j) = m_pid r
          \<longrightarrow> apart r (ms ! j) \<and> m_obj r \<noteq> m_obj (ms ! j)"
  shows "recs_apart (ms[i := r])"
  unfolding recs_apart_def
proof (intro allI impI)
  fix a b
  assume ab: "a < length (ms[i := r])" "b < length (ms[i := r])" "a \<noteq> b" "m_in_use (ms[i := r] ! a)"
    "m_in_use (ms[i := r] ! b)" "m_pid (ms[i := r] ! a) = m_pid (ms[i := r] ! b)"
  consider "a = i" | "b = i" | "a \<noteq> i" "b \<noteq> i" by blast
  then show "apart (ms[i := r] ! a) (ms[i := r] ! b) \<and> m_obj (ms[i := r] ! a) \<noteq> m_obj (ms[i := r] ! b)"
  proof cases
    case 1
    with ab assms(2) show ?thesis by simp
  next
    case 2
    with ab assms(2) have "apart r (ms ! a) \<and> m_obj r \<noteq> m_obj (ms ! a)" by simp
    with 2 ab show ?thesis by (auto simp: apart_commute [of "ms ! a"])
  next
    case 3
    with ab assms(1) show ?thesis by (simp add: recs_apart_def)
  qed
qed

lemma refs_update:
  assumes "i < length ms"
  shows "refs (ms[i := r]) k + of_bool (m_in_use (ms ! i) \<and> unat (m_obj (ms ! i)) = k)
       = refs ms k + of_bool (m_in_use r \<and> unat (m_obj r) = k)"
  unfolding refs_def by (rule count_if_update [OF assms])

lemma held_update:
  assumes "i < length ms"
  shows "held (ms[i := r]) p + of_bool (m_in_use (ms ! i) \<and> m_pid (ms ! i) = p)
       = held ms p + of_bool (m_in_use r \<and> m_pid r = p)"
  unfolding held_def by (rule count_if_update [OF assms])

lemma refs_le: "length ms = MAX_MAP_RECORDS \<Longrightarrow> refs ms i \<le> 256"
  unfolding refs_def using count_if_le_length by (metis MAX_MAP_RECORDS_def)

text \<open>The part the two operations share: one object's count moves with the records.\<close>

lemma core_recount:
  assumes core: "shm_core s" and slot: "slot < MAX_OBJECTS"
    and len: "length ms = length (maps s)"
    and cnt: "unat c = refs ms slot" and others: "\<And>k. k \<noteq> slot \<Longrightarrow> refs ms k = refs (maps s) k"
    and recs: "\<And>r. r \<in> set ms \<Longrightarrow> m_in_use r \<Longrightarrow> rec_ok (objects s) r"
    and ap: "recs_apart ms" and held: "\<And>p. held ms p \<le> unat MAX_MAPS_PER_PROC"
  shows "shm_core (s\<lparr>maps := ms, objects := (objects s)[slot := (objects s ! slot)\<lparr>map_count := c\<rparr>]\<rparr>)"
    (is "shm_core ?t")
proof (rule shm_coreI)
  note d = shm_coreD [OF core]
  have get: "objects ?t ! i = (if i = slot then (objects s ! slot)\<lparr>map_count := c\<rparr> else objects s ! i)" for i
    using slot d(1) by (simp add: nth_list_update)
  show "object_ok (objects ?t ! i)" if "i < MAX_OBJECTS" for i
    unfolding get using d(4) [OF that] by (cases "i = slot") (simp_all add: object_ok_def)
  show "frames_ok (objects ?t ! i) (frames ?t ! i)" if "i < MAX_OBJECTS" for i
    unfolding get using d(5) [OF that] by (cases "i = slot") (simp_all add: frames_ok_def)
  show "unat (map_count (objects ?t ! i)) = refs (maps ?t) i" if "i < MAX_OBJECTS" for i
    unfolding get using d(6) [OF that] cnt others [of i] by simp
  show "rec_ok (objects ?t) r" if "r \<in> set (maps ?t)" "m_in_use r" for r
  proof (rule rec_ok_objs)
    show "rec_ok (objects s) r" using recs that by simp
    show "in_use (objects ?t ! unat (m_obj r)) = in_use (objects s ! unat (m_obj r))" unfolding get by simp
    show "pages (objects ?t ! unat (m_obj r)) = pages (objects s ! unat (m_obj r))" unfolding get by simp
  qed simp
  have "map (unat \<circ> pages) (objects ?t) = map (unat \<circ> pages) (objects s)"
  proof (rule nth_equalityI)
    fix i
    assume "i < length (map (unat \<circ> pages) (objects ?t))"
    then have "i < length (objects ?t)" "i < length (objects s)" by simp_all
    then show "map (unat \<circ> pages) (objects ?t) ! i = map (unat \<circ> pages) (objects s) ! i"
      using get [of i] by (simp only: nth_map o_def) simp
  qed simp
  then show "unat (total_pages ?t) = sum_list (map (unat \<circ> pages) (objects ?t))" using d(10) by simp
qed (use shm_coreD [OF core] len ap held in simp_all)

lemma add_rec_core:
  assumes core: "shm_core s" and i: "i < MAX_MAP_RECORDS" "\<not> m_in_use (maps s ! i)"
    and r: "rec_ok (objects s) r" "m_in_use r" and room: "held (maps s) (m_pid r) < unat MAX_MAPS_PER_PROC"
    and new: "\<And>q. q \<in> set (maps s) \<Longrightarrow> m_in_use q \<Longrightarrow> m_pid q = m_pid r \<Longrightarrow> apart r q \<and> m_obj r \<noteq> m_obj q"
  shows "shm_core (add_rec i r s)"
proof -
  note d = shm_coreD [OF core]
  let ?ms = "(maps s)[i := r]" and ?slot = "unat (m_obj r)"
  have i': "i < length (maps s)" using i d(3) by simp
  have slot: "?slot < MAX_OBJECTS" using rec_okD(1) [OF r(1)] d(1) by simp
  have refs: "refs ?ms k = refs (maps s) k + of_bool (?slot = k)" for k
    using refs_update [OF i', of r k] i(2) r(2) by simp
  have "refs (maps s) ?slot + 1 \<le> 257" using refs_le [OF d(3), of ?slot] by simp
  then have cnt: "unat (map_count (objects s ! ?slot) + 1) = refs ?ms ?slot"
    using d(6) [OF slot] refs [of ?slot] by (simp add: unat_word_ariths)
  have held: "held ?ms p \<le> unat MAX_MAPS_PER_PROC" for p
    using held_update [OF i', of r p] i(2) r(2) room d(9) [of p] by (cases "m_pid r = p") simp_all
  have recs: "rec_ok (objects s) q" if "q \<in> set ?ms" "m_in_use q" for q
    using that r d(7) [of q] set_update_subset_insert [of "maps s" i r] by blast
  have ap: "recs_apart ?ms"
    by (rule recs_apart_update) (use d(8) new in \<open>auto simp: nth_mem\<close>)
  show ?thesis
    unfolding add_rec_def Let_def
    by (rule core_recount) (use core slot cnt refs recs ap held in simp_all)
qed

lemma drop_rec_core:
  assumes core: "shm_core s" and i: "i < MAX_MAP_RECORDS" "m_in_use (maps s ! i)"
  shows "shm_core (drop_rec i s)"
proof -
  note d = shm_coreD [OF core]
  let ?ms = "(maps s)[i := EMPTY_MAP]" and ?slot = "unat (m_obj (maps s ! i))"
  have i': "i < length (maps s)" using i d(3) by simp
  have e: "\<not> m_in_use EMPTY_MAP" by (simp add: EMPTY_MAP_def)
  have slot: "?slot < MAX_OBJECTS" using rec_okD(1) [OF d(7) [OF nth_mem [OF i'] i(2)]] d(1) by simp
  have refs: "refs ?ms k + of_bool (?slot = k) = refs (maps s) k" for k
    using refs_update [OF i', of EMPTY_MAP k] i(2) e by simp
  have cnt: "unat (map_count (objects s ! ?slot) - 1) = refs ?ms ?slot"
    using d(6) [OF slot] refs [of ?slot] by (simp add: unat_minus_one unat_eq_zero [symmetric] del: unat_eq_zero)
  have held: "held ?ms p \<le> unat MAX_MAPS_PER_PROC" for p
    using held_update [OF i', of EMPTY_MAP p] e d(9) [of p] by simp
  have recs: "rec_ok (objects s) q" if "q \<in> set ?ms" "m_in_use q" for q
    using that e d(7) [of q] set_update_subset_insert [of "maps s" i EMPTY_MAP] by blast
  have ap: "recs_apart ?ms"
    by (rule recs_apart_update) (use d(8) e in simp_all)
  have others: "refs ?ms k = refs (maps s) k" if "k \<noteq> ?slot" for k
    using refs [of k] that by simp
  show ?thesis
    unfolding drop_rec_def Let_def
    by (rule core_recount) (use core slot cnt others recs ap held in simp_all)
qed


section \<open>Freeing an object\<close>

lemma map_nth_take: "n \<le> length xs \<Longrightarrow> map ((!) xs) [0..<n] = take n xs"
  by (simp add: list_eq_iff_nth_eq)

lemma fold_clear_nth:
  "length (fold (\<lambda>i fs. fs[i := 0]) is fs) = length fs"
  "j < length fs \<Longrightarrow> fold (\<lambda>i fs. fs[i := (0::u32)]) is fs ! j = (if j \<in> set is then 0 else fs ! j)"
  by (induction "is" arbitrary: fs) (simp_all add: nth_list_update)

lemma free_frames_fst: "fst (free_frames hal is fs h) = fold (\<lambda>i fs. fs[i := 0]) is fs"
  by (induction "is" arbitrary: fs h) simp_all

lemma free_frames_snd:
  "distinct is \<Longrightarrow> snd (free_frames hal is fs h) = fold (free_frame hal) (map ((!) fs) is) h"
proof (induction "is" arbitrary: fs h)
  case Nil
  show ?case by simp
next
  case (Cons i "is")
  then have eq: "map ((!) (fs[i := 0])) is = map ((!) fs) is"
    by (intro map_cong) (simp, metis distinct.simps(2) nth_list_update_neq)
  show ?case using Cons.IH [of "fs[i := 0]"] Cons.prems unfolding eq by simp
qed

lemma next_gen_bound: "unat (next_gen g) < 2 ^ 24" and next_gen_pos: "next_gen g \<noteq> 0"
proof -
  have "(g + 1) AND 0x00FFFFFF = take_bit 24 (g + 1)"
    by (simp add: take_bit_eq_mask mask_eq_exp_minus_1)
  then have "unat ((g + 1) AND 0x00FFFFFF) < 2 ^ 24"
    using take_bit_nat_less_exp [of 24 "unat (g + 1)"] by (simp add: unsigned_take_bit_eq)
  then show "unat (next_gen g) < 2 ^ 24" by (simp add: next_gen_def Let_def)
  show "next_gen g \<noteq> 0" by (simp add: next_gen_def Let_def)
qed

text \<open>What \<open>free_object\<close> leaves: an empty slot of the next generation and no frame in it.\<close>

definition freed :: "shm \<Rightarrow> usize \<Rightarrow> shm" where
  "freed s slot = s\<lparr>frames := (frames s)[slot := replicate MAX_PAGES_PER_OBJECT 0],
     total_pages := total_pages s - pages (objects s ! slot),
     objects := (objects s)[slot := EMPTY_OBJ\<lparr>gen := next_gen (gen (objects s ! slot))\<rparr>]\<rparr>"

lemma free_object_eq:
  assumes "shm_core s" and "slot < MAX_OBJECTS"
  shows "free_object hal slot s h
    = (freed s slot, fold (free_frame hal) (take (unat (pages (objects s ! slot))) (frames s ! slot)) h)"
proof -
  let ?n = "unat (pages (objects s ! slot))" and ?fs = "frames s ! slot"
  have fo: "frames_ok (objects s ! slot) ?fs" and oo: "object_ok (objects s ! slot)"
    using shm_coreD(4,5) [OF assms(1) assms(2)] by simp_all
  then have n: "?n \<le> length ?fs"
    by (auto simp: object_ok_def frames_ok_def split: if_splits)
  obtain fs' h' where ff: "free_frames hal [0..<?n] ?fs h = (fs', h')" by force
  have "fs' = replicate MAX_PAGES_PER_OBJECT 0"
    by (rule nth_equalityI)
      (use free_frames_fst [of hal "[0..<?n]" ?fs h] ff fo in \<open>auto simp: frames_ok_def fold_clear_nth\<close>)
  moreover have "h' = fold (free_frame hal) (take ?n ?fs) h"
    using free_frames_snd [of "[0..<?n]" hal ?fs h] ff n by (simp add: map_nth_take)
  ultimately show ?thesis using ff by (simp add: free_object_def freed_def Let_def)
qed

lemma refs_pos: "r \<in> set ms \<Longrightarrow> m_in_use r \<Longrightarrow> 0 < refs ms (unat (m_obj r))"
  unfolding refs_def using count_if_eq_0 [of _ ms] by (metis (mono_tags, lifting) gr0I)

lemma freed_core:
  assumes core: "shm_core s" and slot: "slot < MAX_OBJECTS" and z: "map_count (objects s ! slot) = 0"
  shows "shm_core (freed s slot)" (is "shm_core ?t")
proof (rule shm_coreI)
  note d = shm_coreD [OF core]
  let ?e = "EMPTY_OBJ\<lparr>gen := next_gen (gen (objects s ! slot))\<rparr>"
  have slot': "slot < length (objects s)" "slot < length (frames s)" using slot d(1,2) by simp_all
  have get: "objects ?t ! i = (if i = slot then ?e else objects s ! i)" for i
    using slot' by (simp add: freed_def nth_list_update)
  have getf: "frames ?t ! i = (if i = slot then replicate MAX_PAGES_PER_OBJECT 0 else frames s ! i)" for i
    using slot' by (simp add: freed_def nth_list_update)
  have maps: "maps ?t = maps s" by (simp add: freed_def)
  have none: "unat (m_obj r) \<noteq> slot" if "r \<in> set (maps s)" "m_in_use r" for r
    using refs_pos [OF that] d(6) [OF slot] z by auto
  show "object_ok (objects ?t ! i)" if "i < MAX_OBJECTS" for i
    unfolding get using d(4) [OF that] next_gen_bound [of "gen (objects s ! slot)"]
    by (simp add: object_ok_def EMPTY_OBJ_def)
  show "frames_ok (objects ?t ! i) (frames ?t ! i)" if "i < MAX_OBJECTS" for i
    unfolding get getf using d(5) [OF that] by (cases "i = slot") (simp_all add: frames_ok_def)
  show "unat (map_count (objects ?t ! i)) = refs (maps ?t) i" if "i < MAX_OBJECTS" for i
    unfolding get maps using d(6) [OF that] z by (cases "i = slot") (simp_all add: EMPTY_OBJ_def)
  show "rec_ok (objects ?t) r" if "r \<in> set (maps ?t)" "m_in_use r" for r
  proof (rule rec_ok_objs)
    show "rec_ok (objects s) r" using d(7) that maps by simp
    show "length (objects ?t) = length (objects s)" by (simp add: freed_def)
  qed (use none that maps in \<open>simp_all add: get\<close>)
  have sum: "sum_list (map (unat \<circ> pages) (objects ?t)) + unat (pages (objects s ! slot))
      = sum_list (map (unat \<circ> pages) (objects s))"
    using sum_pages_update [OF slot'(1), of ?e] by (simp add: freed_def EMPTY_OBJ_def)
  have "pages (objects s ! slot) \<le> total_pages s"
    unfolding word_le_nat_alt d(10) using sum by simp
  then have tot: "unat (total_pages ?t) = unat (total_pages s) - unat (pages (objects s ! slot))"
    by (simp add: freed_def unat_sub)
  then show "unat (total_pages ?t) = sum_list (map (unat \<circ> pages) (objects ?t))"
    using sum d(10) by simp
  show "total_pages ?t \<le> MAX_TOTAL_PAGES"
    using tot d(11) by (simp add: word_le_nat_alt)
qed (use shm_coreD [OF core] in \<open>simp_all add: freed_def\<close>)

section \<open>The operations keep the invariant\<close>

lemma shm_ok_core [elim]: "shm_ok s \<Longrightarrow> shm_core s"
  by (simp add: shm_ok_def)

lemma lookup_Ok:
  assumes "lookup s handle = Ok slot"
  shows "slot < MAX_OBJECTS" "in_use (objects s ! slot)" "\<not> dying (objects s ! slot)"
    and "gen (objects s ! slot) = drop_bit 8 handle" "slot = unat (handle AND 0xFF) - 1" "unat (handle AND 0xFF) \<noteq> 0"
  using assms by (auto simp: lookup_def Let_def split: if_splits)

lemma lookup_err: "lookup s handle = Err e \<Longrightarrow> e = EBADF"
  by (auto simp: lookup_def Let_def split: if_splits)

text \<open>A handle names its slot and the generation of the object in it.\<close>

lemma handle_parts:
  fixes g x :: u32
  assumes "unat g < 2 ^ 24" and "unat x < 256"
  shows "(push_bit 8 g OR x) AND 0xFF = x" and "drop_bit 8 (push_bit 8 g OR x) = g"
proof -
  have x: "take_bit 8 x = x"
    using assms(2) by (simp add: word_unat_eq unsigned_take_bit_eq take_bit_nat_eq_self)
  have g: "take_bit 24 g = g"
    using assms(1) by (simp add: word_unat_eq unsigned_take_bit_eq take_bit_nat_eq_self)
  have m: "(0xFF :: u32) = mask 8" by (simp add: mask_eq_exp_minus_1)
  show "(push_bit 8 g OR x) AND 0xFF = x"
    unfolding m take_bit_eq_mask [symmetric] take_bit_or by (simp add: take_bit_push_bit x)
  have "drop_bit 8 x = 0" using arg_cong [OF x, of "drop_bit 8"] by (simp add: drop_bit_take_bit)
  moreover have "drop_bit 8 (push_bit 8 g) = g"
  proof (rule bit_eqI)
    fix n
    have "bit g n \<Longrightarrow> n < 24" using g by (metis bit_take_bit_iff)
    then show "bit (drop_bit 8 (push_bit 8 g)) n = bit g n"
      by (auto simp: bit_simps)
  qed
  ultimately show "drop_bit 8 (push_bit 8 g OR x) = g" by (simp add: drop_bit_or)
qed

lemma lookup_handle:
  assumes core: "shm_core s" and slot: "slot < MAX_OBJECTS" and ob: "in_use (objects s ! slot)" "\<not> dying (objects s ! slot)"
  shows "lookup s (handle_for s slot) = Ok slot"
proof -
  have g: "unat (gen (objects s ! slot)) < 2 ^ 24" "gen (objects s ! slot) \<noteq> 0"
    using shm_coreD(4) [OF core slot] ob(1) by (simp_all add: object_ok_def)
  have x: "unat (of_nat slot + 1 :: u32) = slot + 1"
    using slot by (subst unat_add_small) (simp_all add: unat_of_nat_small kconst)
  then have "unat (of_nat slot + 1 :: u32) < 256" using slot by (simp add: kconst)
  note parts = handle_parts [OF g(1) this]
  show ?thesis
    unfolding lookup_def handle_for_def parts using slot ob g(2) x by simp
qed

lemma length_alloc_frames: "alloc_frames hal is fs h = (b, fs', h') \<Longrightarrow> length fs' = length fs"
proof (induction "is" arbitrary: fs h)
  case Nil
  then show ?case by simp
next
  case (Cons i "is")
  show ?case
  proof (cases "alloc_frame hal h")
    case (Pair r h1)
    with Cons show ?thesis
      using free_frames_fst [of hal "[0..<i]" fs h1]
      by (cases r) (fastforce simp: fold_clear_nth)+
  qed
qed

lemma alloc_frames_True:
  "alloc_frames hal is fs h = (True, fs', h') \<Longrightarrow> j \<notin> set is \<Longrightarrow> fs' ! j = fs ! j"
  by (induction "is" arbitrary: fs h) (auto split: prod.splits option.splits)

lemma alloc_frames_False:
  "alloc_frames hal [k..<n] fs h = (False, fs', h') \<Longrightarrow> j < length fs
    \<Longrightarrow> fs' ! j = 0 \<or> k \<le> j \<and> fs' ! j = fs ! j"
proof (induction "[k..<n]" arbitrary: k fs h)
  case Nil
  then show ?case by simp
next
  case (Cons i "is")
  have i: "i = k" "k < n" "is = [Suc k..<n]"
    using Cons.hyps(2) [symmetric] by (auto simp: upt_eq_Cons_conv)
  show ?case
  proof (cases "alloc_frame hal h")
    case (Pair r h1)
    show ?thesis
    proof (cases r)
      case None
      with Pair Cons.prems i have "free_frames hal [0..<k] fs h1 = (fs', h')"
        by (simp add: upt_conv_Cons)
      then have "fs' = fold (\<lambda>i fs. fs[i := 0]) [0..<k] fs"
        using free_frames_fst [of hal "[0..<k]" fs h1] by simp
      with Cons.prems(2) show ?thesis by (auto simp: fold_clear_nth)
    next
      case (Some f)
      with Pair Cons.prems i have "alloc_frames hal [Suc k..<n] (fs[k := f]) (zero_frame hal f h1) = (False, fs', h')"
        by (simp add: upt_conv_Cons)
      from Cons.hyps(1) [OF i(3) this] Cons.prems(2) show ?thesis
        by (auto simp: nth_list_update split: if_splits)
    qed
  qed
qed

lemma unat_PAGE_SIZE [simp]: "unat PAGE_SIZE = 4096"
  by (simp add: PAGE_SIZE_def)

lemma create_pages:
  assumes "sz \<noteq> 0" and "\<not> sz > of_nat MAX_PAGES_PER_OBJECT * PAGE_SIZE"
  shows "unat ((sz + PAGE_SIZE - 1) div PAGE_SIZE) = (unat sz + 4095) div 4096"
    and "0 < unat ((sz + PAGE_SIZE - 1) div PAGE_SIZE)"
    and "unat ((sz + PAGE_SIZE - 1) div PAGE_SIZE) \<le> MAX_PAGES_PER_OBJECT"
proof -
  have b: "unat sz \<le> 16777216" using assms(2) by (simp add: kconst not_less word_le_nat_alt)
  have p: "0 < unat sz" using assms(1) by (simp add: unat_gt_0)
  have "unat (sz + 4095) = unat sz + 4095"
    using b by (subst unat_add_small) simp_all
  moreover have "sz + PAGE_SIZE - 1 = sz + 4095" by (simp add: kconst)
  ultimately show e: "unat ((sz + PAGE_SIZE - 1) div PAGE_SIZE) = (unat sz + 4095) div 4096"
    by (simp only: unat_div unat_PAGE_SIZE)
  show "0 < unat ((sz + PAGE_SIZE - 1) div PAGE_SIZE)"
    unfolding e using p by (simp add: div_greater_zero_iff)
  have "(unat sz + 4095) div 4096 \<le> (16777216 + 4095) div 4096"
    using b by (intro div_le_mono) simp
  then show "unat ((sz + PAGE_SIZE - 1) div PAGE_SIZE) \<le> MAX_PAGES_PER_OBJECT"
    unfolding e by (simp add: kconst)
qed

text \<open>A new object in a free slot.\<close>

definition fresh_object :: "object \<Rightarrow> i32 \<Rightarrow> u32 \<Rightarrow> object" where
  "fresh_object ob p n = \<lparr>in_use = True, dying = False, gen = (if gen ob = 0 then 1 else gen ob), owner = p,
     pages = n, map_count = 0, grants = replicate MAX_GRANTS EMPTY_GRANT\<rparr>"

lemma fresh_object_core:
  assumes core: "shm_core s" and slot: "slot < MAX_OBJECTS" "\<not> in_use (objects s ! slot)"
    and n: "0 < unat n" "unat n \<le> MAX_PAGES_PER_OBJECT" "\<not> total_pages s + n > MAX_TOTAL_PAGES"
    and fs: "length fs = MAX_PAGES_PER_OBJECT" "\<And>j. j < MAX_PAGES_PER_OBJECT \<Longrightarrow> unat n \<le> j \<Longrightarrow> fs ! j = 0"
  shows "shm_core (s\<lparr>frames := (frames s)[slot := fs],
           objects := (objects s)[slot := fresh_object (objects s ! slot) p n], total_pages := total_pages s + n\<rparr>)"
    (is "shm_core ?t")
proof (rule shm_coreI)
  note d = shm_coreD [OF core]
  have slot': "slot < length (objects s)" "slot < length (frames s)" using slot d(1,2) by simp_all
  have get: "objects ?t ! i = (if i = slot then fresh_object (objects s ! slot) p n else objects s ! i)" for i
    using slot' by (simp add: nth_list_update)
  have getf: "frames ?t ! i = (if i = slot then fs else frames s ! i)" for i
    using slot' by (simp add: nth_list_update)
  have none: "unat (m_obj r) \<noteq> slot" if "r \<in> set (maps s)" "m_in_use r" for r
    using rec_okD(2) [OF d(7) [OF that]] slot(2) by auto
  then have refs0: "refs (maps s) slot = 0" by (auto simp: refs_def count_if_eq_0)
  have old: "object_ok (objects s ! slot)" by (rule d(4) [OF slot(1)])
  show "object_ok (objects ?t ! i)" if "i < MAX_OBJECTS" for i
    unfolding get using d(4) [OF that] old n by (simp add: object_ok_def fresh_object_def)
  show "frames_ok (objects ?t ! i) (frames ?t ! i)" if "i < MAX_OBJECTS" for i
    unfolding get getf using d(5) [OF that] fs by (cases "i = slot") (simp_all add: frames_ok_def fresh_object_def)
  show "unat (map_count (objects ?t ! i)) = refs (maps ?t) i" if "i < MAX_OBJECTS" for i
    unfolding get using d(6) [OF that] refs0 by (cases "i = slot") (simp_all add: fresh_object_def)
  show "rec_ok (objects ?t) r" if "r \<in> set (maps ?t)" "m_in_use r" for r
  proof (rule rec_ok_objs)
    show "rec_ok (objects s) r" using d(7) that by simp
    show "in_use (objects ?t ! unat (m_obj r)) = in_use (objects s ! unat (m_obj r))"
      unfolding get using none that by simp
    show "pages (objects ?t ! unat (m_obj r)) = pages (objects s ! unat (m_obj r))"
      unfolding get using none that by simp
  qed simp
  have small: "unat (total_pages s) + unat n < 2 ^ LENGTH(32)"
    using d(11) n(2) by (simp add: kconst word_le_nat_alt)
  have tot: "unat (total_pages s + n) = unat (total_pages s) + unat n"
    by (rule unat_add_small) (rule small)
  have "pages (objects s ! slot) = 0" using old slot(2) by (simp add: object_ok_def)
  then show "unat (total_pages ?t) = sum_list (map (unat \<circ> pages) (objects ?t))"
    using sum_pages_update [OF slot'(1), of "fresh_object (objects s ! slot) p n"] tot d(10)
    by (simp add: fresh_object_def)
  show "total_pages ?t \<le> MAX_TOTAL_PAGES" using n(3) by simp
qed (use shm_coreD [OF core] in simp_all)

lemma shm_okI:
  assumes "shm_core s" and "\<And>i. i < MAX_OBJECTS \<Longrightarrow> dying (objects s ! i) \<Longrightarrow> map_count (objects s ! i) \<noteq> 0"
  shows "shm_ok s"
  using assms shm_coreD(1) [OF assms(1)] by (auto simp: shm_ok_def in_set_conv_nth)

lemma shm_okD: "shm_ok s \<Longrightarrow> i < MAX_OBJECTS \<Longrightarrow> dying (objects s ! i) \<Longrightarrow> map_count (objects s ! i) \<noteq> 0"
  using shm_coreD(1) by (auto simp: shm_ok_def)

lemma alloc_frames_restore:
  assumes "shm_core s" and "slot < MAX_OBJECTS" and "\<not> in_use (objects s ! slot)"
    and "alloc_frames hal [0..<n] (frames s ! slot) h = (False, fs, h')"
  shows "s\<lparr>frames := (frames s)[slot := fs]\<rparr> = s"
proof -
  note d = shm_coreD(4,5) [OF assms(1,2)]
  have len: "length (frames s ! slot) = MAX_PAGES_PER_OBJECT" using d by (simp add: frames_ok_def)
  have zero: "frames s ! slot ! j = 0" if "j < MAX_PAGES_PER_OBJECT" for j
    using d assms(3) that by (auto simp: frames_ok_def object_ok_def)
  have "fs = frames s ! slot"
  proof (rule nth_equalityI)
    show "length fs = length (frames s ! slot)" by (rule length_alloc_frames [OF assms(4)])
    then show "fs ! j = frames s ! slot ! j" if "j < length fs" for j
      using alloc_frames_False [OF assms(4), of j] zero [of j] len that by auto
  qed
  then show ?thesis by simp
qed

lemma create_cases:
  fixes sz :: u32
  defines "n \<equiv> (sz + PAGE_SIZE - 1) div PAGE_SIZE"
  assumes core: "shm_core s" and eq: "create hal p sz flags s h = (r, s', h')"
  obtains (refused) e where "r = Err e" "s' = s" "h' = h"
  | (nomem) slot fs where "r = Err ENOMEM" "s' = s" "slot < MAX_OBJECTS" "\<not> in_use (objects s ! slot)"
      "unat n \<le> MAX_PAGES_PER_OBJECT" "alloc_frames hal [0..<unat n] (frames s ! slot) h = (False, fs, h')"
  | (new) slot fs where "slot < MAX_OBJECTS" "\<not> in_use (objects s ! slot)"
      "0 < unat n" "unat n \<le> MAX_PAGES_PER_OBJECT" "\<not> total_pages s + n > MAX_TOTAL_PAGES"
      "alloc_frames hal [0..<unat n] (frames s ! slot) h = (True, fs, h')"
      "s' = s\<lparr>frames := (frames s)[slot := fs],
         objects := (objects s)[slot := fresh_object (objects s ! slot) p n], total_pages := total_pages s + n\<rparr>"
      "r = Ok (handle_for s' slot, n * PAGE_SIZE)"
proof -
  show thesis
  proof (cases "flags \<noteq> 0 \<or> sz = 0 \<or> sz > of_nat MAX_PAGES_PER_OBJECT * PAGE_SIZE")
    case True
    with eq show thesis by (intro refused) (auto simp: create_def)
  next
    case False
    then have n: "0 < unat n" "unat n \<le> MAX_PAGES_PER_OBJECT"
      using create_pages [of sz] by (simp_all add: n_def)
    show thesis
    proof (cases "position (\<lambda>ob. \<not> in_use ob) (objects s)")
      case None
      with eq False show thesis by (intro refused) (auto simp: create_def Let_def)
    next
      case (Some slot)
      then have slot: "slot < MAX_OBJECTS" "\<not> in_use (objects s ! slot)"
        by (simp_all add: position_Some core_len [OF core])
      let ?owned = "of_nat (count_if (\<lambda>ob. in_use ob \<and> owner ob = p \<and> \<not> dying ob) (objects s)) :: u32"
      obtain b fs h1 where al: "alloc_frames hal [0..<unat n] (frames s ! slot) h = (b, fs, h1)"
        using prod_cases3 by blast
      consider (quota) "?owned \<ge> MAX_OBJECTS_PER_OWNER"
        | (total) "\<not> ?owned \<ge> MAX_OBJECTS_PER_OWNER" "total_pages s + n > MAX_TOTAL_PAGES"
        | (short) "\<not> ?owned \<ge> MAX_OBJECTS_PER_OWNER" "\<not> total_pages s + n > MAX_TOTAL_PAGES" "\<not> b"
        | (made) "\<not> ?owned \<ge> MAX_OBJECTS_PER_OWNER" "\<not> total_pages s + n > MAX_TOTAL_PAGES" "b" by blast
      then show thesis
      proof cases
        case quota
        with False Some have "create hal p sz flags s h = (Err ENOSPC, s, h)" by (simp add: create_def Let_def)
        with eq show thesis by (intro refused) auto
      next
        case total
        with False Some have "create hal p sz flags s h = (Err ENOMEM, s, h)"
          by (simp add: create_def Let_def n_def)
        with eq show thesis by (intro refused) auto
      next
        case short
        with False Some al have "create hal p sz flags s h = (Err ENOMEM, s\<lparr>frames := (frames s)[slot := fs]\<rparr>, h1)"
          by (simp add: create_def Let_def n_def)
        moreover have "s\<lparr>frames := (frames s)[slot := fs]\<rparr> = s"
          using alloc_frames_restore [OF core slot] al short by simp
        ultimately show thesis using eq n slot al short by (intro nomem) simp_all
      next
        case made
        let ?s1 = "s\<lparr>frames := (frames s)[slot := fs],
          objects := (objects s)[slot := fresh_object (objects s ! slot) p n], total_pages := total_pages s + n\<rparr>"
        from made False Some al
        have "create hal p sz flags s h = (Ok (handle_for ?s1 slot, n * PAGE_SIZE), ?s1, h1)"
          by (simp add: create_def Let_def n_def fresh_object_def)
        with eq have "r = Ok (handle_for ?s1 slot, n * PAGE_SIZE)" "s' = ?s1" "h' = h1" by auto
        with made al n slot show thesis by (intro new [of slot fs]) simp_all
      qed
    qed
  qed
qed

lemma create_ok:
  assumes "shm_ok s" and "create hal p sz flags s h = (r, s', h')"
  shows "shm_ok s'" and "is_err r \<Longrightarrow> s' = s"
proof -
  have core: "shm_core s" using assms(1) by (rule shm_ok_core)
  show "shm_ok s'"
    using core assms(2)
  proof (cases rule: create_cases)
    case (new slot fs)
    let ?n = "(sz + PAGE_SIZE - 1) div PAGE_SIZE"
    have old: "frames_ok (objects s ! slot) (frames s ! slot)" "object_ok (objects s ! slot)"
      using shm_coreD(5,4) [OF core new(1)] .
    have fs: "length fs = MAX_PAGES_PER_OBJECT" "\<And>j. j < MAX_PAGES_PER_OBJECT \<Longrightarrow> unat ?n \<le> j \<Longrightarrow> fs ! j = 0"
      using old new(2) length_alloc_frames [OF new(6)] alloc_frames_True [OF new(6)]
      by (auto simp: frames_ok_def object_ok_def)
    show ?thesis
    proof (rule shm_okI)
      show "shm_core s'" unfolding new(7)
        by (rule fresh_object_core [OF core new(1-5) fs])
      show "map_count (objects s' ! i) \<noteq> 0" if "i < MAX_OBJECTS" "dying (objects s' ! i)" for i
        using shm_okD [OF assms(1) that(1)] that new(1) core_len [OF core] unfolding new(7)
        by (cases "i = slot") (simp_all add: fresh_object_def)
    qed
  qed (use assms(1) in simp_all)
  show "is_err r \<Longrightarrow> s' = s"
    using core assms(2) by (cases rule: create_cases) simp_all
qed

lemma set_grants_ok:
  assumes "shm_ok s" and "length gs = MAX_GRANTS" and "slot < MAX_OBJECTS"
  shows "shm_ok (set_grants slot gs s)"
proof (rule shm_okI)
  have core: "shm_core s" using assms(1) by (rule shm_ok_core)
  have "length (grants (objects s ! slot)) = MAX_GRANTS"
    using shm_coreD(4) [OF core assms(3)] by (simp add: object_ok_def)
  then show "shm_core (set_grants slot gs s)"
    unfolding set_grants_def using core assms(2)
    by (intro core_obj_update) (simp_all add: same_books_def)
  show "map_count (objects (set_grants slot gs s) ! i) \<noteq> 0"
    if "i < MAX_OBJECTS" "dying (objects (set_grants slot gs s) ! i)" for i
    using shm_okD [OF assms(1) that(1)] that assms(3) core_len [OF core]
    by (cases "i = slot") (simp_all add: set_grants_def)
qed

text \<open>A grant changes the access list of one live object of the caller, at the entry of the target only.\<close>

definition acl_edit :: "i32 \<Rightarrow> u32 \<Rightarrow> grant_rec list \<Rightarrow> grant_rec list \<Rightarrow> bool" where
  "acl_edit t rights gs gs' \<longleftrightarrow> length gs' = length gs
     \<and> (\<forall>g \<in> set gs'. g \<in> set gs \<or> g_rights g = 0 \<or> g_pid g = t \<and> g_rights g = rights)
     \<and> (rights = 0 \<longrightarrow> (\<forall>g \<in> set gs'. g_rights g \<noteq> 0 \<longrightarrow> g_pid g \<noteq> t))"

lemma acl_edit_revoke:
  "acl_edit t 0 gs (map (\<lambda>g. if g_rights g \<noteq> 0 \<and> g_pid g = t then EMPTY_GRANT else g) gs)"
  by (auto simp: acl_edit_def EMPTY_GRANT_def)

lemma acl_edit_update:
  "rights \<noteq> 0 \<Longrightarrow> g_pid g = t \<Longrightarrow> g_rights g = rights \<Longrightarrow> acl_edit t rights gs (gs[k := g])"
  using set_update_subset_insert [of gs k g] by (auto simp: acl_edit_def)

lemma grant_cases:
  assumes eq: "grant hal c handle t rights s h = (r, s', h')"
  obtains (refused) e where "r = Err e" "s' = s" "h' = h"
  | (changed) slot gs where "r = Ok ()" "h' = h" "lookup s handle = Ok slot" "owner (objects s ! slot) = c" "t \<noteq> c"
      "acl_edit t rights (grants (objects s ! slot)) gs" "s' = set_grants slot gs s"
proof (cases "lookup s handle")
  case (Err e)
  with eq show thesis by (intro refused) (auto simp: grant_def)
next
  case (Ok slot)
  let ?gs = "grants (objects s ! slot)"
  consider (bad) e where "grant hal c handle t rights s h = (Err e, s, h)"
    | (revoke) "owner (objects s ! slot) = c" "t \<noteq> c" "rights = 0"
    | (set) "owner (objects s ! slot) = c" "t \<noteq> c" "rights \<noteq> 0"
        "grant hal c handle t rights s h
          = (case position (\<lambda>g. g_rights g \<noteq> 0 \<and> g_pid g = t) ?gs of
              Some k \<Rightarrow> (Ok (), set_grants slot (?gs[k := (?gs ! k)\<lparr>g_rights := rights\<rparr>]) s, h)
            | None \<Rightarrow> (case position (\<lambda>g. g_rights g = 0) ?gs of
                  Some k \<Rightarrow> (Ok (), set_grants slot (?gs[k := \<lparr>g_pid = t, g_rights = rights\<rparr>]) s, h)
                | None \<Rightarrow> (Err ENOSPC, s, h)))"
  proof (cases "owner (objects s ! slot) \<noteq> c \<or> t = c
      \<or> \<not> (rights = 0 \<or> rights = RIGHT_READ \<or> rights = (RIGHT_READ OR RIGHT_WRITE))")
    case True
    then have "grant hal c handle t rights s h \<in> {(Err EPERM, s, h), (Err EINVAL, s, h)}"
      using Ok by (auto simp: grant_def Let_def)
    then show thesis by (auto intro: that(1))
  next
    case False
    then show thesis
      using that(2,3) Ok by (cases "rights = 0"; cases "pid_is_live hal t h") (auto simp: grant_def Let_def intro: that(1))
  qed
  then show thesis
  proof cases
    case bad
    with eq show thesis by (intro refused) auto
  next
    case revoke
    with Ok eq show thesis
      by (intro changed) (auto simp: grant_def Let_def intro: acl_edit_revoke)
  next
    case set
    show thesis
    proof (cases "position (\<lambda>g. g_rights g \<noteq> 0 \<and> g_pid g = t) ?gs")
      case (Some k)
      then have "g_pid (?gs ! k) = t" by (simp add: position_Some)
      then have "acl_edit t rights ?gs (?gs[k := (?gs ! k)\<lparr>g_rights := rights\<rparr>])"
        using set(3) by (intro acl_edit_update) simp_all
      with set Some Ok eq show thesis by (intro changed) auto
    next
      case None
      show thesis
      proof (cases "position (\<lambda>g. g_rights g = 0) ?gs")
        case None2: None
        with None set eq show thesis by (intro refused) auto
      next
        case (Some k)
        have "acl_edit t rights ?gs (?gs[k := \<lparr>g_pid = t, g_rights = rights\<rparr>])"
          using set(3) by (intro acl_edit_update) simp_all
        with set None Some Ok eq show thesis by (intro changed) auto
      qed
    qed
  qed
qed

lemma grant_ok:
  assumes "shm_ok s" and "grant hal c handle t rights s h = (r, s', h')"
  shows "shm_ok s'" and "is_err r \<Longrightarrow> s' = s" and "h' = h"
proof -
  show "shm_ok s'"
    using assms(2)
  proof (cases rule: grant_cases)
    case (changed slot gs)
    have "length (grants (objects s ! slot)) = MAX_GRANTS"
      using shm_coreD(4) [OF shm_ok_core [OF assms(1)] lookup_Ok(1) [OF changed(3)]] by (simp add: object_ok_def)
    with changed show ?thesis
      using set_grants_ok [OF assms(1) _ lookup_Ok(1) [OF changed(3)]] by (simp add: acl_edit_def)
  qed (use assms(1) in simp)
  show "is_err r \<Longrightarrow> s' = s" and "h' = h"
    using assms(2) by (cases rule: grant_cases; simp)+
qed

lemma dying_core:
  assumes "shm_core s" and "slot < MAX_OBJECTS" and "in_use (objects s ! slot)"
  shows "shm_core (s\<lparr>objects := (objects s)[slot := (objects s ! slot)\<lparr>dying := True\<rparr>]\<rparr>)"
  using assms by (intro core_obj_update) (simp_all add: same_books_def)

text \<open>Freeing the one dying object that nothing maps restores the full invariant.\<close>

lemma freed_ok:
  assumes "shm_core s" and "slot < MAX_OBJECTS" and "map_count (objects s ! slot) = 0"
    and "\<And>i. i < MAX_OBJECTS \<Longrightarrow> i \<noteq> slot \<Longrightarrow> dying (objects s ! i) \<Longrightarrow> map_count (objects s ! i) \<noteq> 0"
  shows "shm_ok (freed s slot)"
proof (rule shm_okI)
  show "shm_core (freed s slot)" using assms(1-3) by (rule freed_core)
  show "map_count (objects (freed s slot) ! i) \<noteq> 0" if "i < MAX_OBJECTS" "dying (objects (freed s slot) ! i)" for i
    using that assms(2) assms(4) [OF that(1)] core_len [OF assms(1)]
    by (cases "i = slot") (simp_all add: freed_def EMPTY_OBJ_def)
qed

lemma destroy_cases:
  assumes core: "shm_core s" and eq: "destroy hal p handle s h = (r, s', h')"
  obtains (refused) e where "r = Err e" "s' = s" "h' = h"
  | (deferred) slot where "r = Ok ()" "h' = h" "lookup s handle = Ok slot" "owner (objects s ! slot) = p"
      "map_count (objects s ! slot) \<noteq> 0" "s' = s\<lparr>objects := (objects s)[slot := (objects s ! slot)\<lparr>dying := True\<rparr>]\<rparr>"
  | (freed) slot where "r = Ok ()" "lookup s handle = Ok slot" "owner (objects s ! slot) = p"
      "map_count (objects s ! slot) = 0" "s' = freed s slot"
      "h' = fold (free_frame hal) (take (unat (pages (objects s ! slot))) (frames s ! slot)) h"
proof (cases "lookup s handle")
  case (Err e)
  with eq show thesis by (intro refused) (auto simp: destroy_def)
next
  case (Ok slot)
  note l = lookup_Ok [OF Ok]
  let ?s1 = "s\<lparr>objects := (objects s)[slot := (objects s ! slot)\<lparr>dying := True\<rparr>]\<rparr>"
  have "shm_core ?s1" by (rule dying_core [OF core l(1,2)])
  then have fo: "free_object hal slot ?s1 h
      = (freed s slot, fold (free_frame hal) (take (unat (pages (objects s ! slot))) (frames s ! slot)) h)"
    using l(1) core_len [OF core] by (simp add: free_object_eq freed_def)
  consider "owner (objects s ! slot) \<noteq> p" | "owner (objects s ! slot) = p" "map_count (objects s ! slot) = 0"
    | "owner (objects s ! slot) = p" "map_count (objects s ! slot) \<noteq> 0" by blast
  then show thesis
  proof cases
    case 1
    with eq Ok show thesis by (intro refused) (auto simp: destroy_def)
  next
    case 2
    with eq Ok fo show thesis by (intro freed [of slot]) (auto simp: destroy_def)
  next
    case 3
    with eq Ok show thesis by (intro deferred [of slot]) (auto simp: destroy_def)
  qed
qed

lemma destroy_ok:
  assumes ok: "shm_ok s" and "destroy hal p handle s h = (r, s', h')"
  shows "shm_ok s'" and "is_err r \<Longrightarrow> s' = s \<and> h' = h"
proof -
  have core: "shm_core s" using ok by (rule shm_ok_core)
  show "shm_ok s'"
    using core assms(2)
  proof (cases rule: destroy_cases)
    case (deferred slot)
    note l = lookup_Ok [OF deferred(3)]
    show ?thesis
    proof (rule shm_okI)
      show "shm_core s'" unfolding deferred(6) by (rule dying_core [OF core l(1,2)])
      show "map_count (objects s' ! i) \<noteq> 0" if "i < MAX_OBJECTS" "dying (objects s' ! i)" for i
        using that shm_okD [OF ok that(1)] deferred l(1) core_len [OF core] by (cases "i = slot") simp_all
    qed
  next
    case (freed slot)
    then show ?thesis
      using freed_ok [OF core lookup_Ok(1) [OF freed(2)] freed(4)] shm_okD [OF ok] by simp
  qed (use ok in simp)
  show "is_err r \<Longrightarrow> s' = s \<and> h' = h"
    using core assms(2) by (cases rule: destroy_cases) simp_all
qed

lemma unmap_cases:
  assumes core: "shm_core s" and eq: "unmap hal p addr s h = (r, s', h')"
  obtains (refused) "r = Err EINVAL" "s' = s" "h' = h"
      "\<And>q. q \<in> set (maps s) \<Longrightarrow> m_in_use q \<Longrightarrow> m_pid q = p \<Longrightarrow> m_addr q \<noteq> addr"
  | (unmapped) ri where "r = Ok ()" "ri < MAX_MAP_RECORDS" "m_in_use (maps s ! ri)" "m_pid (maps s ! ri) = p"
      "m_addr (maps s ! ri) = addr" "s' = drop_rec ri s"
      "h' = unmap_pages hal p addr [0..<unat (m_pages (maps s ! ri))] h"
      "\<not> (dying (objects s' ! unat (m_obj (maps s ! ri))) \<and> map_count (objects s' ! unat (m_obj (maps s ! ri))) = 0)"
  | (freed) ri slot where "r = Ok ()" "ri < MAX_MAP_RECORDS" "m_in_use (maps s ! ri)" "m_pid (maps s ! ri) = p"
      "m_addr (maps s ! ri) = addr" "slot = unat (m_obj (maps s ! ri))" "slot < MAX_OBJECTS"
      "dying (objects (drop_rec ri s) ! slot)" "map_count (objects (drop_rec ri s) ! slot) = 0"
      "s' = freed (drop_rec ri s) slot"
      "h' = fold (free_frame hal) (take (unat (pages (objects (drop_rec ri s) ! slot))) (frames s ! slot))
              (unmap_pages hal p addr [0..<unat (m_pages (maps s ! ri))] h)"
proof (cases "position (\<lambda>r. m_in_use r \<and> m_pid r = p \<and> m_addr r = addr) (maps s)")
  case None
  with eq show thesis by (intro refused) (auto simp: unmap_def position_None)
next
  case (Some ri)
  then have ri: "ri < MAX_MAP_RECORDS" "m_in_use (maps s ! ri)" "m_pid (maps s ! ri) = p" "m_addr (maps s ! ri) = addr"
    by (simp_all add: position_Some core_len [OF core])
  let ?slot = "unat (m_obj (maps s ! ri))"
  have core1: "shm_core (drop_rec ri s)" using core ri(1,2) by (rule drop_rec_core)
  have slot: "?slot < MAX_OBJECTS"
    using rec_okD(1) [OF shm_coreD(7) [OF core _ ri(2)]] ri(1) core_len [OF core] by simp
  have fr: "frames (drop_rec ri s) = frames s" by (simp add: drop_rec_def Let_def)
  show thesis
  proof (cases "dying (objects (drop_rec ri s) ! ?slot) \<and> map_count (objects (drop_rec ri s) ! ?slot) = 0")
    case True
    with eq Some ri slot show thesis
      by (intro freed [of ri ?slot]) (auto simp: unmap_def Let_def free_object_eq [OF core1 slot] fr)
  next
    case False
    with eq Some ri show thesis
      by (intro unmapped [of ri]) (auto simp: unmap_def Let_def)
  qed
qed

text \<open>Dropping a record leaves the objects as they were but for the one count.\<close>

lemma drop_rec_objects:
  assumes "shm_core s" and "ri < MAX_MAP_RECORDS" and "m_in_use (maps s ! ri)"
  defines "slot \<equiv> unat (m_obj (maps s ! ri))"
  shows "objects (drop_rec ri s) ! i
    = (if i = slot then (objects s ! slot)\<lparr>map_count := map_count (objects s ! slot) - 1\<rparr> else objects s ! i)"
proof -
  have "slot < length (objects s)"
    unfolding slot_def using rec_okD(1) [OF shm_coreD(7) [OF assms(1) _ assms(3)]] assms(2) core_len [OF assms(1)] by simp
  then show ?thesis by (simp add: drop_rec_def Let_def nth_list_update slot_def)
qed

lemma unmap_ok:
  assumes ok: "shm_ok s" and "unmap hal p addr s h = (r, s', h')"
  shows "shm_ok s'" and "is_err r \<Longrightarrow> s' = s \<and> h' = h"
proof -
  have core: "shm_core s" using ok by (rule shm_ok_core)
  show "shm_ok s'"
    using core assms(2)
  proof (cases rule: unmap_cases)
    case (unmapped ri)
    show ?thesis
    proof (rule shm_okI)
      show "shm_core s'" unfolding unmapped(6) by (rule drop_rec_core [OF core unmapped(2,3)])
      show "map_count (objects s' ! i) \<noteq> 0" if "i < MAX_OBJECTS" "dying (objects s' ! i)" for i
        using that shm_okD [OF ok that(1)] unmapped(8) unfolding unmapped(6)
        by (cases "i = unat (m_obj (maps s ! ri))") (simp_all add: drop_rec_objects [OF core unmapped(2,3)])
    qed
  next
    case (freed ri slot)
    show ?thesis unfolding freed(10)
    proof (rule freed_ok)
      show "shm_core (drop_rec ri s)" by (rule drop_rec_core [OF core freed(2,3)])
      show "map_count (objects (drop_rec ri s) ! i) \<noteq> 0"
        if "i < MAX_OBJECTS" "i \<noteq> slot" "dying (objects (drop_rec ri s) ! i)" for i
        using that shm_okD [OF ok that(1)] freed(6) by (simp add: drop_rec_objects [OF core freed(2,3)])
    qed (use freed in simp_all)
  qed (use ok in simp)
  show "is_err r \<Longrightarrow> s' = s \<and> h' = h"
    using core assms(2) by (cases rule: unmap_cases) simp_all
qed

text \<open>Placement: in the region, on a page boundary, clear of every other mapping of the process, and as low as possible.\<close>

lemma span_word:
  assumes "rec_ok obs r"
  shows "unat (m_addr r + (m_pages r + 1) * PAGE_SIZE) = span_end r"
proof -
  have b: "unat (m_addr r) + (unat (m_pages r) + 1) * 4096 \<le> 0x7C000000"
    using rec_okD(6) [OF assms] by (simp add: span_end_def kconst)
  then have "unat (m_pages r + 1) = unat (m_pages r) + 1" by (subst unat_add_small) simp_all
  moreover from this b have "unat ((m_pages r + 1) * PAGE_SIZE) = (unat (m_pages r) + 1) * 4096"
    by (subst unat_mult_small) simp_all
  ultimately show ?thesis using b by (subst unat_add_small) (simp_all add: span_end_def)
qed

lemma set_gap_spans:
  assumes "shm_core s"
  shows "set (gap_spans s p) = (\<lambda>r. (m_addr r, m_addr r + (m_pages r + 1) * PAGE_SIZE)) ` {r \<in> set (maps s). m_in_use r \<and> m_pid r = p}"
proof -
  have "length (filter (\<lambda>r. m_in_use r \<and> m_pid r = p) (maps s)) \<le> unat MAX_MAPS_PER_PROC"
    using shm_coreD(9) [OF assms, of p] by (simp add: held_def count_if_def)
  then show ?thesis by (auto simp: gap_spans_def)
qed

definition clear_of :: "shm \<Rightarrow> i32 \<Rightarrow> nat \<Rightarrow> nat \<Rightarrow> bool" where
  "clear_of s p n x \<longleftrightarrow> (\<forall>q \<in> set (maps s). m_in_use q \<longrightarrow> m_pid q = p
     \<longrightarrow> x + (n + 1) * 4096 \<le> unat (m_addr q) \<or> span_end q \<le> x)"

lemma fits_clear:
  assumes "shm_core s"
  shows "fits ((n + 1) * 4096) (sort_spans (gap_spans s p)) x \<longleftrightarrow> clear_of s p n x"
  using span_word shm_coreD(7) [OF assms]
  unfolding fits_def set_sort_spans set_gap_spans [OF assms] clear_of_def by force

lemma find_gap_spec:
  assumes core: "shm_core s" and n: "unat n \<le> MAX_PAGES_PER_OBJECT"
  shows "case find_gap s p (n + 1) SHM_VIRT_BASE SHM_VIRT_END of
      Some g \<Rightarrow> 4096 dvd unat g \<and> unat SHM_VIRT_BASE \<le> unat g \<and> unat g + (unat n + 1) * 4096 \<le> unat SHM_VIRT_END
        \<and> clear_of s p (unat n) (unat g)
        \<and> (\<forall>x. unat SHM_VIRT_BASE \<le> x \<longrightarrow> x < unat g \<longrightarrow> \<not> clear_of s p (unat n) x)
    | None \<Rightarrow> \<forall>x. unat SHM_VIRT_BASE \<le> x \<longrightarrow> x + (unat n + 1) * 4096 \<le> unat SHM_VIRT_END \<longrightarrow> \<not> clear_of s p (unat n) x"
proof -
  let ?need = "ucast (n + 1) * ucast PAGE_SIZE :: u64" and ?sp = "sort_spans (gap_spans s p)"
  have "unat (n + 1) = unat n + 1" using n by (subst unat_add_small) (simp_all add: kconst)
  then have need: "unat ?need = (unat n + 1) * 4096"
    using n by (subst unat_mult_small) (simp_all add: MAX_PAGES_PER_OBJECT_def)
  have recs: "rec_ok (objects s) r" if "r \<in> set (maps s)" "m_in_use r" for r
    by (rule shm_coreD(7) [OF core that])
  have ends: "unat a \<le> unat SHM_VIRT_END" "4096 dvd unat e" if ae: "(a, e) \<in> set ?sp" for a e
  proof -
    from ae obtain r where r: "r \<in> set (maps s)" "m_in_use r" "a = m_addr r" "e = m_addr r + (m_pages r + 1) * PAGE_SIZE"
      by (auto simp: set_sort_spans set_gap_spans [OF core])
    note k = recs [OF r(1,2)]
    show "unat a \<le> unat SHM_VIRT_END" using rec_okD(6) [OF k] r(3) by (simp add: span_end_def)
    show "4096 dvd unat e"
      unfolding r(4) span_word [OF k] using rec_okD(4) [OF k] by (simp add: span_end_def)
  qed
  have b1: "unat (ucast SHM_VIRT_BASE :: u64) < 2 ^ 32" by (simp add: SHM_VIRT_BASE_def)
  have b2: "unat ?need < 2 ^ 32" unfolding need using n by (simp add: MAX_PAGES_PER_OBJECT_def)
  have spec: "case gap_scan ?need SHM_VIRT_END (ucast SHM_VIRT_BASE) ?sp of
      Some g \<Rightarrow> unat SHM_VIRT_BASE \<le> unat g \<and> unat g + unat ?need \<le> unat SHM_VIRT_END \<and> fits (unat ?need) ?sp (unat g)
        \<and> (unat g = unat SHM_VIRT_BASE \<or> g \<in> snd ` set ?sp)
        \<and> (\<forall>x. unat SHM_VIRT_BASE \<le> x \<longrightarrow> x < unat g \<longrightarrow> \<not> fits (unat ?need) ?sp x)
    | None \<Rightarrow> \<forall>x. unat SHM_VIRT_BASE \<le> x \<longrightarrow> x + unat ?need \<le> unat SHM_VIRT_END \<longrightarrow> \<not> fits (unat ?need) ?sp x"
    using gap_scan_spec [OF sorted_sort_spans, of "ucast SHM_VIRT_BASE" ?need "gap_spans s p" SHM_VIRT_END, OF b1 b2 ends(1)]
    unfolding unat_ucast_64 .
  have al: "4096 dvd unat g" if "unat g = unat SHM_VIRT_BASE \<or> g \<in> snd ` set ?sp" for g
    using that ends(2) by (auto simp: kconst)
  show ?thesis
    using spec al unfolding find_gap_def need fits_clear [OF core] by (auto split: option.splits)
qed

section \<open>Mapping\<close>

text \<open>The records in use, as a set: no two records are equal, since a mapping is apart from every other.\<close>

definition live_recs :: "map_rec list \<Rightarrow> map_rec set" where
  "live_recs ms = {r \<in> set ms. m_in_use r}"

lemma set_split_at: "i < length xs \<Longrightarrow> y \<in> set xs \<longleftrightarrow> y = xs ! i \<or> (\<exists>j < length xs. j \<noteq> i \<and> xs ! j = y)"
  by (auto simp: in_set_conv_nth)

lemma live_recs_add:
  assumes "i < length ms" and "\<not> m_in_use (ms ! i)" and "m_in_use r"
  shows "live_recs (ms[i := r]) = insert r (live_recs ms)"
  using assms by (auto simp: live_recs_def set_update_iff set_split_at [of i ms])

lemma recs_distinct:
  assumes "recs_apart ms" and "i < length ms" and "j < length ms" and "m_in_use (ms ! i)" and "ms ! i = ms ! j"
  shows "i = j"
proof (rule ccontr)
  assume "i \<noteq> j"
  with assms(2-5) have "m_obj (ms ! i) \<noteq> m_obj (ms ! j)"
    using assms(1) [unfolded recs_apart_def, rule_format, of i j] by simp
  with assms(5) show False by simp
qed

lemma live_recs_drop:
  assumes "recs_apart ms" and "i < length ms" and "m_in_use (ms ! i)"
  shows "live_recs (ms[i := EMPTY_MAP]) = live_recs ms - {ms ! i}"
proof -
  have e: "\<not> m_in_use EMPTY_MAP" by (simp add: EMPTY_MAP_def)
  have "ms ! j \<noteq> ms ! i" if "j < length ms" "j \<noteq> i" for j
    using recs_distinct [OF assms(1,2) that(1) assms(3)] that(2) by auto
  with assms(2) e show ?thesis
    by (auto simp: live_recs_def set_update_iff set_split_at [of i ms])
qed

lemma map_cases:
  assumes core: "shm_core s" and eq: "shm_map hal p handle want s h = (r, s', h')"
  obtains (refused) e where "r = Err e" "s' = s" "h' = h"
  | (nomem) slot addr where "r = Err ENOMEM" "s' = s" "lookup s handle = Ok slot"
      "find_gap s p (pages (objects s ! slot) + 1) SHM_VIRT_BASE SHM_VIRT_END = Some addr"
      "map_pages hal p addr (want AND RIGHT_WRITE \<noteq> 0) (frames s ! slot) [0..<unat (pages (objects s ! slot))] h = (False, h')"
  | (mapped) slot addr ri where "r = Ok (addr, pages (objects s ! slot) * PAGE_SIZE)" "lookup s handle = Ok slot"
      "want = 1 \<or> want = 3" "want AND NOT (rights_of s slot p) = 0"
      "\<And>q. q \<in> set (maps s) \<Longrightarrow> m_in_use q \<Longrightarrow> m_pid q = p \<Longrightarrow> unat (m_obj q) \<noteq> slot"
      "held (maps s) p < unat MAX_MAPS_PER_PROC" "ri < MAX_MAP_RECORDS" "\<not> m_in_use (maps s ! ri)"
      "find_gap s p (pages (objects s ! slot) + 1) SHM_VIRT_BASE SHM_VIRT_END = Some addr"
      "map_pages hal p addr (want AND RIGHT_WRITE \<noteq> 0) (frames s ! slot) [0..<unat (pages (objects s ! slot))] h = (True, h')"
      "s' = add_rec ri \<lparr>m_in_use = True, m_pid = p, m_addr = addr, m_pages = pages (objects s ! slot),
              m_obj = of_nat slot, m_rights = want\<rparr> s"
proof (cases "lookup s handle")
  case (Err e)
  with eq show thesis by (intro refused) (auto simp: shm_map_def map_in_def)
next
  case (Ok slot)
  let ?held = "of_nat (count_if (\<lambda>r. m_in_use r \<and> m_pid r = p) (maps s)) :: u32"
  let ?n = "pages (objects s ! slot)"
  let ?bad = "(want \<noteq> RIGHT_READ \<and> want \<noteq> (RIGHT_READ OR RIGHT_WRITE)) \<or> want AND NOT (rights_of s slot p) \<noteq> 0
     \<or> list_ex (\<lambda>r. m_in_use r \<and> m_pid r = p \<and> unat (m_obj r) = slot) (maps s) \<or> ?held \<ge> MAX_MAPS_PER_PROC
     \<or> position (\<lambda>r. \<not> m_in_use r) (maps s) = None \<or> find_gap s p (?n + 1) SHM_VIRT_BASE SHM_VIRT_END = None"
  show thesis
  proof (cases ?bad)
    case True
    then have "\<exists>e. shm_map hal p handle want s h = (Err e, s, h)"
      using Ok by (auto simp: shm_map_def map_in_def Let_def split: option.split)
    then obtain e where "shm_map hal p handle want s h = (Err e, s, h)" by blast
    with eq show thesis by (intro refused) auto
  next
    case False
    then obtain ri addr where ri: "position (\<lambda>r. \<not> m_in_use r) (maps s) = Some ri"
      and addr: "find_gap s p (?n + 1) SHM_VIRT_BASE SHM_VIRT_END = Some addr" by auto
    have "count_if (\<lambda>r. m_in_use r \<and> m_pid r = p) (maps s) \<le> 256"
      using count_if_le_length [of _ "maps s"] core_len(3) [OF core] by (simp add: kconst)
    then have "unat ?held = held (maps s) p"
      unfolding held_def by (intro unat_of_nat_small) simp
    then have held: "held (maps s) p < unat MAX_MAPS_PER_PROC"
      using False by (simp add: word_le_nat_alt not_le)
    obtain b h1 where mp: "map_pages hal p addr (want AND RIGHT_WRITE \<noteq> 0) (frames s ! slot) [0..<unat ?n] h = (b, h1)"
      by force
    have free: "ri < MAX_MAP_RECORDS" "\<not> m_in_use (maps s ! ri)"
      using ri by (simp_all add: position_Some core_len [OF core])
    let ?s1 = "add_rec ri \<lparr>m_in_use = True, m_pid = p, m_addr = addr, m_pages = ?n, m_obj = of_nat slot, m_rights = want\<rparr> s"
    have res: "shm_map hal p handle want s h = (if b then (Ok (addr, ?n * PAGE_SIZE), ?s1, h1) else (Err ENOMEM, s, h1))"
      using False Ok ri addr mp by (auto simp: shm_map_def map_in_def Let_def)
    show thesis
    proof (cases b)
      case True
      then have "r = Ok (addr, ?n * PAGE_SIZE)" "s' = ?s1" "h' = h1" using res eq by auto
      moreover have "unat (m_obj q) \<noteq> slot" if "q \<in> set (maps s)" "m_in_use q" "m_pid q = p" for q
        using False that by (auto simp: list_ex_iff)
      ultimately show thesis
        using Ok False True held free addr mp by (intro mapped [of addr slot ri]) auto
    next
      case b: False
      then have "r = Err ENOMEM" "s' = s" "h' = h1" using res eq by auto
      with Ok addr mp b show thesis by (intro nomem [of slot addr]) simp_all
    qed
  qed
qed

text \<open>The record that a mapping at the chosen address would have.\<close>

lemma gap_rec:
  assumes core: "shm_core s" and l: "lookup s handle = Ok slot"
    and gap: "find_gap s p (pages (objects s ! slot) + 1) SHM_VIRT_BASE SHM_VIRT_END = Some addr"
    and want: "want = 1 \<or> want = 3"
  defines "r \<equiv> \<lparr>m_in_use = True, m_pid = p, m_addr = addr, m_pages = pages (objects s ! slot), m_obj = of_nat slot, m_rights = want\<rparr>"
  shows "unat (m_obj r) = slot" and "rec_ok (objects s) r"
    and "\<And>q. q \<in> set (maps s) \<Longrightarrow> m_in_use q \<Longrightarrow> m_pid q = p \<Longrightarrow> apart r q"
proof -
  note k = lookup_Ok [OF l]
  have "unat (pages (objects s ! slot)) \<le> MAX_PAGES_PER_OBJECT"
    using shm_coreD(4) [OF core k(1)] k(2) by (simp add: object_ok_def)
  from find_gap_spec [OF core this, of p] gap
  have g: "4096 dvd unat addr" "unat SHM_VIRT_BASE \<le> unat addr"
      "unat addr + (unat (pages (objects s ! slot)) + 1) * 4096 \<le> unat SHM_VIRT_END"
      "clear_of s p (unat (pages (objects s ! slot))) (unat addr)"
    by simp_all
  show slot: "unat (m_obj r) = slot"
    unfolding r_def using k(1) by (simp add: unat_of_nat_small kconst)
  show "rec_ok (objects s) r"
    unfolding rec_ok_def slot using k g want core_len [OF core] by (simp add: r_def span_end_def)
  show "apart r q" if "q \<in> set (maps s)" "m_in_use q" "m_pid q = p" for q
    using g(4) that by (auto simp: clear_of_def apart_def span_end_def r_def)
qed

lemma add_rec_objects:
  assumes "shm_core s" and "rec_ok (objects s) r"
  defines "slot \<equiv> unat (m_obj r)"
  shows "objects (add_rec ri r s) ! i
    = (if i = slot then (objects s ! slot)\<lparr>map_count := map_count (objects s ! slot) + 1\<rparr> else objects s ! i)"
  using rec_okD(1) [OF assms(2)] by (simp add: add_rec_def Let_def slot_def nth_list_update)

lemma add_rec_dying:
  assumes core: "shm_core s" and r: "rec_ok (objects s) r"
    and ok: "\<And>i. i < MAX_OBJECTS \<Longrightarrow> dying (objects s ! i) \<Longrightarrow> map_count (objects s ! i) \<noteq> 0"
    and i: "i < MAX_OBJECTS" "dying (objects (add_rec ri r s) ! i)"
  shows "map_count (objects (add_rec ri r s) ! i) \<noteq> 0"
proof -
  have "unat (map_count (objects s ! i)) \<le> 256"
    using shm_coreD(6) [OF core i(1)] refs_le [OF core_len(3) [OF core], of i] by simp
  then have "map_count (objects s ! i) + 1 \<noteq> 0"
    using unat_add_small [of "map_count (objects s ! i)" 1] by (auto simp: word_unat_eq)
  with ok [OF i(1)] i(2) show ?thesis
    by (cases "i = unat (m_obj r)") (simp_all add: add_rec_objects [OF core r])
qed

lemma map_ok:
  assumes ok: "shm_ok s" and eq: "shm_map hal p handle want s h = (r, s', h')"
  shows "shm_ok s'" and "is_err r \<Longrightarrow> s' = s"
proof -
  have core: "shm_core s" using ok by (rule shm_ok_core)
  show "shm_ok s'"
    using core eq
  proof (cases rule: map_cases)
    case (mapped slot addr ri)
    note m = gap_rec [OF core mapped(2,9,3)]
    show ?thesis unfolding mapped(11)
    proof (rule shm_okI)
      show "shm_core (add_rec ri \<lparr>m_in_use = True, m_pid = p, m_addr = addr, m_pages = pages (objects s ! slot),
              m_obj = of_nat slot, m_rights = want\<rparr> s)" (is "shm_core (add_rec ri ?r s)")
      proof (rule add_rec_core [OF core mapped(7,8) m(2)])
        show "held (maps s) (m_pid ?r) < unat MAX_MAPS_PER_PROC" using mapped(6) by simp
        show "apart ?r q \<and> m_obj ?r \<noteq> m_obj q" if "q \<in> set (maps s)" "m_in_use q" "m_pid q = m_pid ?r" for q
        proof -
          have "m_pid q = p" using that(3) by simp
          then show ?thesis using m(1) m(3) [OF that(1,2)] mapped(5) [OF that(1,2)] by auto
        qed
        show "m_in_use ?r" by simp
      qed
      show "map_count (objects (add_rec ri ?r s) ! i) \<noteq> 0"
        if "i < MAX_OBJECTS" "dying (objects (add_rec ri ?r s) ! i)" for i
        using core m(2) shm_okD [OF ok] that by (rule add_rec_dying)
    qed
  qed (use ok in simp_all)
  show "is_err r \<Longrightarrow> s' = s"
    using core eq by (cases rule: map_cases) simp_all
qed

section \<open>A process exits\<close>

lemma mark_dying_core: "shm_core s \<Longrightarrow> shm_core (mark_dying p s)"
  unfolding mark_dying_def by (rule core_map_objs) (simp_all add: same_books_def)

lemma forget_grants_core: "shm_core s \<Longrightarrow> shm_core (forget_grants p s)"
  unfolding forget_grants_def by (rule core_map_objs) (simp_all add: same_books_def)

lemma drop_one_core: "shm_core s \<Longrightarrow> ri < MAX_MAP_RECORDS \<Longrightarrow> shm_core (drop_one p ri s)"
  by (simp add: drop_one_def drop_rec_core)

lemma fold_drop_core:
  "shm_core s \<Longrightarrow> set is \<subseteq> {0..<MAX_MAP_RECORDS} \<Longrightarrow> shm_core (fold (drop_one p) is s)"
  by (induction "is" arbitrary: s) (auto intro: drop_one_core)

text \<open>What the loop over the records leaves.\<close>

lemma fold_drop_maps:
  "maps (fold (drop_one p) [0..<n] s)
    = map (\<lambda>r. if m_in_use r \<and> m_pid r = p then EMPTY_MAP else r) (take n (maps s)) @ drop n (maps s)"
proof (induction n)
  case 0
  show ?case by simp
next
  case (Suc n)
  let ?t = "fold (drop_one p) [0..<n] s"
  have len: "length (maps ?t) = length (maps s)" using Suc.IH by simp
  have step: "maps (drop_one p n ?t)
      = (maps ?t)[n := if m_in_use (maps ?t ! n) \<and> m_pid (maps ?t ! n) = p then EMPTY_MAP else maps ?t ! n]"
    by (simp add: drop_one_def drop_rec_def Let_def)
  show ?case
  proof (cases "n < length (maps s)")
    case True
    then have "maps ?t ! n = maps s ! n" unfolding Suc.IH by (simp add: nth_append)
    then show ?thesis
      using True step unfolding Suc.IH
      by (simp add: take_Suc_conv_app_nth list_update_append Cons_nth_drop_Suc [symmetric])
  next
    case False
    then have "maps (drop_one p n ?t) = maps ?t" unfolding step using len by (simp add: list_update_beyond)
    with False show ?thesis by (simp add: Suc.IH)
  qed
qed

text \<open>The sweep frees exactly the dying objects that nothing maps.\<close>

definition doomed :: "object \<Rightarrow> bool" where
  "doomed ob \<longleftrightarrow> in_use ob \<and> dying ob \<and> map_count ob = 0"

definition emptied :: "object \<Rightarrow> object" where
  "emptied ob = EMPTY_OBJ\<lparr>gen := next_gen (gen ob)\<rparr>"

lemma not_doomed_emptied [simp]: "\<not> doomed (emptied ob)"
  by (simp add: doomed_def emptied_def EMPTY_OBJ_def)

lemma freed_get:
  assumes "shm_core s" and "k < MAX_OBJECTS"
  shows "objects (freed s k) ! i = (if i = k then emptied (objects s ! k) else objects s ! i)"
    and "frames (freed s k) ! i = (if i = k then replicate MAX_PAGES_PER_OBJECT 0 else frames s ! i)"
    and "maps (freed s k) = maps s"
  using assms(2) core_len [OF assms(1)] by (simp_all add: freed_def emptied_def nth_list_update)

lemma sweep_step:
  assumes "shm_core s" and "k < MAX_OBJECTS" and "sweep hal (k # ks) s h = (s', h')"
  obtains (free) "doomed (objects s ! k)" "shm_core (freed s k)"
      "sweep hal ks (freed s k) (fold (free_frame hal) (take (unat (pages (objects s ! k))) (frames s ! k)) h) = (s', h')"
  | (keep) "\<not> doomed (objects s ! k)" "sweep hal ks s h = (s', h')"
proof (cases "doomed (objects s ! k)")
  case True
  then have "shm_core (freed s k)" using assms(1,2) by (intro freed_core) (auto simp: doomed_def)
  with True assms(3) show thesis
    by (intro free) (simp_all add: doomed_def Let_def free_object_eq [OF assms(1,2)])
next
  case False
  with assms(3) show thesis by (intro keep) (auto simp: doomed_def Let_def)
qed

lemma sweep_core:
  "shm_core s \<Longrightarrow> set ks \<subseteq> {0..<MAX_OBJECTS} \<Longrightarrow> sweep hal ks s h = (s', h') \<Longrightarrow> shm_core s' \<and> maps s' = maps s"
proof (induction ks arbitrary: s h)
  case Nil
  then show ?case by simp
next
  case (Cons k ks)
  then have k: "k < MAX_OBJECTS" by simp
  from Cons.prems(1) k Cons.prems(3) show ?case
  proof (cases rule: sweep_step)
    case free
    then show ?thesis using Cons.IH [OF free(2) _ free(3)] Cons.prems(2) freed_get(3) [OF Cons.prems(1) k] by simp
  next
    case keep
    then show ?thesis using Cons.IH [OF Cons.prems(1) _ keep(2)] Cons.prems(2) by simp
  qed
qed

lemma sweep_objects:
  "shm_core s \<Longrightarrow> set ks \<subseteq> {0..<MAX_OBJECTS} \<Longrightarrow> distinct ks \<Longrightarrow> sweep hal ks s h = (s', h') \<Longrightarrow> i < MAX_OBJECTS
    \<Longrightarrow> objects s' ! i = (if i \<in> set ks \<and> doomed (objects s ! i) then emptied (objects s ! i) else objects s ! i)
      \<and> (\<not> (i \<in> set ks \<and> doomed (objects s ! i)) \<longrightarrow> frames s' ! i = frames s ! i)"
proof (induction ks arbitrary: s h)
  case Nil
  then show ?case by simp
next
  case (Cons k ks)
  then have k: "k < MAX_OBJECTS" "k \<notin> set ks" by simp_all
  from Cons.prems(1) k(1) Cons.prems(4) show ?case
  proof (cases rule: sweep_step)
    case free
    then show ?thesis
      using Cons.IH [OF free(2) _ _ free(3) Cons.prems(5)] Cons.prems(2,3) k freed_get(1,2) [OF Cons.prems(1) k(1), of i]
      by (cases "i = k") simp_all
  next
    case keep
    then show ?thesis
      using Cons.IH [OF Cons.prems(1) _ _ keep(2) Cons.prems(5)] Cons.prems(2,3) by (cases "i = k") simp_all
  qed
qed

lemma process_exit_ok:
  assumes ok: "shm_ok s" and eq: "process_exit hal p s h = (s', h')"
  shows "shm_ok s'"
proof -
  let ?t = "forget_grants p (fold (drop_one p) [0..<MAX_MAP_RECORDS] (mark_dying p s))"
  have core: "shm_core ?t"
    using shm_ok_core [OF ok] by (intro forget_grants_core fold_drop_core mark_dying_core) auto
  have sw: "sweep hal [0..<MAX_OBJECTS] ?t h = (s', h')" using eq by (simp add: process_exit_def)
  note sp = sweep_core [OF core _ sw] sweep_objects [OF core _ _ sw]
  show ?thesis
  proof (rule shm_okI)
    show "shm_core s'" using sp(1) by auto
    show "map_count (objects s' ! i) \<noteq> 0" if "i < MAX_OBJECTS" "dying (objects s' ! i)" for i
    proof -
      have "in_use (objects ?t ! i)" if "dying (objects ?t ! i)"
        using shm_coreD(4) [OF core \<open>i < MAX_OBJECTS\<close>] that by (auto simp: object_ok_def split: if_splits)
      moreover have "objects s' ! i = (if doomed (objects ?t ! i) then emptied (objects ?t ! i) else objects ?t ! i)"
        using sp(2) [of i] that(1) by simp
      ultimately show ?thesis
        using that(2) by (auto simp: doomed_def emptied_def EMPTY_OBJ_def split: if_splits)
    qed
  qed
qed

section \<open>A process forks\<close>

definition copies :: "map_rec list \<Rightarrow> i32 \<Rightarrow> i32 \<Rightarrow> nat \<Rightarrow> map_rec set" where
  "copies ms parent child k = (\<lambda>r. r\<lparr>m_pid := child\<rparr>) ` {r \<in> live_recs (take k ms). m_pid r = parent}"

text \<open>The loop of \<open>fork\<close> after \<open>k\<close> records: what it has added, and the room that is left.\<close>

definition forking :: "i32 \<Rightarrow> i32 \<Rightarrow> shm \<Rightarrow> nat \<Rightarrow> shm \<Rightarrow> bool" where
  "forking parent child s k t \<longleftrightarrow> shm_core t
     \<and> live_recs (maps t) = live_recs (maps s) \<union> copies (maps s) parent child k
     \<and> held (maps t) child = count_if (\<lambda>r. m_in_use r \<and> m_pid r = parent) (take k (maps s))
     \<and> count_if (\<lambda>r. \<not> m_in_use r) (maps t) + count_if (\<lambda>r. m_in_use r \<and> m_pid r = parent) (take k (maps s))
         = count_if (\<lambda>r. \<not> m_in_use r) (maps s)
     \<and> (\<forall>i < MAX_MAP_RECORDS. if m_in_use (maps s ! i) then maps t ! i = maps s ! i
          else m_in_use (maps t ! i) \<longrightarrow> m_pid (maps t ! i) = child)
     \<and> (\<forall>i < MAX_OBJECTS. in_use (objects t ! i) = in_use (objects s ! i) \<and> pages (objects t ! i) = pages (objects s ! i)
          \<and> dying (objects t ! i) = dying (objects s ! i) \<and> gen (objects t ! i) = gen (objects s ! i)
          \<and> owner (objects t ! i) = owner (objects s ! i) \<and> grants (objects t ! i) = grants (objects s ! i))
     \<and> (\<forall>i < MAX_OBJECTS. dying (objects t ! i) \<longrightarrow> map_count (objects t ! i) \<noteq> 0)
     \<and> frames t = frames s"

lemma forkingD:
  assumes "forking parent child s k t"
  shows "shm_core t" "live_recs (maps t) = live_recs (maps s) \<union> copies (maps s) parent child k"
    "held (maps t) child = count_if (\<lambda>r. m_in_use r \<and> m_pid r = parent) (take k (maps s))"
    "count_if (\<lambda>r. \<not> m_in_use r) (maps t) + count_if (\<lambda>r. m_in_use r \<and> m_pid r = parent) (take k (maps s))
         = count_if (\<lambda>r. \<not> m_in_use r) (maps s)"
    "i < MAX_MAP_RECORDS \<Longrightarrow> m_in_use (maps s ! i) \<Longrightarrow> maps t ! i = maps s ! i"
    "i < MAX_MAP_RECORDS \<Longrightarrow> \<not> m_in_use (maps s ! i) \<Longrightarrow> m_in_use (maps t ! i) \<Longrightarrow> m_pid (maps t ! i) = child"
    "i < MAX_OBJECTS \<Longrightarrow> in_use (objects t ! i) = in_use (objects s ! i) \<and> pages (objects t ! i) = pages (objects s ! i)
          \<and> dying (objects t ! i) = dying (objects s ! i) \<and> gen (objects t ! i) = gen (objects s ! i)
          \<and> owner (objects t ! i) = owner (objects s ! i) \<and> grants (objects t ! i) = grants (objects s ! i)"
    "i < MAX_OBJECTS \<Longrightarrow> dying (objects t ! i) \<Longrightarrow> map_count (objects t ! i) \<noteq> 0" "frames t = frames s"
  using assms unfolding forking_def by (blast, blast, blast, blast, metis, metis, blast, blast, blast)

lemma take_Suc_count:
  "k < length xs \<Longrightarrow> count_if P (take (Suc k) xs) = count_if P (take k xs) + of_bool (P (xs ! k))"
  by (simp add: take_Suc_conv_app_nth count_if_def)

lemma copies_Suc:
  "k < length ms \<Longrightarrow> copies ms parent child (Suc k)
    = (if m_in_use (ms ! k) \<and> m_pid (ms ! k) = parent then insert ((ms ! k)\<lparr>m_pid := child\<rparr>) (copies ms parent child k)
       else copies ms parent child k)"
  by (auto simp: copies_def live_recs_def take_Suc_conv_app_nth)

lemma count_take_less:
  "k < length xs \<Longrightarrow> P (xs ! k) \<Longrightarrow> count_if P (take k xs) < count_if P xs"
proof -
  assume k: "k < length xs" and P: "P (xs ! k)"
  have "count_if P xs = count_if P (take (Suc k) xs) + count_if P (drop (Suc k) xs)"
    using append_take_drop_id [of "Suc k" xs] by (metis count_if_def filter_append length_append)
  then show "count_if P (take k xs) < count_if P xs" using take_Suc_count [OF k, of P] P by simp
qed

lemma copies_apart:
  assumes core: "shm_core s" and k: "k < MAX_MAP_RECORDS" "m_in_use (maps s ! k)" "m_pid (maps s ! k) = parent"
    and q: "q \<in> copies (maps s) parent child k"
  shows "apart ((maps s ! k)\<lparr>m_pid := child\<rparr>) q \<and> m_obj (maps s ! k) \<noteq> m_obj q"
proof -
  from q obtain j where j: "j < k" "m_in_use (maps s ! j)" "m_pid (maps s ! j) = parent"
      "q = (maps s ! j)\<lparr>m_pid := child\<rparr>"
    using k(1) core_len [OF core] by (auto simp: copies_def live_recs_def in_set_conv_nth)
  then have "apart (maps s ! k) (maps s ! j) \<and> m_obj (maps s ! k) \<noteq> m_obj (maps s ! j)"
    using shm_coreD(8) [OF core, unfolded recs_apart_def, rule_format, of k j] k core_len [OF core] by simp
  then show ?thesis using j(4) by (simp add: apart_def span_end_def)
qed

lemma rec_ok_pid: "rec_ok obs (r\<lparr>m_pid := c\<rparr>) = rec_ok obs r"
  by (simp add: rec_ok_def span_end_def)

lemma fork_step:
  assumes ok: "shm_core s" and ne: "parent \<noteq> child"
    and none: "\<And>r. r \<in> set (maps s) \<Longrightarrow> m_in_use r \<Longrightarrow> m_pid r \<noteq> child"
    and room: "count_if (\<lambda>r. m_in_use r \<and> m_pid r = parent) (maps s) \<le> count_if (\<lambda>r. \<not> m_in_use r) (maps s)"
    and k: "k < MAX_MAP_RECORDS" and f: "forking parent child s k t"
  shows "forking parent child s (Suc k) (fork_one parent child k t)"
proof -
  note d = forkingD [OF f]
  have len: "k < length (maps s)" "length (maps t) = length (maps s)" using k core_len [OF ok] core_len [OF d(1)] by simp_all
  have same: "m_in_use (maps t ! k) \<and> m_pid (maps t ! k) = parent \<longleftrightarrow> m_in_use (maps s ! k) \<and> m_pid (maps s ! k) = parent"
    using d(5,6) [OF k] ne by (cases "m_in_use (maps s ! k)") auto
  show ?thesis
  proof (cases "m_in_use (maps s ! k) \<and> m_pid (maps s ! k) = parent")
    case False
    with same have "fork_one parent child k t = t" by (auto simp: fork_one_def Let_def)
    with f False show ?thesis
      unfolding forking_def by (simp add: take_Suc_count [OF len(1)] copies_Suc [OF len(1)])
  next
    case True
    then have tk: "maps t ! k = maps s ! k" using d(5) [OF k] by simp
    let ?r = "(maps s ! k)\<lparr>m_pid := child\<rparr>"
    have lt: "count_if (\<lambda>r. m_in_use r \<and> m_pid r = parent) (take k (maps s)) < count_if (\<lambda>r. m_in_use r \<and> m_pid r = parent) (maps s)"
      using len(1) True by (intro count_take_less) simp_all
    then have "0 < count_if (\<lambda>r. \<not> m_in_use r) (maps t)" using d(4) room by simp
    then obtain ci where "position (\<lambda>q. \<not> m_in_use q) (maps t) = Some ci"
      by (metis count_if_eq_0 less_irrefl option.exhaust position_None)
    then have ci: "position (\<lambda>q. \<not> m_in_use q) (maps t) = Some ci" "ci < MAX_MAP_RECORDS" "\<not> m_in_use (maps t ! ci)"
      by (simp_all add: position_Some core_len [OF d(1)])
    have fo: "fork_one parent child k t = add_rec ci ?r t"
      using True same ci(1) by (simp add: fork_one_def Let_def tk)
    have "rec_ok (objects t) (maps s ! k)"
      using shm_coreD(7) [OF d(1), of "maps t ! k"] tk True nth_mem [of k "maps t"] len by simp
    then have rok: "rec_ok (objects t) ?r" by (simp only: rec_ok_pid)
    have room': "held (maps t) child < unat MAX_MAPS_PER_PROC"
      using lt d(3) shm_coreD(9) [OF ok, of parent] by (simp add: held_def)
    have new: "apart ?r q \<and> m_obj ?r \<noteq> m_obj q" if "q \<in> set (maps t)" "m_in_use q" "m_pid q = child" for q
    proof -
      have "q \<in> live_recs (maps t)" using that by (simp add: live_recs_def)
      then have "q \<in> copies (maps s) parent child k"
        using d(2) none that(3) by (auto simp: live_recs_def)
      then show ?thesis using copies_apart [OF ok k _ _] True by simp
    qed
    have core': "shm_core (add_rec ci ?r t)"
      using new by (intro add_rec_core [OF d(1) ci(2,3) rok]) (use True room' in simp_all)
    have ci': "ci < length (maps t)" using ci(2) core_len [OF d(1)] by simp
    have maps': "maps (add_rec ci ?r t) = (maps t)[ci := ?r]" by (simp add: add_rec_def Let_def)
    have c5: "\<not> m_in_use (maps s ! ci)" using d(5) [OF ci(2)] ci(3) by auto
    show ?thesis
      unfolding fo forking_def
    proof (intro conjI allI impI)
      show "shm_core (add_rec ci ?r t)" by (rule core')
      show "live_recs (maps (add_rec ci ?r t)) = live_recs (maps s) \<union> copies (maps s) parent child (Suc k)"
        unfolding maps' using live_recs_add [OF ci' ci(3), of ?r] True d(2) by (simp add: copies_Suc [OF len(1)])
      show "held (maps (add_rec ci ?r t)) child = count_if (\<lambda>r. m_in_use r \<and> m_pid r = parent) (take (Suc k) (maps s))"
        unfolding maps' using held_update [OF ci', of ?r child] ci(3) True d(3) by (simp add: take_Suc_count [OF len(1)])
      show "count_if (\<lambda>r. \<not> m_in_use r) (maps (add_rec ci ?r t))
          + count_if (\<lambda>r. m_in_use r \<and> m_pid r = parent) (take (Suc k) (maps s)) = count_if (\<lambda>r. \<not> m_in_use r) (maps s)"
        unfolding maps' using count_if_update [OF ci', of "\<lambda>r. \<not> m_in_use r" ?r] ci(3) True d(4)
        by (simp add: take_Suc_count [OF len(1)])
      show "if m_in_use (maps s ! i) then maps (add_rec ci ?r t) ! i = maps s ! i
          else m_in_use (maps (add_rec ci ?r t) ! i) \<longrightarrow> m_pid (maps (add_rec ci ?r t) ! i) = child"
        if "i < MAX_MAP_RECORDS" for i
        unfolding maps' using d(5,6) [OF that] c5 ci' by (cases "i = ci") simp_all
      show "map_count (objects (add_rec ci ?r t) ! i) \<noteq> 0" if "i < MAX_OBJECTS" "dying (objects (add_rec ci ?r t) ! i)" for i
        using d(1) rok d(8) that by (rule add_rec_dying)
      show "frames (add_rec ci ?r t) = frames s" using d(9) by (simp add: add_rec_def Let_def)
    qed (use d(7) in \<open>auto simp: add_rec_objects [OF d(1) rok]\<close>)
  qed
qed

lemma fork_cases:
  assumes ok: "shm_ok s" and ne: "parent \<noteq> child" and eq: "fork parent child s = (r, s')"
  obtains (refused) e where "r = Err e" "s' = s"
  | (forked) "r = Ok ()" "forking parent child s MAX_MAP_RECORDS s'"
      "\<And>q. q \<in> set (maps s) \<Longrightarrow> m_in_use q \<Longrightarrow> m_pid q \<noteq> child"
proof (cases "list_ex (\<lambda>r. m_in_use r \<and> m_pid r \<noteq> parent \<and> m_pid r = child) (maps s)
    \<or> count_if (\<lambda>r. m_in_use r \<and> m_pid r = parent) (maps s) > count_if (\<lambda>r. \<not> m_in_use r) (maps s)")
  case True
  then have "\<exists>e. fork parent child s = (Err e, s)" by (auto simp: fork_def)
  then obtain e where "fork parent child s = (Err e, s)" by blast
  with eq show thesis by (intro refused) auto
next
  case False
  then have none: "m_pid q \<noteq> child" if "q \<in> set (maps s)" "m_in_use q" for q
    using that ne by (auto simp: list_ex_iff)
  have room: "count_if (\<lambda>r. m_in_use r \<and> m_pid r = parent) (maps s) \<le> count_if (\<lambda>r. \<not> m_in_use r) (maps s)"
    using False by simp
  have core: "shm_core s" using ok by (rule shm_ok_core)
  have "held (maps s) child = 0" using none by (auto simp: held_def count_if_eq_0)
  then have start: "forking parent child s 0 s"
    using core shm_okD [OF ok] none core_len [OF core]
    by (auto simp: forking_def copies_def live_recs_def)
  have loop: "k \<le> MAX_MAP_RECORDS \<Longrightarrow> forking parent child s k (fold (fork_one parent child) [0..<k] s)" for k
  proof (induction k)
    case 0
    show ?case using start by simp
  next
    case (Suc k)
    then have "forking parent child s (Suc k) (fork_one parent child k (fold (fork_one parent child) [0..<k] s))"
      by (intro fork_step [OF core ne none room]) simp_all
    then show ?case by simp
  qed
  from False eq have "r = Ok ()" "s' = fold (fork_one parent child) [0..<MAX_MAP_RECORDS] s"
    by (auto simp: fork_def split: if_splits)
  with loop [of MAX_MAP_RECORDS] none show thesis by (intro forked) simp_all
qed

lemma fork_ok:
  assumes "shm_ok s" and "parent \<noteq> child" and "fork parent child s = (r, s')"
  shows "shm_ok s'" and "is_err r \<Longrightarrow> s' = s"
proof -
  show "shm_ok s'"
    using assms
  proof (cases rule: fork_cases)
    case forked
    show ?thesis using forkingD(1,8) [OF forked(2)] by (intro shm_okI) auto
  qed (use assms(1) in simp)
  show "is_err r \<Longrightarrow> s' = s"
    using assms by (cases rule: fork_cases) simp_all
qed

section \<open>The books balance\<close>

lemma sum_pages_word:
  assumes "\<And>ob. ob \<in> set obs \<Longrightarrow> object_ok ob"
  shows "sum_list (map pages (filter in_use obs)) = of_nat (sum_list (map (unat \<circ> pages) obs))"
  using assms by (induction obs) (auto simp: object_ok_def)

lemma check_object_ok:
  assumes ok: "shm_ok s" and i: "i < MAX_OBJECTS"
  shows "check_object s i = None"
proof -
  have core: "shm_core s" using ok by (rule shm_ok_core)
  note d = shm_coreD(4,6) [OF core i]
  have cnt: "of_nat (refs (maps s) i) = map_count (objects s ! i)"
    unfolding d(2) [symmetric] by simp
  have "refs (maps s) i = 0" if "\<not> in_use (objects s ! i)"
    using that rec_okD(2) [OF shm_coreD(7) [OF core]] by (auto simp: refs_def count_if_eq_0)
  with d have "map_count (objects s ! i) = 0" if "\<not> in_use (objects s ! i)"
    using that by (simp add: unat_eq_zero [symmetric] del: unat_eq_zero)
  with d(1) cnt shm_okD [OF ok i] show ?thesis
    by (auto simp: check_object_def Let_def object_ok_def refs_def)
qed

lemma span_words:
  assumes "rec_ok obs r"
  shows "unat (span_lo r) = unat (m_addr r)" and "unat (span_hi r) = span_end r"
    and "unat (ucast (m_addr r) + ucast (m_pages r) * ucast PAGE_SIZE :: u64) = unat (m_addr r) + unat (m_pages r) * 4096"
proof -
  have b: "unat (m_addr r) + (unat (m_pages r) + 1) * 4096 \<le> 0x7C000000"
    using rec_okD(6) [OF assms] by (simp add: span_end_def kconst)
  show "unat (span_lo r) = unat (m_addr r)" by (simp add: span_lo_def)
  have p: "unat (ucast (m_pages r) + 1 :: u64) = unat (m_pages r) + 1"
    using b by (subst unat_add_small) simp_all
  have m: "unat ((ucast (m_pages r) + 1) * ucast PAGE_SIZE :: u64) = (unat (m_pages r) + 1) * 4096"
    using b p by (subst unat_mult_small) simp_all
  show "unat (span_hi r) = span_end r"
    unfolding span_hi_def span_end_def using b m by (subst unat_add_small) simp_all
  have m': "unat (ucast (m_pages r) * ucast PAGE_SIZE :: u64) = unat (m_pages r) * 4096"
    using b by (subst unat_mult_small) simp_all
  show "unat (ucast (m_addr r) + ucast (m_pages r) * ucast PAGE_SIZE :: u64) = unat (m_addr r) + unat (m_pages r) * 4096"
    using b m' by (subst unat_add_small) simp_all
qed

lemma check_map_ok:
  assumes core: "shm_core s" and i: "i < MAX_MAP_RECORDS"
  shows "check_map s i = None"
proof (cases "m_in_use (maps s ! i)")
  case False
  then show ?thesis by (simp add: check_map_def)
next
  case True
  let ?r = "maps s ! i"
  have mem: "?r \<in> set (maps s)" using i core_len [OF core] by simp
  have r: "rec_ok (objects s) ?r" by (rule shm_coreD(7) [OF core mem True])
  note k = rec_okD [OF r]
  have al: "m_addr ?r mod PAGE_SIZE = 0"
    using k(4) by (simp add: word_unat_eq unat_mod dvd_eq_mod_eq_0)
  have lo: "\<not> m_addr ?r < SHM_VIRT_BASE" using k(5) by (simp add: word_less_nat_alt)
  have hi: "\<not> ucast (m_addr ?r) + ucast (m_pages ?r) * ucast PAGE_SIZE > (ucast SHM_VIRT_END :: u64)"
    using k(6) by (simp add: word_less_nat_alt span_words [OF r] span_end_def del: unat_PAGE_SIZE)
  have ov: "\<not> (span_lo ?r < span_hi q \<and> span_lo q < span_hi ?r)"
    if j: "j < MAX_MAP_RECORDS" "q = maps s ! j" "m_in_use q" "m_pid q = m_pid ?r" "j \<noteq> i" for q j
  proof -
    have "q \<in> set (maps s)" using j core_len [OF core] by simp
    then have q: "rec_ok (objects s) q" by (rule shm_coreD(7) [OF core _ j(3)])
    have "apart ?r q"
      using shm_coreD(8) [OF core, unfolded recs_apart_def, rule_format, of i j] j i True core_len [OF core] by simp
    then show ?thesis
      by (auto simp: word_less_nat_alt span_words [OF r] span_words [OF q] apart_def)
  qed
  have "count_if (\<lambda>q. m_in_use q \<and> m_pid q = m_pid ?r) (maps s) \<le> 256"
    using count_if_le_length [of _ "maps s"] core_len(3) [OF core] by (simp add: kconst)
  then have cnt: "unat (of_nat (count_if (\<lambda>q. m_in_use q \<and> m_pid q = m_pid ?r) (maps s)) :: u32) = held (maps s) (m_pid ?r)"
    unfolding held_def by (intro unat_of_nat_small) simp
  have "\<not> of_nat (count_if (\<lambda>q. m_in_use q \<and> m_pid q = m_pid ?r) (maps s)) > MAX_MAPS_PER_PROC"
    using cnt shm_coreD(9) [OF core, of "m_pid ?r"] by (simp add: word_less_nat_alt)
  moreover have "\<not> list_ex (\<lambda>j. let q = maps s ! j in m_in_use q \<and> m_pid q = m_pid ?r \<and> j \<noteq> i
      \<and> span_lo ?r < span_hi q \<and> span_lo q < span_hi ?r) [0..<length (maps s)]"
    using ov core_len [OF core] by (auto simp: list_ex_iff Let_def)
  ultimately show ?thesis using k(2) al lo hi by (simp add: check_map_def Let_def)
qed

lemma shm_check_counts_ok:
  assumes "shm_ok s"
  shows "check_counts s = Ok ()"
proof -
  have core: "shm_core s" using assms by (rule shm_ok_core)
  have "object_ok ob" if "ob \<in> set (objects s)" for ob
    using that shm_coreD(1,4) [OF core] by (auto simp: in_set_conv_nth)
  then have sum: "sum_list (map pages (filter in_use (objects s))) = total_pages s"
    using sum_pages_word [of "objects s"] unfolding shm_coreD(10) [OF core, symmetric] by simp
  have "first_err (check_object s) [0..<length (objects s)] = None"
    unfolding first_err_None using check_object_ok [OF assms] core_len [OF core] by simp
  moreover have "first_err (check_map s) [0..<length (maps s)] = None"
    unfolding first_err_None using check_map_ok [OF core] core_len [OF core] by simp
  ultimately show ?thesis using sum by (simp add: check_counts_def)
qed

end
