(* ===== verification/Shmmem.thy ===== *)
theory Shmmem
  imports Shmbooks
begin

text \<open>
  The table and the memory it manages.  The locale states what the table relies on from the machine below:
  an allocator that hands out frames nobody else has, and page tables in which a page can be set and
  cleared.  From these laws every operation keeps the page tables and the frames in step with the table:
  each page of a mapping is there and maps the right frame of its object, nothing else is mapped, and the
  frames lent out are exactly the frames of the objects in use, each belonging to one of them.
\<close>

section \<open>What the table says about memory\<close>

definition frames_of :: "shm \<Rightarrow> usize \<Rightarrow> u32 list" where
  "frames_of s slot = take (unat (pages (objects s ! slot))) (frames s ! slot)"

definition owned :: "shm \<Rightarrow> u32 set" where
  "owned s = (\<Union>slot < MAX_OBJECTS. set (frames_of s slot))"

definition frames_distinct :: "shm \<Rightarrow> bool" where
  "frames_distinct s \<longleftrightarrow> (\<forall>i < MAX_OBJECTS. distinct (frames_of s i))
     \<and> (\<forall>i < MAX_OBJECTS. \<forall>j < MAX_OBJECTS. i \<noteq> j \<longrightarrow> set (frames_of s i) \<inter> set (frames_of s j) = {})"

definition rec_maps :: "shm \<Rightarrow> map_rec \<Rightarrow> u32 \<Rightarrow> u32 \<times> bool \<Rightarrow> bool" where
  "rec_maps s r v e \<longleftrightarrow> (\<exists>i < unat (m_pages r). v = page_addr (m_addr r) i
     \<and> e = (frames s ! unat (m_obj r) ! i, m_rights r AND RIGHT_WRITE \<noteq> 0))"

definition table_maps :: "shm \<Rightarrow> i32 \<Rightarrow> u32 \<Rightarrow> u32 \<times> bool \<Rightarrow> bool" where
  "table_maps s p v e \<longleftrightarrow> (\<exists>r \<in> live_recs (maps s). m_pid r = p \<and> rec_maps s r v e)"

definition in_region :: "u32 \<Rightarrow> bool" where
  "in_region v \<longleftrightarrow> 4096 dvd unat v \<and> unat SHM_VIRT_BASE \<le> unat v \<and> unat v < unat SHM_VIRT_END"

lemma owned_split:
  "slot < MAX_OBJECTS \<Longrightarrow> owned s = set (frames_of s slot) \<union> (\<Union>i \<in> {..<MAX_OBJECTS} - {slot}. set (frames_of s i))"
  by (auto simp: owned_def)

lemma frames_distinct_update:
  assumes fd: "frames_distinct s" and fo: "\<And>i. frames_of s' i = (if i = slot then fs else frames_of s i)"
    and "distinct fs" and dis: "\<And>i. i < MAX_OBJECTS \<Longrightarrow> i \<noteq> slot \<Longrightarrow> set fs \<inter> set (frames_of s i) = {}"
  shows "frames_distinct s'"
  unfolding frames_distinct_def
proof (intro conjI allI impI)
  show "distinct (frames_of s' i)" if "i < MAX_OBJECTS" for i
    using fd assms(3) that by (simp add: fo frames_distinct_def)
  show "set (frames_of s' i) \<inter> set (frames_of s' j) = {}" if "i < MAX_OBJECTS" "j < MAX_OBJECTS" "i \<noteq> j" for i j
  proof -
    have "set (frames_of s i) \<inter> set (frames_of s j) = {}" using fd that by (simp add: frames_distinct_def)
    with that dis [of i] dis [of j] show ?thesis by (simp add: fo Int_commute)
  qed
qed

text \<open>A free slot owns nothing.\<close>

lemma frames_of_free: "shm_core s \<Longrightarrow> i < MAX_OBJECTS \<Longrightarrow> \<not> in_use (objects s ! i) \<Longrightarrow> frames_of s i = []"
  using shm_coreD(4) by (simp add: frames_of_def object_ok_def)

lemma length_frames_of: "shm_core s \<Longrightarrow> i < MAX_OBJECTS \<Longrightarrow> length (frames_of s i) = unat (pages (objects s ! i))"
  using shm_coreD(4,5) [of s i] by (auto simp: frames_of_def frames_ok_def object_ok_def split: if_splits)

lemma frames_of_nth: "k < unat (pages (objects s ! i)) \<Longrightarrow> frames_of s i ! k = frames s ! i ! k"
  by (simp add: frames_of_def)

text \<open>The pages of a mapping.\<close>

lemma unat_page_addr:
  assumes "unat a + k * 4096 < 2 ^ 32"
  shows "unat (page_addr a k) = unat a + k * 4096"
proof -
  have "unat (of_nat k * PAGE_SIZE :: u32) = k * 4096"
    using assms by (subst unat_mult_small) (simp_all add: unat_of_nat_small)
  with assms show ?thesis unfolding page_addr_def by (subst unat_add_small) simp_all
qed

lemma rec_page_addr:
  assumes "rec_ok obs r" and "k < unat (m_pages r)"
  shows "unat (page_addr (m_addr r) k) = unat (m_addr r) + k * 4096" and "in_region (page_addr (m_addr r) k)"
proof -
  note d = rec_okD [OF assms(1)]
  have b: "unat (m_addr r) + k * 4096 + 4096 + 4096 \<le> 0x7C000000"
    using d(6) assms(2) by (simp add: span_end_def kconst)
  show e: "unat (page_addr (m_addr r) k) = unat (m_addr r) + k * 4096"
    using b by (intro unat_page_addr) simp
  show "in_region (page_addr (m_addr r) k)"
    unfolding in_region_def e using d(4,5) b by (simp add: kconst)
qed

lemma apart_pages:
  assumes "rec_ok obs r" "rec_ok obs q" "apart r q" and "i < unat (m_pages r)" "j < unat (m_pages q)"
  shows "page_addr (m_addr r) i \<noteq> page_addr (m_addr q) j"
proof -
  have "unat (page_addr (m_addr r) i) \<noteq> unat (page_addr (m_addr q) j)"
    unfolding rec_page_addr(1) [OF assms(1,4)] rec_page_addr(1) [OF assms(2,5)]
    using assms(3-5) by (auto simp: apart_def span_end_def)
  then show ?thesis by auto
qed

lemma rec_maps_cong:
  assumes "frames s' ! unat (m_obj r) = frames s ! unat (m_obj r)"
  shows "rec_maps s' r v e \<longleftrightarrow> rec_maps s r v e"
  using assms by (simp add: rec_maps_def)

text \<open>The page table of a process with the first \<open>n\<close> pages of a mapping added.\<close>

primrec add_pages :: "u32 \<Rightarrow> u32 list \<Rightarrow> bool \<Rightarrow> (u32 \<Rightarrow> (u32 \<times> bool) option) \<Rightarrow> nat \<Rightarrow> u32 \<Rightarrow> (u32 \<times> bool) option" where
  "add_pages addr fs w T 0 = T"
| "add_pages addr fs w T (Suc n) = (add_pages addr fs w T n)(page_addr addr n \<mapsto> (fs ! n, w))"

lemma add_pages_outside: "v \<notin> page_addr addr ` {0..<n} \<Longrightarrow> add_pages addr fs w T n v = T v"
  by (induction n) (auto simp: image_iff)

lemma add_pages_inside:
  "(\<And>i j. i < n \<Longrightarrow> j < n \<Longrightarrow> page_addr addr i = page_addr addr j \<Longrightarrow> i = j) \<Longrightarrow> k < n
    \<Longrightarrow> add_pages addr fs w T n (page_addr addr k) = Some (fs ! k, w)"
proof (induction n)
  case 0
  then show ?case by simp
next
  case (Suc n)
  show ?case
  proof (cases "k = n")
    case False
    with Suc.prems have "page_addr addr k \<noteq> page_addr addr n" by fastforce
    with False Suc show ?thesis by simp
  qed simp
qed

text \<open>Page tables that show exactly the mappings of the table, and how they follow it.\<close>

definition agrees :: "shm \<Rightarrow> (i32 \<Rightarrow> u32 \<Rightarrow> (u32 \<times> bool) option) \<Rightarrow> bool" where
  "agrees s T \<longleftrightarrow> (\<forall>p v e. T p v = Some e \<longleftrightarrow> table_maps s p v e)"

lemma agreesD: "agrees s T \<Longrightarrow> T p v = Some e \<longleftrightarrow> table_maps s p v e"
  unfolding agrees_def by blast

lemma agrees_None: "agrees s T \<Longrightarrow> T p v = None \<longleftrightarrow> (\<forall>e. \<not> table_maps s p v e)"
  using agreesD [of s T p v] by (cases "T p v") auto

lemma live_rec_ok: "shm_core s \<Longrightarrow> r \<in> live_recs (maps s) \<Longrightarrow> rec_ok (objects s) r"
  using shm_coreD(7) by (simp add: live_recs_def)

lemma live_recs_apart:
  assumes "shm_core s" and "r \<in> live_recs (maps s)" "q \<in> live_recs (maps s)" "m_pid r = m_pid q" "r \<noteq> q"
  shows "apart r q"
proof -
  from assms(2,3) obtain i j where "i < length (maps s)" "r = maps s ! i" "m_in_use r"
      "j < length (maps s)" "q = maps s ! j" "m_in_use q"
    by (auto simp: live_recs_def in_set_conv_nth)
  moreover from this assms(5) have "i \<noteq> j" by auto
  ultimately show ?thesis
    using shm_coreD(8) [OF assms(1), unfolded recs_apart_def, rule_format, of i j] assms(4) by simp
qed

lemma rec_pages_inj:
  assumes "rec_ok obs r" and "i < unat (m_pages r)" "j < unat (m_pages r)" "page_addr (m_addr r) i = page_addr (m_addr r) j"
  shows "i = j"
  using arg_cong [OF assms(4), of unat]
  unfolding rec_page_addr(1) [OF assms(1,2)] rec_page_addr(1) [OF assms(1,3)] by simp

lemma agrees_drop:
  assumes core: "shm_core s" and ri: "ri < MAX_MAP_RECORDS" "m_in_use (maps s ! ri)" and ag: "agrees s T"
  defines "r \<equiv> maps s ! ri"
  shows "agrees (drop_rec ri s)
    (T(m_pid r := \<lambda>v. if v \<in> page_addr (m_addr r) ` {0..<unat (m_pages r)} then None else T (m_pid r) v))"
proof -
  have len: "ri < length (maps s)" using ri(1) core_len [OF core] by simp
  have live: "live_recs (maps (drop_rec ri s)) = live_recs (maps s) - {r}"
    using live_recs_drop [OF shm_coreD(8) [OF core] len ri(2)] by (simp add: drop_rec_def Let_def r_def)
  have rl: "r \<in> live_recs (maps s)" using len ri(2) by (simp add: live_recs_def r_def)
  have rm: "rec_maps (drop_rec ri s) q v e = rec_maps s q v e" for q v e
    by (rule rec_maps_cong) (simp add: drop_rec_def Let_def)
  have out: "v \<notin> page_addr (m_addr r) ` {0..<unat (m_pages r)}"
    if q: "q \<in> live_recs (maps s)" "m_pid q = m_pid r" "q \<noteq> r" "rec_maps s q v e" for q v e
  proof
    assume "v \<in> page_addr (m_addr r) ` {0..<unat (m_pages r)}"
    then obtain i where "i < unat (m_pages r)" "v = page_addr (m_addr r) i" by auto
    moreover from q(4) obtain j where "j < unat (m_pages q)" "v = page_addr (m_addr q) j" by (auto simp: rec_maps_def)
    moreover have "apart q r" using live_recs_apart [OF core q(1) rl q(2,3)] .
    ultimately show False
      using apart_pages [OF live_rec_ok [OF core q(1)] live_rec_ok [OF core rl]] by metis
  qed
  have "table_maps (drop_rec ri s) p v e
      \<longleftrightarrow> table_maps s p v e \<and> \<not> (p = m_pid r \<and> v \<in> page_addr (m_addr r) ` {0..<unat (m_pages r)})" for p v e
  proof
    assume "table_maps (drop_rec ri s) p v e"
    then obtain q where "q \<in> live_recs (maps s)" "q \<noteq> r" "m_pid q = p" "rec_maps s q v e"
      unfolding table_maps_def live rm by auto
    with out show "table_maps s p v e \<and> \<not> (p = m_pid r \<and> v \<in> page_addr (m_addr r) ` {0..<unat (m_pages r)})"
      unfolding table_maps_def by metis
  next
    assume t: "table_maps s p v e \<and> \<not> (p = m_pid r \<and> v \<in> page_addr (m_addr r) ` {0..<unat (m_pages r)})"
    then obtain q where q: "q \<in> live_recs (maps s)" "m_pid q = p" "rec_maps s q v e" unfolding table_maps_def by auto
    with t have "q \<noteq> r" by (auto simp: rec_maps_def)
    with q show "table_maps (drop_rec ri s) p v e" unfolding table_maps_def live rm by auto
  qed
  then show ?thesis using agreesD [OF ag] by (auto simp: agrees_def)
qed

lemma rec_unmapped:
  assumes core: "shm_core s" and r: "rec_ok (objects s) r"
    and new: "\<And>q. q \<in> live_recs (maps s) \<Longrightarrow> m_pid q = m_pid r \<Longrightarrow> apart r q"
    and ag: "agrees s T" and k: "k < unat (m_pages r)"
  shows "T (m_pid r) (page_addr (m_addr r) k) = None"
proof -
  have "\<not> table_maps s (m_pid r) (page_addr (m_addr r) k) e" for e
  proof
    assume "table_maps s (m_pid r) (page_addr (m_addr r) k) e"
    then obtain q j where q: "q \<in> live_recs (maps s)" "m_pid q = m_pid r" "j < unat (m_pages q)"
        "page_addr (m_addr r) k = page_addr (m_addr q) j" by (auto simp: table_maps_def rec_maps_def)
    from apart_pages [OF r live_rec_ok [OF core q(1)] new [OF q(1,2)] k q(3)] q(4) show False by simp
  qed
  then show ?thesis by (simp add: agrees_None [OF ag])
qed

lemma agrees_add:
  assumes core: "shm_core s" and i: "i < MAX_MAP_RECORDS" "\<not> m_in_use (maps s ! i)"
    and r: "rec_ok (objects s) r" "m_in_use r"
    and new: "\<And>q. q \<in> live_recs (maps s) \<Longrightarrow> m_pid q = m_pid r \<Longrightarrow> apart r q"
    and ag: "agrees s T" and fs: "fs = frames s ! unat (m_obj r)" and w: "w = (m_rights r AND RIGHT_WRITE \<noteq> 0)"
  shows "agrees (add_rec i r s) (T(m_pid r := add_pages (m_addr r) fs w (T (m_pid r)) (unat (m_pages r))))"
proof -
  have len: "i < length (maps s)" using i(1) core_len [OF core] by simp
  have live: "live_recs (maps (add_rec i r s)) = insert r (live_recs (maps s))"
    using live_recs_add [OF len i(2) r(2)] by (simp add: add_rec_def Let_def)
  have rm: "rec_maps (add_rec i r s) q v e = rec_maps s q v e" for q v e
    by (rule rec_maps_cong) (simp add: add_rec_def Let_def)
  have none: "T (m_pid r) (page_addr (m_addr r) k) = None" if "k < unat (m_pages r)" for k
    using core r(1) new ag that by (rule rec_unmapped)
  let ?A = "add_pages (m_addr r) fs w (T (m_pid r)) (unat (m_pages r))"
  have pages: "?A v = Some e \<longleftrightarrow> rec_maps s r v e \<or> T (m_pid r) v = Some e" for v e
  proof (cases "v \<in> page_addr (m_addr r) ` {0..<unat (m_pages r)}")
    case True
    then obtain k where k: "k < unat (m_pages r)" "v = page_addr (m_addr r) k" by auto
    have "?A v = Some (fs ! k, w)"
      unfolding k(2) using rec_pages_inj [OF r(1)] k(1) by (intro add_pages_inside) blast+
    moreover have "rec_maps s r v e \<longleftrightarrow> e = (fs ! k, w)"
    proof
      assume "rec_maps s r v e"
      then obtain j where j: "j < unat (m_pages r)" "v = page_addr (m_addr r) j" "e = (fs ! j, w)"
        unfolding rec_maps_def fs w by blast
      from rec_pages_inj [OF r(1) j(1) k(1)] j(2) k(2) have "j = k" by simp
      with j(3) show "e = (fs ! k, w)" by simp
    next
      assume "e = (fs ! k, w)"
      with k show "rec_maps s r v e" unfolding rec_maps_def fs w by blast
    qed
    ultimately show ?thesis using none [OF k(1)] k(2) by auto
  next
    case False
    then have "\<not> rec_maps s r v e" by (auto simp: rec_maps_def)
    with False show ?thesis by (simp add: add_pages_outside)
  qed
  have "table_maps (add_rec i r s) p v e \<longleftrightarrow> p = m_pid r \<and> rec_maps s r v e \<or> table_maps s p v e" for p v e
    unfolding table_maps_def live rm by auto
  with pages agreesD [OF ag] show ?thesis
    by (auto simp: agrees_def)
qed

lemma agrees_keep:
  assumes "agrees s T" and "live_recs (maps s') = live_recs (maps s)"
    and "\<And>r. r \<in> live_recs (maps s) \<Longrightarrow> frames s' ! unat (m_obj r) = frames s ! unat (m_obj r)"
  shows "agrees s' T"
proof -
  have "rec_maps s' r v e = rec_maps s r v e" if "r \<in> live_recs (maps s)" for r v e
    by (rule rec_maps_cong) (rule assms(3) [OF that])
  then have "table_maps s' p v e = table_maps s p v e" for p v e
    unfolding table_maps_def assms(2) by auto
  with agreesD [OF assms(1)] show ?thesis by (simp add: agrees_def)
qed

text \<open>Freeing an object that nothing maps: its frames are no longer owned, and nothing else changes.\<close>

lemma freed_memory:
  assumes core: "shm_core s" and slot: "slot < MAX_OBJECTS" "map_count (objects s ! slot) = 0" and fd: "frames_distinct s"
  shows "owned (freed s slot) = owned s - set (frames_of s slot)" and "frames_distinct (freed s slot)"
    and "agrees s T \<Longrightarrow> agrees (freed s slot) T"
proof -
  have fo: "frames_of (freed s slot) i = (if i = slot then [] else frames_of s i)" for i
    by (simp add: frames_of_def freed_get [OF core slot(1)] emptied_def EMPTY_OBJ_def)
  have "set (frames_of s slot) \<inter> set (frames_of s i) = {}" if "i \<in> {..<MAX_OBJECTS} - {slot}" for i
    using fd slot(1) that by (simp add: frames_distinct_def)
  then show "owned (freed s slot) = owned s - set (frames_of s slot)"
    unfolding owned_split [OF slot(1)] fo by auto
  show "frames_distinct (freed s slot)"
    by (rule frames_distinct_update [OF fd fo]) simp_all
  have "frames (freed s slot) ! unat (m_obj r) = frames s ! unat (m_obj r)" if "r \<in> live_recs (maps s)" for r
  proof -
    have "0 < refs (maps s) (unat (m_obj r))" using that by (intro refs_pos) (simp_all add: live_recs_def)
    then have "unat (m_obj r) \<noteq> slot" using shm_coreD(6) [OF core slot(1)] slot(2) by auto
    then show ?thesis by (simp add: freed_get [OF core slot(1)])
  qed
  then show "agrees (freed s slot) T" if "agrees s T"
    using agrees_keep [OF that, of "freed s slot"] freed_get(3) [OF core slot(1)] by simp
qed

lemma add_rec_memory:
  assumes "shm_core s" and "rec_ok (objects s) r"
  shows "frames_of (add_rec ri r s) i = frames_of s i"
  by (simp add: frames_of_def add_rec_objects [OF assms]) (simp add: add_rec_def Let_def)

lemma drop_rec_memory:
  assumes "shm_core s" and "ri < MAX_MAP_RECORDS" and "m_in_use (maps s ! ri)"
  shows "frames_of (drop_rec ri s) i = frames_of s i"
  by (simp add: frames_of_def drop_rec_objects [OF assms]) (simp add: drop_rec_def Let_def)

text \<open>What a process exit leaves before the sweep.\<close>

definition exit_marked :: "i32 \<Rightarrow> shm \<Rightarrow> shm" where
  "exit_marked p s = forget_grants p (fold (drop_one p) [0..<MAX_MAP_RECORDS] (mark_dying p s))"

lemma exit_marked_core: "shm_core s \<Longrightarrow> shm_core (exit_marked p s)"
  unfolding exit_marked_def by (intro forget_grants_core fold_drop_core mark_dying_core) auto

lemma fold_drop_memory:
  "shm_core s \<Longrightarrow> set is \<subseteq> {0..<MAX_MAP_RECORDS} \<Longrightarrow>
    frames (fold (drop_one p) is s) = frames s \<and> frames_of (fold (drop_one p) is s) i = frames_of s i"
proof (induction "is" arbitrary: s)
  case Nil
  then show ?case by simp
next
  case (Cons k "is")
  have "frames (drop_one p k s) = frames s" by (simp add: drop_one_def drop_rec_def Let_def)
  moreover have "frames_of (drop_one p k s) i = frames_of s i"
    using drop_rec_memory [of s k i] Cons.prems by (simp add: drop_one_def)
  moreover have "shm_core (drop_one p k s)" using Cons.prems by (intro drop_one_core) auto
  ultimately show ?case using Cons.IH [of "drop_one p k s"] Cons.prems(2) by simp
qed

lemma exit_marked_memory:
  assumes core: "shm_core s"
  shows "frames (exit_marked p s) = frames s" and "i < MAX_OBJECTS \<Longrightarrow> frames_of (exit_marked p s) i = frames_of s i"
    and "live_recs (maps (exit_marked p s)) = {r \<in> live_recs (maps s). m_pid r \<noteq> p}"
proof -
  let ?t = "fold (drop_one p) [0..<MAX_MAP_RECORDS] (mark_dying p s)"
  have cm: "shm_core (mark_dying p s)" by (rule mark_dying_core [OF core])
  have ct: "shm_core ?t" using cm by (rule fold_drop_core) simp
  note m = fold_drop_memory [OF cm, of "[0..<MAX_MAP_RECORDS]" p]
  show "frames (exit_marked p s) = frames s"
    using m by (simp add: exit_marked_def forget_grants_def mark_dying_def)
  show "frames_of (exit_marked p s) i = frames_of s i" if "i < MAX_OBJECTS"
  proof -
    have "frames_of (exit_marked p s) i = frames_of ?t i"
      using that core_len [OF ct] by (simp add: exit_marked_def forget_grants_def frames_of_def)
    also have "\<dots> = frames_of (mark_dying p s) i" using m by simp
    also have "\<dots> = frames_of s i" using that core_len [OF core] by (simp add: mark_dying_def frames_of_def)
    finally show ?thesis .
  qed
  have "maps (exit_marked p s) = map (\<lambda>r. if m_in_use r \<and> m_pid r = p then EMPTY_MAP else r) (maps s)"
    using fold_drop_maps [of p MAX_MAP_RECORDS "mark_dying p s"] core_len [OF core]
    by (simp add: exit_marked_def forget_grants_def mark_dying_def)
  then show "live_recs (maps (exit_marked p s)) = {r \<in> live_recs (maps s). m_pid r \<noteq> p}"
    by (auto simp: live_recs_def EMPTY_MAP_def)
qed

lemma exit_marked_agrees:
  assumes "shm_core s" and ag: "agrees s T"
  shows "agrees (exit_marked p s) (T(p := Map.empty))"
proof -
  have "rec_maps (exit_marked p s) r v e = rec_maps s r v e" for r v e
    by (rule rec_maps_cong) (simp add: exit_marked_memory(1) [OF assms(1)])
  then have "table_maps (exit_marked p s) q v e \<longleftrightarrow> q \<noteq> p \<and> table_maps s q v e" for q v e
    unfolding table_maps_def exit_marked_memory(3) [OF assms(1)] by auto
  with agreesD [OF ag] show ?thesis by (auto simp: agrees_def)
qed

text \<open>After a fork the child's page table, a copy of its parent's, agrees with the records copied for it.\<close>

lemma fork_agrees:
  assumes f: "forking parent child s MAX_MAP_RECORDS s'" and core: "shm_core s"
    and none: "\<And>q. q \<in> set (maps s) \<Longrightarrow> m_in_use q \<Longrightarrow> m_pid q \<noteq> child" and ag: "agrees s T"
  shows "agrees s' (T(child := T parent))" and "i < MAX_OBJECTS \<Longrightarrow> frames_of s' i = frames_of s i"
proof -
  note d = forkingD [OF f]
  show "frames_of s' i = frames_of s i" if "i < MAX_OBJECTS"
    using d(7) [OF that] d(9) by (simp add: frames_of_def)
  have live: "live_recs (maps s') = live_recs (maps s) \<union> (\<lambda>r. r\<lparr>m_pid := child\<rparr>) ` {r \<in> live_recs (maps s). m_pid r = parent}"
    using d(2) core_len [OF core] by (simp add: copies_def)
  have rm: "rec_maps s' r v e = rec_maps s r v e" for r v e
    by (rule rec_maps_cong) (simp add: d(9))
  have cp: "rec_maps s (r\<lparr>m_pid := child\<rparr>) v e = rec_maps s r v e" for r v e
    by (simp add: rec_maps_def)
  have "table_maps s' q v e \<longleftrightarrow> (if q = child then table_maps s parent v e else table_maps s q v e)" for q v e
  proof -
    have "table_maps s' q v e \<longleftrightarrow> table_maps s q v e \<or> q = child \<and> table_maps s parent v e"
      unfolding table_maps_def live rm by (simp add: bex_Un cp) blast
    moreover have "\<not> table_maps s child v e" using none by (auto simp: table_maps_def live_recs_def)
    ultimately show ?thesis by auto
  qed
  with agreesD [OF ag] show "agrees s' (T(child := T parent))" by (simp add: agrees_def)
qed

section \<open>The machine below\<close>

locale shm_hal =
  fixes hal :: "('h, 'z) hal_scheme"
    and hinv :: "'h \<Rightarrow> u32 set \<Rightarrow> bool"
    and pt :: "'h \<Rightarrow> i32 \<Rightarrow> u32 \<Rightarrow> (u32 \<times> bool) option"
    and cur :: "'h \<Rightarrow> i32 option"
    and zeroed :: "'h \<Rightarrow> u32 \<Rightarrow> bool"
  assumes alloc_Some: "hinv h F \<Longrightarrow> alloc_frame hal h = (Some f, h') \<Longrightarrow>
        f \<notin> F \<and> hinv h' (insert f F) \<and> pt h' = pt h \<and> cur h' = cur h \<and> (\<forall>g \<in> F. zeroed h g \<longrightarrow> zeroed h' g)"
    and alloc_None: "hinv h F \<Longrightarrow> alloc_frame hal h = (None, h') \<Longrightarrow> hinv h' F \<and> pt h' = pt h \<and> cur h' = cur h"
    and free: "hinv h F \<Longrightarrow> f \<in> F \<Longrightarrow>
        hinv (free_frame hal f h) (F - {f}) \<and> pt (free_frame hal f h) = pt h \<and> cur (free_frame hal f h) = cur h"
    and zero: "hinv h F \<Longrightarrow> f \<in> F \<Longrightarrow>
        hinv (zero_frame hal f h) F \<and> pt (zero_frame hal f h) = pt h \<and> cur (zero_frame hal f h) = cur h
        \<and> zeroed (zero_frame hal f h) f \<and> (\<forall>g \<in> F. zeroed h g \<longrightarrow> zeroed (zero_frame hal f h) g)"
    and map_True: "hinv h F \<Longrightarrow> f \<in> F \<Longrightarrow> in_region v \<Longrightarrow> cur h = Some p \<Longrightarrow> map_page hal p v f w h = (True, h') \<Longrightarrow>
        hinv h' F \<and> pt h' = (pt h)(p := (pt h p)(v \<mapsto> (f, w))) \<and> cur h' = cur h"
    and map_False: "hinv h F \<Longrightarrow> f \<in> F \<Longrightarrow> in_region v \<Longrightarrow> cur h = Some p \<Longrightarrow> map_page hal p v f w h = (False, h') \<Longrightarrow>
        hinv h' F \<and> pt h' = pt h \<and> cur h' = cur h"
    and unmap: "hinv h F \<Longrightarrow> in_region v \<Longrightarrow> cur h = Some p \<Longrightarrow>
        hinv (unmap_page hal p v h) F \<and> pt (unmap_page hal p v h) = (pt h)(p := (pt h p)(v := None))
        \<and> cur (unmap_page hal p v h) = cur h"
begin

lemma free_all:
  "hinv h F \<Longrightarrow> distinct fs \<Longrightarrow> set fs \<subseteq> F \<Longrightarrow>
    hinv (fold (free_frame hal) fs h) (F - set fs) \<and> pt (fold (free_frame hal) fs h) = pt h
    \<and> cur (fold (free_frame hal) fs h) = cur h"
proof (induction fs arbitrary: h F)
  case Nil
  then show ?case by simp
next
  case (Cons f fs)
  then have f: "hinv (free_frame hal f h) (F - {f})" "pt (free_frame hal f h) = pt h" "cur (free_frame hal f h) = cur h"
    using free [of h F f] by simp_all
  have "set fs \<subseteq> F - {f}" using Cons.prems by auto
  with Cons.IH [OF f(1)] Cons.prems f show ?case by (simp add: Diff_insert2 [of F f "set fs"])
qed

lemma alloc_all:
  assumes "hinv h (F \<union> set (take k fs))" and "distinct (take k fs)" and "set (take k fs) \<inter> F = {}"
    and "n \<le> length fs" and "k \<le> n" and "alloc_frames hal [k..<n] fs h = (b, fs', h')"
  shows "pt h' = pt h \<and> cur h' = cur h
    \<and> (if b then hinv h' (F \<union> set (take n fs')) \<and> distinct (take n fs') \<and> set (take n fs') \<inter> F = {}
         \<and> ((\<forall>g \<in> set (take k fs). zeroed h g) \<longrightarrow> (\<forall>g \<in> set (take n fs'). zeroed h' g))
       else hinv h' F)"
  using assms
proof (induction "n - k" arbitrary: k fs h)
  case 0
  then have "k = n" by simp
  with 0 show ?case by auto
next
  case (Suc m)
  then have k: "k < n" "[k..<n] = k # [Suc k..<n]" "k < length fs" by (simp_all add: upt_conv_Cons)
  obtain r h1 where al: "alloc_frame hal h = (r, h1)" by force
  show ?case
  proof (cases r)
    case None
    with Suc.prems(6) k al have b: "\<not> b" and ff: "free_frames hal [0..<k] fs h1 = (fs', h')" by auto
    have h1: "hinv h1 (F \<union> set (take k fs))" "pt h1 = pt h" "cur h1 = cur h"
      using alloc_None [OF Suc.prems(1)] al None by simp_all
    have "h' = fold (free_frame hal) (take k fs) h1"
      using free_frames_snd [of "[0..<k]" hal fs h1] ff k(3) by (simp add: map_nth_take)
    moreover have "F \<union> set (take k fs) - set (take k fs) = F" using Suc.prems(3) by auto
    ultimately show ?thesis
      using free_all [OF h1(1) Suc.prems(2)] h1 b by auto
  next
    case (Some f)
    let ?fs = "fs[k := f]" and ?h = "zero_frame hal f h1"
    from alloc_Some [OF Suc.prems(1), of f h1] al Some
    have f: "f \<notin> F \<union> set (take k fs)" "hinv h1 (insert f (F \<union> set (take k fs)))" "pt h1 = pt h" "cur h1 = cur h"
      "\<forall>g \<in> F \<union> set (take k fs). zeroed h g \<longrightarrow> zeroed h1 g" by simp_all
    from zero [OF f(2), of f]
    have z: "hinv ?h (insert f (F \<union> set (take k fs)))" "pt ?h = pt h1" "cur ?h = cur h1" "zeroed ?h f"
      "\<forall>g \<in> insert f (F \<union> set (take k fs)). zeroed h1 g \<longrightarrow> zeroed ?h g" by simp_all
    have tk: "take (Suc k) ?fs = take k fs @ [f]" using k(3) by (simp add: take_Suc_conv_app_nth)
    have "alloc_frames hal [Suc k..<n] ?fs ?h = (b, fs', h')" using Suc.prems(6) k al Some by simp
    moreover have "hinv ?h (F \<union> set (take (Suc k) ?fs))" unfolding tk using z(1) by (simp add: Un_commute)
    moreover have "distinct (take (Suc k) ?fs)" unfolding tk using Suc.prems(2) f(1) by simp
    moreover have "set (take (Suc k) ?fs) \<inter> F = {}" unfolding tk using Suc.prems(3) f(1) by auto
    ultimately have "pt h' = pt ?h \<and> cur h' = cur ?h
      \<and> (if b then hinv h' (F \<union> set (take n fs')) \<and> distinct (take n fs') \<and> set (take n fs') \<inter> F = {}
         \<and> ((\<forall>g \<in> set (take (Suc k) ?fs). zeroed ?h g) \<longrightarrow> (\<forall>g \<in> set (take n fs'). zeroed h' g))
       else hinv h' F)"
      using Suc.hyps(2) Suc.prems(4) k(1) by (intro Suc.hyps(1)) simp_all
    moreover have "\<forall>g \<in> set (take (Suc k) ?fs). zeroed ?h g" if "\<forall>g \<in> set (take k fs). zeroed h g"
      unfolding tk using that f(5) z(4,5) by auto
    ultimately show ?thesis using z(2,3) f(3,4) by auto
  qed
qed

lemma unmap_all:
  assumes "hinv h F" and "cur h = Some p" and "\<And>i. i \<in> set is \<Longrightarrow> in_region (page_addr addr i)"
  shows "hinv (unmap_pages hal p addr is h) F
    \<and> pt (unmap_pages hal p addr is h) = (pt h)(p := \<lambda>v. if v \<in> page_addr addr ` set is then None else pt h p v)
    \<and> cur (unmap_pages hal p addr is h) = cur h"
  using assms
proof (induction "is" arbitrary: h)
  case Nil
  then show ?case by (simp add: unmap_pages_def)
next
  case (Cons i "is")
  let ?h = "unmap_page hal p (page_addr addr i) h"
  from unmap [OF Cons.prems(1) _ Cons.prems(2), of "page_addr addr i"] Cons.prems(3)
  have u: "hinv ?h F" "pt ?h = (pt h)(p := (pt h p)(page_addr addr i := None))" "cur ?h = cur h" by simp_all
  have "unmap_pages hal p addr (i # is) h = unmap_pages hal p addr is ?h" by (simp add: unmap_pages_def)
  with Cons.IH [OF u(1)] Cons.prems u show ?case by (auto simp: fun_eq_iff)
qed

text \<open>Mapping all pages adds exactly them; when one fails, none is left.\<close>

lemma map_all:
  assumes "hinv h F" and "cur h = Some p" and "set (take n fs) \<subseteq> F" and "n \<le> length fs"
    and reg: "\<And>i. i < n \<Longrightarrow> in_region (page_addr addr i)" and "k \<le> n"
    and none: "\<And>i. i < n \<Longrightarrow> T (page_addr addr i) = None"
    and "pt h p = add_pages addr fs w T k" and "map_pages hal p addr w fs [k..<n] h = (b, h')"
  shows "hinv h' F \<and> cur h' = cur h \<and> pt h' = (pt h)(p := if b then add_pages addr fs w T n else T)"
  using assms(1,2,6,8,9)
proof (induction "n - k" arbitrary: k h)
  case 0
  then have "k = n" by simp
  with 0 show ?case by (auto simp: fun_eq_iff)
next
  case (Suc m)
  then have k: "k < n" "[k..<n] = k # [Suc k..<n]" by (simp_all add: upt_conv_Cons)
  have f: "fs ! k \<in> F" using assms(3,4) k(1) by (auto simp: in_set_conv_nth subset_iff)
  obtain c h1 where mp: "map_page hal p (page_addr addr k) (fs ! k) w h = (c, h1)" by force
  show ?case
  proof (cases c)
    case True
    from map_True [OF Suc.prems(1) f reg [OF k(1)] Suc.prems(2)] mp True
    have h1: "hinv h1 F" "pt h1 = (pt h)(p := (pt h p)(page_addr addr k \<mapsto> (fs ! k, w)))" "cur h1 = cur h" by auto
    have "map_pages hal p addr w fs [Suc k..<n] h1 = (b, h')" using Suc.prems(5) k mp True by simp
    moreover have "pt h1 p = add_pages addr fs w T (Suc k)" using h1(2) Suc.prems(4) by simp
    ultimately have "hinv h' F \<and> cur h' = cur h1 \<and> pt h' = (pt h1)(p := if b then add_pages addr fs w T n else T)"
      using Suc.hyps(2) h1 Suc.prems(2) k(1) by (intro Suc.hyps(1) [of "Suc k" h1]) simp_all
    with h1 show ?thesis by (auto simp: fun_eq_iff)
  next
    case False
    from map_False [OF Suc.prems(1) f reg [OF k(1)] Suc.prems(2)] mp False
    have h1: "hinv h1 F" "pt h1 = pt h" "cur h1 = cur h" by auto
    have b: "\<not> b" and h': "h' = unmap_pages hal p addr [0..<k] h1" using Suc.prems(5) k mp False by auto
    have un: "hinv h' F" "cur h' = cur h1"
      "pt h' = (pt h1)(p := \<lambda>v. if v \<in> page_addr addr ` set [0..<k] then None else pt h1 p v)"
      unfolding h' using unmap_all [OF h1(1), of p "[0..<k]" addr] h1(3) Suc.prems(2) reg k(1) by auto
    have eq: "(\<lambda>v. if v \<in> page_addr addr ` set [0..<k] then None else add_pages addr fs w T k v) = T"
      using none k(1) by (auto simp: fun_eq_iff add_pages_outside)
    have "pt h' = (pt h)(p := T)" using un(3) unfolding h1(2) Suc.prems(4) eq .
    with un b h1 show ?thesis by simp
  qed
qed

text \<open>The table, the frames and the page tables agree.\<close>

definition coherent :: "shm \<Rightarrow> 'h \<Rightarrow> bool" where
  "coherent s h \<longleftrightarrow> shm_ok s \<and> hinv h (owned s) \<and> frames_distinct s \<and> agrees s (pt h)"

lemma coherentD:
  assumes "coherent s h"
  shows "shm_ok s" "shm_core s" "hinv h (owned s)" "frames_distinct s" "agrees s (pt h)"
  using assms unfolding coherent_def by (auto intro: shm_ok_core)

lemma coherentI:
  "shm_ok s \<Longrightarrow> hinv h (owned s) \<Longrightarrow> frames_distinct s \<Longrightarrow> agrees s (pt h) \<Longrightarrow> coherent s h"
  by (simp add: coherent_def)

lemma create_new_memory:
  assumes core: "shm_core s" and slot: "slot < MAX_OBJECTS" "\<not> in_use (objects s ! slot)"
    and s': "s' = s\<lparr>frames := (frames s)[slot := fs],
        objects := (objects s)[slot := fresh_object (objects s ! slot) p n], total_pages := total_pages s + n\<rparr>"
    and fd: "frames_distinct s" and fs: "distinct (take (unat n) fs)" "set (take (unat n) fs) \<inter> owned s = {}"
  shows "frames_of s' slot = take (unat n) fs" and "owned s' = owned s \<union> set (take (unat n) fs)"
    and "frames_distinct s'" and "agrees s T \<Longrightarrow> agrees s' T"
proof -
  have fo: "frames_of s' i = (if i = slot then take (unat n) fs else frames_of s i)" for i
    using slot(1) core_len [OF core] unfolding s' by (simp add: frames_of_def fresh_object_def nth_list_update)
  then show "frames_of s' slot = take (unat n) fs" by simp
  have empty: "frames_of s slot = []" by (rule frames_of_free [OF core slot])
  show "owned s' = owned s \<union> set (take (unat n) fs)"
    unfolding owned_split [OF slot(1)] fo using empty by auto
  show "frames_distinct s'"
    by (rule frames_distinct_update [OF fd fo fs(1)]) (use fs(2) in \<open>auto simp: owned_def\<close>)
  have "frames s' ! unat (m_obj q) = frames s ! unat (m_obj q)" if "q \<in> live_recs (maps s)" for q
  proof -
    have "in_use (objects s ! unat (m_obj q))" using rec_okD(2) [OF live_rec_ok [OF core that]] .
    then have "unat (m_obj q) \<noteq> slot" using slot(2) by auto
    then show ?thesis unfolding s' by simp
  qed
  then show "agrees s' T" if "agrees s T"
    using agrees_keep [OF that, of s'] unfolding s' by simp
qed

lemma create_coherent:
  assumes co: "coherent s h" and eq: "create hal p sz flags s h = (r, s', h')"
  shows "coherent s' h' \<and> cur h' = cur h \<and> (\<forall>hdl n. r = Ok (hdl, n) \<longrightarrow> (\<exists>slot < MAX_OBJECTS. lookup s' hdl = Ok slot
      \<and> owner (objects s' ! slot) = p \<and> set (frames_of s' slot) \<inter> owned s = {} \<and> (\<forall>f \<in> set (frames_of s' slot). zeroed h' f)))"
  using coherentD(2) [OF co] eq
proof (cases rule: create_cases)
  case refused
  with co show ?thesis by simp
next
  case (nomem slot fs)
  note d = coherentD [OF co]
  have "length (frames s ! slot) = MAX_PAGES_PER_OBJECT" using shm_coreD(5) [OF d(2) nomem(3)] by (simp add: frames_ok_def)
  then have "pt h' = pt h \<and> cur h' = cur h \<and> hinv h' (owned s)"
    using alloc_all [of h "owned s" 0 "frames s ! slot" _ False fs h'] nomem(5,6) d(3) by simp
  with nomem(1,2) d show ?thesis by (simp add: coherent_def)
next
  case (new slot fs)
  note d = coherentD [OF co]
  let ?n = "(sz + PAGE_SIZE - 1) div PAGE_SIZE"
  have "length (frames s ! slot) = MAX_PAGES_PER_OBJECT" using shm_coreD(5) [OF d(2) new(1)] by (simp add: frames_ok_def)
  then have al: "pt h' = pt h" "cur h' = cur h" "hinv h' (owned s \<union> set (take (unat ?n) fs))" "distinct (take (unat ?n) fs)"
      "set (take (unat ?n) fs) \<inter> owned s = {}" "\<forall>g \<in> set (take (unat ?n) fs). zeroed h' g"
    using alloc_all [of h "owned s" 0 "frames s ! slot" "unat ?n" True fs h'] new(4,6) d(3) by simp_all
  note m = create_new_memory [OF d(2) new(1,2,7) d(4) al(4,5)]
  have ok': "shm_ok s'" using create_ok(1) [OF d(1) eq] .
  have co': "coherent s' h'"
    using ok' al(1,3) m(2,3) m(4) [OF d(5)] by (intro coherentI) simp_all
  have ob: "objects s' ! slot = fresh_object (objects s ! slot) p ?n"
    using new(1) core_len [OF d(2)] unfolding new(7) by simp
  have "lookup s' (handle_for s' slot) = Ok slot"
    using shm_ok_core [OF ok'] new(1) by (rule lookup_handle) (simp_all add: ob fresh_object_def)
  then have "\<exists>slot < MAX_OBJECTS. lookup s' hdl = Ok slot \<and> owner (objects s' ! slot) = p
      \<and> set (frames_of s' slot) \<inter> owned s = {} \<and> (\<forall>f \<in> set (frames_of s' slot). zeroed h' f)"
    if "r = Ok (hdl, n)" for hdl n
    using that new(1,8) al(5,6) m(1) by (intro exI [of _ slot]) (simp add: ob fresh_object_def)
  with co' al(2) show ?thesis by blast
qed

lemma grant_coherent:
  assumes co: "coherent s h" and eq: "grant hal c handle t rights s h = (r, s', h')"
  shows "coherent s' h' \<and> h' = h"
proof -
  note d = coherentD [OF co]
  have g: "shm_ok s'" "h' = h" using grant_ok(1,3) [OF d(1) eq] .
  have "maps s' = maps s \<and> frames s' = frames s \<and> (\<forall>i. pages (objects s' ! i) = pages (objects s ! i))"
    using eq
  proof (cases rule: grant_cases)
    case (changed slot gs)
    have "slot < length (objects s)" using lookup_Ok(1) [OF changed(3)] core_len [OF d(2)] by simp
    then show ?thesis unfolding changed(7) by (simp add: set_grants_def nth_list_update)
  qed simp
  then have "agrees s' (pt h)" "owned s' = owned s" "frames_distinct s'"
    using d(4) agrees_keep [OF d(5), of s'] by (simp_all add: owned_def frames_distinct_def frames_of_def)
  with g d(3) show ?thesis by (auto intro: coherentI)
qed

lemma freed_coherent:
  assumes "shm_core s" and "slot < MAX_OBJECTS" and "map_count (objects s ! slot) = 0" and "frames_distinct s"
    and "hinv h (owned s)" and "agrees s (pt h)"
    and h': "h' = fold (free_frame hal) (frames_of s slot) h"
  shows "hinv h' (owned (freed s slot)) \<and> frames_distinct (freed s slot) \<and> agrees (freed s slot) (pt h') \<and> cur h' = cur h"
proof -
  have "distinct (frames_of s slot)" "set (frames_of s slot) \<subseteq> owned s"
    using assms(2,4) by (auto simp: frames_distinct_def owned_def)
  from free_all [OF assms(5) this] freed_memory(1,2) [OF assms(1-4)] freed_memory(3) [OF assms(1-4,6)] h'
  show ?thesis by simp
qed

lemma destroy_coherent:
  assumes co: "coherent s h" and eq: "destroy hal p handle s h = (r, s', h')"
  shows "coherent s' h' \<and> cur h' = cur h"
  using coherentD(2) [OF co] eq
proof (cases rule: destroy_cases)
  case refused
  with co show ?thesis by simp
next
  case (deferred slot)
  note d = coherentD [OF co]
  have "slot < length (objects s)" using lookup_Ok(1) [OF deferred(3)] core_len [OF d(2)] by simp
  then have "maps s' = maps s \<and> frames s' = frames s \<and> (\<forall>i. pages (objects s' ! i) = pages (objects s ! i))"
    unfolding deferred(6) by (simp add: nth_list_update)
  then have "agrees s' (pt h)" "owned s' = owned s" "frames_distinct s'"
    using d(4) agrees_keep [OF d(5), of s'] by (simp_all add: owned_def frames_distinct_def frames_of_def)
  then show ?thesis
    unfolding deferred(2) using d(3) destroy_ok(1) [OF d(1) eq] by (intro conjI coherentI) simp_all
next
  case (freed slot)
  note d = coherentD [OF co]
  have "h' = fold (free_frame hal) (frames_of s slot) h" unfolding freed(6) frames_of_def ..
  from freed_coherent [OF d(2) lookup_Ok(1) [OF freed(2)] freed(4) d(4,3,5) this] destroy_ok(1) [OF d(1) eq]
  show ?thesis unfolding freed(5) by (simp add: coherent_def)
qed

lemma map_gap:
  assumes co: "coherent s h" and c: "cur h = Some p" and l: "lookup s handle = Ok slot"
    and gap: "find_gap s p (pages (objects s ! slot) + 1) SHM_VIRT_BASE SHM_VIRT_END = Some addr"
    and mp: "map_pages hal p addr w (frames s ! slot) [0..<unat (pages (objects s ! slot))] h = (b, h')"
  shows "hinv h' (owned s) \<and> cur h' = cur h \<and> pt h' = (pt h)(p := if b
    then add_pages addr (frames s ! slot) w (pt h p) (unat (pages (objects s ! slot))) else pt h p)"
proof -
  note d = coherentD [OF co]
  have slot: "slot < MAX_OBJECTS" by (rule lookup_Ok(1) [OF l])
  let ?r = "\<lparr>m_in_use = True, m_pid = p, m_addr = addr, m_pages = pages (objects s ! slot), m_obj = of_nat slot, m_rights = 1\<rparr>"
  have g: "rec_ok (objects s) ?r" "\<And>q. q \<in> live_recs (maps s) \<Longrightarrow> m_pid q = m_pid ?r \<Longrightarrow> apart ?r q"
    using gap_rec(2,3) [OF d(2) l gap, of 1] by (simp_all add: live_recs_def)
  have len: "unat (pages (objects s ! slot)) \<le> length (frames s ! slot)"
    using length_frames_of [OF d(2) slot] by (simp add: frames_of_def)
  have sub: "set (take (unat (pages (objects s ! slot))) (frames s ! slot)) \<subseteq> owned s"
    using slot by (auto simp: owned_def frames_of_def)
  have none: "pt h p (page_addr addr i) = None" if "i < unat (pages (objects s ! slot))" for i
    using rec_unmapped [OF d(2) g d(5), of i] that by simp
  have reg: "in_region (page_addr addr i)" if "i < unat (pages (objects s ! slot))" for i
    using rec_page_addr(2) [OF g(1), of i] that by simp
  show ?thesis
    by (rule map_all [where T = "pt h p" and k = 0, OF d(3) c sub len reg _ none _ mp]) simp_all
qed

lemma map_coherent:
  assumes co: "coherent s h" and c: "cur h = Some p" and eq: "shm_map hal p handle want s h = (r, s', h')"
  shows "coherent s' h' \<and> cur h' = cur h"
  using coherentD(2) [OF co] eq
proof (cases rule: map_cases)
  case refused
  with co show ?thesis by simp
next
  case (nomem slot addr)
  from map_gap [OF co c nomem(3-5)] coherentD [OF co] nomem(2) show ?thesis by (simp add: coherent_def)
next
  case (mapped slot addr ri)
  note d = coherentD [OF co]
  let ?r = "\<lparr>m_in_use = True, m_pid = p, m_addr = addr, m_pages = pages (objects s ! slot), m_obj = of_nat slot, m_rights = want\<rparr>"
  have g: "unat (m_obj ?r) = slot" "rec_ok (objects s) ?r" "\<And>q. q \<in> live_recs (maps s) \<Longrightarrow> m_pid q = m_pid ?r \<Longrightarrow> apart ?r q"
    using gap_rec [OF d(2) mapped(2,9,3)] by (simp_all add: live_recs_def)
  note mg = map_gap [OF co c mapped(2,9,10)]
  have ag: "agrees s' (pt h')"
    using agrees_add [OF d(2) mapped(7,8) g(2) _ g(3) d(5), of "frames s ! slot" "want AND RIGHT_WRITE \<noteq> 0"] mg g(1)
    unfolding mapped(11) by simp
  have "owned s' = owned s" "frames_distinct s'"
    unfolding mapped(11) owned_def frames_distinct_def add_rec_memory [OF d(2) g(2)]
    using d(4) by (simp_all add: frames_distinct_def)
  with ag mg map_ok(1) [OF d(1) eq] show ?thesis by (simp add: coherent_def)
qed

lemma unmap_coherent:
  assumes co: "coherent s h" and c: "cur h = Some p" and eq: "unmap hal p addr s h = (r, s', h')"
  shows "coherent s' h' \<and> cur h' = cur h"
proof -
  note d = coherentD [OF co]
  have step: "hinv h1 (owned (drop_rec ri s)) \<and> frames_distinct (drop_rec ri s) \<and> agrees (drop_rec ri s) (pt h1) \<and> cur h1 = cur h"
    if ri: "ri < MAX_MAP_RECORDS" "m_in_use (maps s ! ri)" "m_pid (maps s ! ri) = p" "m_addr (maps s ! ri) = addr"
      and h1: "h1 = unmap_pages hal p addr [0..<unat (m_pages (maps s ! ri))] h" for ri h1
  proof -
    have "maps s ! ri \<in> set (maps s)" using ri(1) core_len [OF d(2)] by simp
    then have r: "rec_ok (objects s) (maps s ! ri)" by (rule shm_coreD(7) [OF d(2) _ ri(2)])
    have "in_region (page_addr addr i)" if "i \<in> set [0..<unat (m_pages (maps s ! ri))]" for i
      using rec_page_addr(2) [OF r] ri(4) that by simp
    from unmap_all [of h "owned s" p "[0..<unat (m_pages (maps s ! ri))]" addr, OF d(3) c this]
    have un: "hinv h1 (owned s)" "cur h1 = cur h"
      "pt h1 = (pt h)(p := \<lambda>v. if v \<in> page_addr addr ` {0..<unat (m_pages (maps s ! ri))} then None else pt h p v)"
      unfolding h1 by simp_all
    have "agrees (drop_rec ri s) (pt h1)"
      using agrees_drop [OF d(2) ri(1,2) d(5)] unfolding ri(3,4) un(3) .
    moreover have "owned (drop_rec ri s) = owned s" "frames_distinct (drop_rec ri s)"
      using d(4) by (simp_all add: owned_def frames_distinct_def drop_rec_memory [OF d(2) ri(1,2)])
    ultimately show ?thesis using un by simp
  qed
  have ok': "shm_ok s'" by (rule unmap_ok(1) [OF d(1) eq])
  from d(2) eq show ?thesis
  proof (cases rule: unmap_cases)
    case refused
    with co show ?thesis by simp
  next
    case (unmapped ri)
    from step [OF unmapped(2-5,7)] ok' show ?thesis unfolding unmapped(6) by (simp add: coherent_def)
  next
    case (freed ri slot)
    note st = step [OF freed(2-5) refl]
    have core: "shm_core (drop_rec ri s)" by (rule drop_rec_core [OF d(2) freed(2,3)])
    have "h' = fold (free_frame hal) (frames_of (drop_rec ri s) slot) (unmap_pages hal p addr [0..<unat (m_pages (maps s ! ri))] h)"
      unfolding freed(11) frames_of_def by (simp add: drop_rec_def Let_def)
    from freed_coherent [OF core freed(7,9) _ _ _ this] st ok' show ?thesis
      unfolding freed(10) by (simp add: coherent_def)
  qed
qed

text \<open>
  An exiting process: its records go, its page table is torn down by the caller, and objects that nothing
  maps any more give their frames back.
\<close>

lemma sweep_memory:
  "shm_core s \<Longrightarrow> set ks \<subseteq> {0..<MAX_OBJECTS} \<Longrightarrow> frames_distinct s \<Longrightarrow> hinv h (owned s) \<Longrightarrow> agrees s T
    \<Longrightarrow> pt h = U \<Longrightarrow> sweep hal ks s h = (s', h')
    \<Longrightarrow> frames_distinct s' \<and> hinv h' (owned s') \<and> agrees s' T \<and> pt h' = U \<and> cur h' = cur h"
proof (induction ks arbitrary: s h)
  case Nil
  then show ?case by simp
next
  case (Cons k ks)
  then have k: "k < MAX_OBJECTS" and ks: "set ks \<subseteq> {0..<MAX_OBJECTS}" by simp_all
  from Cons.prems(1) k Cons.prems(7) show ?case
  proof (cases rule: sweep_step)
    case free
    let ?h = "fold (free_frame hal) (frames_of s k) h"
    have z: "map_count (objects s ! k) = 0" using free(1) by (simp add: doomed_def)
    have "distinct (frames_of s k)" "set (frames_of s k) \<subseteq> owned s"
      using Cons.prems(3) k by (auto simp: frames_distinct_def owned_def)
    from free_all [OF Cons.prems(4) this] have f: "hinv ?h (owned (freed s k))" "pt ?h = U" "cur ?h = cur h"
      using freed_memory(1) [OF Cons.prems(1) k z Cons.prems(3)] Cons.prems(6) by simp_all
    have "sweep hal ks (freed s k) ?h = (s', h')" using free(3) by (simp add: frames_of_def)
    from Cons.IH [OF free(2) ks freed_memory(2) [OF Cons.prems(1) k z Cons.prems(3)] f(1)
        freed_memory(3) [OF Cons.prems(1) k z Cons.prems(3,5)] f(2) this] f(3)
    show ?thesis by simp
  next
    case keep
    from Cons.IH [OF Cons.prems(1) ks Cons.prems(3-6) keep(2)] show ?thesis .
  qed
qed

lemma exit_coherent:
  assumes co: "coherent s h" and eq: "process_exit hal p s h = (s', h')"
  shows "shm_ok s' \<and> hinv h' (owned s') \<and> frames_distinct s' \<and> agrees s' ((pt h)(p := Map.empty)) \<and> pt h' = pt h \<and> cur h' = cur h"
proof -
  note d = coherentD [OF co]
  have "frames_distinct (exit_marked p s)" "hinv h (owned (exit_marked p s))"
    using d(3,4) by (simp_all add: frames_distinct_def owned_def exit_marked_memory(2) [OF d(2)])
  from sweep_memory [OF exit_marked_core [OF d(2)] _ this exit_marked_agrees [OF d(2,5)] refl, of "[0..<MAX_OBJECTS]" s' h']
    eq process_exit_ok [OF d(1) eq]
  show ?thesis by (simp add: process_exit_def exit_marked_def)
qed

lemma fork_coherent:
  assumes co: "coherent s h" and ne: "parent \<noteq> child" and eq: "fork parent child s = (Ok (), s')"
    and h': "hinv h' (owned s)" "pt h' = (pt h)(child := pt h parent)"
  shows "coherent s' h'"
  using coherentD(1) [OF co] ne eq
proof (cases rule: fork_cases)
  case forked
  note d = coherentD [OF co]
  note fa = fork_agrees [OF forked(2) d(2) forked(3) d(5)]
  have "owned s' = owned s" "frames_distinct s'"
    using d(4) fa(2) by (simp_all add: owned_def frames_distinct_def)
  with fa(1) h' fork_ok(1) [OF d(1) ne eq] show ?thesis by (simp add: coherent_def)
qed simp

end

end
