(* ===== verification/Pmm.thy ===== *)
theory Pmm
  imports Prelude
begin

text \<open>
  The physical memory manager (\<open>src/kernel/arch/x86/mm/pmm.c\<close>): one bit per 4 KB frame, set when the frame
  is used.  The lock is not modelled: every function runs as one step under it.
\<close>

section \<open>Data\<close>

definition PMM_FRAME_SIZE :: u32 where [kconst]: "PMM_FRAME_SIZE = 4096"
definition MAX_TRACKED_FRAMES :: u32 where [kconst]: "MAX_TRACKED_FRAMES = 256 * 1024"
definition BITMAP_WORDS :: nat where [kconst]: "BITMAP_WORDS = 8192"
definition PAGING_IDENTITY_MAP_BYTES :: u32 where [kconst]: "PAGING_IDENTITY_MAP_BYTES = 64 * 1024 * 1024"

record pmm =
  bitmap :: "u32 list"
  total_frames :: u32

record pmm_stats =
  st_total_frames :: u32
  st_used_frames :: u32
  st_free_frames :: u32

section \<open>The bitmap\<close>

definition bitmap_set :: "u32 \<Rightarrow> pmm \<Rightarrow> pmm" where
  "bitmap_set f m = m\<lparr>bitmap := (bitmap m)[unat (f div 32) :=
     bitmap m ! unat (f div 32) OR push_bit (unat (f mod 32)) 1]\<rparr>"

definition bitmap_clear :: "u32 \<Rightarrow> pmm \<Rightarrow> pmm" where
  "bitmap_clear f m = m\<lparr>bitmap := (bitmap m)[unat (f div 32) :=
     bitmap m ! unat (f div 32) AND NOT (push_bit (unat (f mod 32)) 1)]\<rparr>"

definition bitmap_test :: "pmm \<Rightarrow> u32 \<Rightarrow> bool" where
  "bitmap_test m f \<longleftrightarrow> bitmap m ! unat (f div 32) AND push_bit (unat (f mod 32)) 1 \<noteq> 0"

text \<open>The loops over the frames of an address range, cut off at what the bitmap tracks.\<close>

definition reserve_range :: "u32 \<Rightarrow> u32 \<Rightarrow> pmm \<Rightarrow> pmm" where
  "reserve_range lo hi m =
    fold (\<lambda>f. bitmap_set (of_nat f))
      [unat (lo div PMM_FRAME_SIZE)..<min (unat ((hi + PMM_FRAME_SIZE - 1) div PMM_FRAME_SIZE)) (unat MAX_TRACKED_FRAMES)] m"

definition free_one :: "nat \<Rightarrow> pmm \<Rightarrow> pmm" where
  "free_one f m =
    (let m1 = bitmap_clear (of_nat f) m in
     if of_nat f + 1 > total_frames m1 then m1\<lparr>total_frames := of_nat f + 1\<rparr> else m1)"

definition free_range :: "u32 \<Rightarrow> u32 \<Rightarrow> pmm \<Rightarrow> pmm" where
  "free_range lo hi m =
    fold free_one [unat (lo div PMM_FRAME_SIZE)..<min (unat (hi div PMM_FRAME_SIZE)) (unat MAX_TRACKED_FRAMES)] m"

definition allocatable_frames :: "pmm \<Rightarrow> u32" where
  "allocatable_frames m =
    (let cap = PAGING_IDENTITY_MAP_BYTES div PMM_FRAME_SIZE in if total_frames m < cap then total_frames m else cap)"

section \<open>Allocation\<close>

definition pmm_alloc_frame :: "pmm \<Rightarrow> u32 \<times> pmm" where
  "pmm_alloc_frame m =
    (case position (\<lambda>f. \<not> bitmap_test m (of_nat f)) [0..<unat (allocatable_frames m)] of
       Some f \<Rightarrow> (of_nat f * PMM_FRAME_SIZE, bitmap_set (of_nat f) m)
     | None \<Rightarrow> (0, m))"

text \<open>The scan for a run of free frames, with its two counters.\<close>

fun contiguous_scan :: "u32 \<Rightarrow> nat list \<Rightarrow> u32 \<Rightarrow> u32 \<Rightarrow> pmm \<Rightarrow> u32 option" where
  "contiguous_scan count [] run_start run_len m = None"
| "contiguous_scan count (f # fs) run_start run_len m =
    (if bitmap_test m (of_nat f) then contiguous_scan count fs run_start 0 m
     else let start = (if run_len = 0 then of_nat f else run_start); len = run_len + 1 in
       if len = count then Some start else contiguous_scan count fs start len m)"

definition pmm_alloc_contiguous :: "u32 \<Rightarrow> pmm \<Rightarrow> u32 \<times> pmm" where
  "pmm_alloc_contiguous count m =
    (if count = 0 then (0, m)
     else case contiguous_scan count [0..<unat (allocatable_frames m)] 0 0 m of
       Some start \<Rightarrow> (start * PMM_FRAME_SIZE, fold (\<lambda>i. bitmap_set (of_nat i)) [unat start..<unat start + unat count] m)
     | None \<Rightarrow> (0, m))"

definition pmm_free_frame :: "u32 \<Rightarrow> pmm \<Rightarrow> pmm" where
  "pmm_free_frame phys m =
    (let f = phys div PMM_FRAME_SIZE in if f < MAX_TRACKED_FRAMES then bitmap_clear f m else m)"

definition pmm_get_stats :: "pmm \<Rightarrow> pmm_stats" where
  "pmm_get_stats m =
    (let used = of_nat (count_if (\<lambda>f. bitmap_test m (of_nat f)) [0..<unat (total_frames m)]) in
     \<lparr>st_total_frames = total_frames m, st_used_frames = used, st_free_frames = total_frames m - used\<rparr>)"

section \<open>What the bitmap says\<close>

text \<open>The frame at a physical address is used.\<close>

definition used :: "pmm \<Rightarrow> nat \<Rightarrow> bool" where
  "used m f \<longleftrightarrow> bit (bitmap m ! (f div 32)) (f mod 32)"

definition pmm_ok :: "pmm \<Rightarrow> bool" where
  "pmm_ok m \<longleftrightarrow> length (bitmap m) = BITMAP_WORDS \<and> used m 0"

lemma and_push_bit_iff: "w AND push_bit n 1 \<noteq> 0 \<longleftrightarrow> bit w n" for w :: "'a::len word"
proof
  assume "w AND push_bit n 1 \<noteq> 0"
  then obtain k where "bit (w AND push_bit n 1) k" by (metis bit_eqI bit_0_eq bot_apply bot_bool_def)
  then show "bit w n" by (auto simp: bit_simps)
next
  assume w: "bit w n"
  then have "n < LENGTH('a)" by (rule bit_imp_le_length)
  with w have "bit (w AND push_bit n 1) n" by (simp add: bit_simps)
  then show "w AND push_bit n 1 \<noteq> 0" by auto
qed

lemma bitmap_test_used: "bitmap_test m f \<longleftrightarrow> used m (unat f)"
  unfolding bitmap_test_def used_def and_push_bit_iff by (simp add: unat_div unat_mod)

lemma used_bitmap_set:
  assumes "unat f div 32 < length (bitmap m)"
  shows "used (bitmap_set f m) g \<longleftrightarrow> g = unat f \<or> used m g"
proof -
  have "g div 32 = unat f div 32 \<and> g mod 32 = unat f mod 32 \<longleftrightarrow> g = unat f"
    by (metis div_mult_mod_eq)
  then show ?thesis
    using assms by (auto simp: used_def bitmap_set_def unat_div unat_mod nth_list_update bit_simps)
qed

lemma used_bitmap_clear:
  assumes "unat f div 32 < length (bitmap m)"
  shows "used (bitmap_clear f m) g \<longleftrightarrow> g \<noteq> unat f \<and> used m g"
proof -
  have "g div 32 = unat f div 32 \<and> g mod 32 = unat f mod 32 \<longleftrightarrow> g = unat f"
    by (metis div_mult_mod_eq)
  then show ?thesis
    using assms by (auto simp: used_def bitmap_clear_def unat_div unat_mod nth_list_update bit_simps)
qed

lemma pmm_len [simp]: "length (bitmap (bitmap_set f m)) = length (bitmap m)" "length (bitmap (bitmap_clear f m)) = length (bitmap m)"
  by (simp_all add: bitmap_set_def bitmap_clear_def)

lemma total_bitmap_set [simp]: "total_frames (bitmap_set f m) = total_frames m" "total_frames (bitmap_clear f m) = total_frames m"
  by (simp_all add: bitmap_set_def bitmap_clear_def)

lemma allocatable_bound: "unat (allocatable_frames m) \<le> 16384" "allocatable_frames m \<le> total_frames m"
  by (auto simp: allocatable_frames_def Let_def kconst word_less_nat_alt word_le_nat_alt)

text \<open>An allocation hands out the lowest free frame under the ceiling, or nothing when there is none.\<close>

lemma pmm_alloc_frame_spec:
  assumes ok: "pmm_ok m" and eq: "pmm_alloc_frame m = (a, m')"
  shows "if a = 0 then m' = m \<and> (\<forall>f < unat (allocatable_frames m). used m f)
    else unat a mod 4096 = 0 \<and> unat a < 0x4000000 \<and> unat a div 4096 < unat (allocatable_frames m)
      \<and> \<not> used m (unat a div 4096) \<and> (\<forall>f < unat a div 4096. used m f)
      \<and> (\<forall>g. used m' g \<longleftrightarrow> g = unat a div 4096 \<or> used m g) \<and> pmm_ok m' \<and> total_frames m' = total_frames m"
proof (cases "position (\<lambda>f. \<not> bitmap_test m (of_nat f)) [0..<unat (allocatable_frames m)]")
  case None
  have "unat (of_nat f :: u32) = f" if "f < unat (allocatable_frames m)" for f
    using that allocatable_bound(1) [of m] by (intro unat_of_nat_small) simp
  moreover have "a = 0" "m' = m" using None eq by (auto simp: pmm_alloc_frame_def)
  ultimately show ?thesis using None by (auto simp: position_None bitmap_test_used)
next
  case (Some f)
  have f: "f < unat (allocatable_frames m)" using Some by (simp add: position_Some)
  have small: "unat (of_nat g :: u32) = g" if "g \<le> f" for g
    using that f allocatable_bound(1) [of m] by (intro unat_of_nat_small) simp
  have free: "\<not> used m f" and low: "\<And>g. g < f \<Longrightarrow> used m g"
    using Some small f by (auto simp: position_Some bitmap_test_used)
  have "f \<noteq> 0" using free ok by (metis pmm_ok_def)
  have a: "a = of_nat f * PMM_FRAME_SIZE" and m': "m' = bitmap_set (of_nat f) m"
    using eq Some by (auto simp: pmm_alloc_frame_def)
  have f16: "f < 16384" using f allocatable_bound(1) [of m] by simp
  have ua: "unat a = f * 4096"
    unfolding a using f16 small by (subst unat_mult_small) (simp_all add: kconst)
  have "a \<noteq> 0" using ua \<open>f \<noteq> 0\<close> by auto
  have idx: "unat (of_nat f :: u32) div 32 < length (bitmap m)"
    using ok f16 small by (simp add: pmm_ok_def kconst)
  have us: "used m' g \<longleftrightarrow> g = f \<or> used m g" for g
    unfolding m' used_bitmap_set [OF idx] using small by simp
  with ok have "pmm_ok m'" by (simp add: pmm_ok_def m')
  with ua us free low f f16 \<open>a \<noteq> 0\<close> show ?thesis by (simp add: m')
qed

lemma pmm_free_frame_spec:
  assumes ok: "pmm_ok m" and a: "4096 \<le> unat a" "unat a < 0x4000000"
  shows "used (pmm_free_frame a m) g \<longleftrightarrow> g \<noteq> unat a div 4096 \<and> used m g"
    and "pmm_ok (pmm_free_frame a m)" and "total_frames (pmm_free_frame a m) = total_frames m"
proof -
  have f: "unat (a div PMM_FRAME_SIZE) = unat a div 4096" by (simp add: unat_div kconst)
  have "unat a div 4096 < 16384" using a(2) by (simp add: div_less_iff_less_mult)
  then have lt: "a div PMM_FRAME_SIZE < MAX_TRACKED_FRAMES" and idx: "unat (a div PMM_FRAME_SIZE) div 32 < length (bitmap m)"
    using ok f by (simp_all add: word_less_nat_alt pmm_ok_def kconst)
  have e: "pmm_free_frame a m = bitmap_clear (a div PMM_FRAME_SIZE) m"
    using lt by (simp add: pmm_free_frame_def Let_def)
  show us: "used (pmm_free_frame a m) g \<longleftrightarrow> g \<noteq> unat a div 4096 \<and> used m g" for g
    unfolding e used_bitmap_clear [OF idx] f ..
  have "unat a div 4096 \<noteq> 0" using a(1) by simp
  with ok us show "pmm_ok (pmm_free_frame a m)" by (simp add: pmm_ok_def e)
  show "total_frames (pmm_free_frame a m) = total_frames m" by (simp add: e)
qed

text \<open>The scan for a run finds the first one, and fails only when there is none.\<close>

definition free_run :: "pmm \<Rightarrow> nat \<Rightarrow> nat \<Rightarrow> bool" where
  "free_run m lo n \<longleftrightarrow> (\<forall>f. lo \<le> f \<longrightarrow> f < lo + n \<longrightarrow> \<not> used m f)"

lemma contiguous_scan_spec:
  assumes "n < 2 ^ 32" and "0 < unat count" and "k \<le> n" and "unat len \<le> k" and "unat len < unat count"
    and "unat len \<noteq> 0 \<Longrightarrow> unat start = k - unat len" and "free_run m (k - unat len) (unat len)"
    and "\<And>s. s + unat count \<le> k \<Longrightarrow> \<not> free_run m s (unat count)"
    and "unat len < k \<Longrightarrow> used m (k - unat len - 1)"
  shows "case contiguous_scan count [k..<n] start len m of
      Some s \<Rightarrow> unat s + unat count \<le> n \<and> free_run m (unat s) (unat count)
        \<and> (\<forall>t < unat s. \<not> free_run m t (unat count))
    | None \<Rightarrow> \<forall>s. s + unat count \<le> n \<longrightarrow> \<not> free_run m s (unat count)"
  using assms(3-9)
proof (induction "n - k" arbitrary: k start len)
  case 0
  then show ?case by simp
next
  case (Suc d)
  then have k: "k < n" "[k..<n] = k # [Suc k..<n]" "unat (of_nat k :: u32) = k"
    using assms(1) by (simp_all add: upt_conv_Cons unat_of_nat_small)
  show ?case
  proof (cases "used m k")
    case True
    have "\<not> free_run m s (unat count)" if "s + unat count \<le> Suc k" for s
    proof (cases "s + unat count \<le> k")
      case False
      with that True assms(2) show ?thesis by (auto simp: free_run_def intro!: exI [of _ k])
    qed (use Suc.prems(6) in blast)
    with Suc.hyps(1) [of "Suc k" 0 start] Suc.hyps(2) k True assms(2) show ?thesis
      by (simp add: bitmap_test_used free_run_def)
  next
    case False
    let ?start = "if len = 0 then of_nat k else start"
    have l1: "unat (len + 1) = unat len + 1"
      using Suc.prems(3) unat_bound [of count] by (intro unat_inc [of len count]) (simp add: word_less_nat_alt)
    have st: "unat ?start = k - unat len" using Suc.prems(4) k(3) by (cases "len = 0") (simp_all add: unat_eq_zero)
    have run: "free_run m (k - unat len) (Suc (unat len))"
      using Suc.prems(2,5) False unfolding free_run_def by (metis add_Suc_right le_add_diff_inverse2 less_SucE)
    show ?thesis
    proof (cases "len + 1 = count")
      case True
      then have c: "unat count = Suc (unat len)" using l1 by simp
      have "\<not> free_run m t (unat count)" if "t < k - unat len" for t
      proof -
        have "unat len < k" using that by simp
        then have "used m (k - unat len - 1)" by (rule Suc.prems(7))
        moreover have "t \<le> k - unat len - 1" using that by simp
        moreover have "t + unat count \<le> k \<or> k - unat len - 1 < t + unat count" by linarith
        ultimately show ?thesis using Suc.prems(6) [of t] by (auto simp: free_run_def)
      qed
      with True run st k c Suc.prems(2) False show ?thesis by (simp add: bitmap_test_used Let_def)
    next
      case ne: False
      then have lt: "Suc (unat len) < unat count" using Suc.prems(3) l1 by (metis Suc_lessI Suc_eq_plus1 word_unat_eq)
      have "\<not> free_run m s (unat count)" if "s + unat count \<le> Suc k" for s
      proof (cases "s + unat count \<le> k")
        case False
        with that have s: "s + unat count = Suc k" by simp
        with lt have "s < k - unat len" by simp
        moreover then have "used m (k - unat len - 1)" by (intro Suc.prems(7)) simp
        ultimately show ?thesis using s by (auto simp: free_run_def intro!: exI [of _ "k - unat len - 1"])
      qed (use Suc.prems(6) in blast)
      with Suc.hyps(1) [of "Suc k" "len + 1" ?start] Suc.hyps(2) Suc.prems(2,7) k run st lt l1 False ne show ?thesis
        by (simp add: bitmap_test_used Let_def)
    qed
  qed
qed

lemma used_set_range:
  assumes "length (bitmap m) = BITMAP_WORDS" and "\<And>f. f \<in> set fs \<Longrightarrow> f < 262144"
  shows "used (fold (\<lambda>f. bitmap_set (of_nat f)) fs m) g \<longleftrightarrow> g \<in> set fs \<or> used m g"
    and "length (bitmap (fold (\<lambda>f. bitmap_set (of_nat f)) fs m)) = BITMAP_WORDS"
    and "total_frames (fold (\<lambda>f. bitmap_set (of_nat f)) fs m) = total_frames m"
proof -
  have "(used (fold (\<lambda>f. bitmap_set (of_nat f)) fs m) g \<longleftrightarrow> g \<in> set fs \<or> used m g)
    \<and> length (bitmap (fold (\<lambda>f. bitmap_set (of_nat f)) fs m)) = BITMAP_WORDS
    \<and> total_frames (fold (\<lambda>f. bitmap_set (of_nat f)) fs m) = total_frames m"
    using assms
  proof (induction fs arbitrary: m)
    case Nil
    then show ?case by simp
  next
    case (Cons f fs)
    then have "f < 262144" by simp
    then have f: "unat (of_nat f :: u32) = f" "f div 32 < length (bitmap m)"
      using Cons.prems(1) by (simp_all add: unat_of_nat_small kconst)
    with Cons.IH [of "bitmap_set (of_nat f) m"] Cons.prems used_bitmap_set [of "of_nat f" m g] show ?case by auto
  qed
  then show "used (fold (\<lambda>f. bitmap_set (of_nat f)) fs m) g \<longleftrightarrow> g \<in> set fs \<or> used m g"
    and "length (bitmap (fold (\<lambda>f. bitmap_set (of_nat f)) fs m)) = BITMAP_WORDS"
    and "total_frames (fold (\<lambda>f. bitmap_set (of_nat f)) fs m) = total_frames m" by blast+
qed

lemma pmm_alloc_contiguous_spec:
  assumes ok: "pmm_ok m" and c: "count \<noteq> 0" and eq: "pmm_alloc_contiguous count m = (a, m')"
  shows "if a = 0 then m' = m \<and> (\<forall>s. s + unat count \<le> unat (allocatable_frames m) \<longrightarrow> \<not> free_run m s (unat count))
    else \<exists>lo. unat a = lo * 4096 \<and> lo + unat count \<le> unat (allocatable_frames m) \<and> free_run m lo (unat count)
      \<and> (\<forall>t < lo. \<not> free_run m t (unat count))
      \<and> (\<forall>g. used m' g \<longleftrightarrow> lo \<le> g \<and> g < lo + unat count \<or> used m g) \<and> pmm_ok m'"
proof -
  let ?n = "unat (allocatable_frames m)"
  have n: "?n \<le> 16384" by (rule allocatable_bound)
  have cp: "0 < unat count" using c by (simp add: unat_gt_0)
  note sc = contiguous_scan_spec [of ?n count 0 0 0 m]
  show ?thesis
  proof (cases "contiguous_scan count [0..<?n] 0 0 m")
    case None
    with eq c have "a = 0" "m' = m" by (auto simp: pmm_alloc_contiguous_def)
    with None sc n cp show ?thesis by (simp add: free_run_def)
  next
    case (Some st)
    with sc n cp have r: "unat st + unat count \<le> ?n" "free_run m (unat st) (unat count)"
        "\<forall>t < unat st. \<not> free_run m t (unat count)"
      by (simp_all add: free_run_def)
    have e: "a = st * PMM_FRAME_SIZE" "m' = fold (\<lambda>i. bitmap_set (of_nat i)) [unat st..<unat st + unat count] m"
      using eq c Some by (auto simp: pmm_alloc_contiguous_def)
    have ua: "unat a = unat st * 4096"
      unfolding e(1) using r(1) n by (subst unat_mult_small) (simp_all add: kconst)
    have "unat st \<noteq> 0" using r(2) cp ok by (metis add_0 free_run_def le0 pmm_ok_def)
    then have "a \<noteq> 0" using ua by auto
    have len: "length (bitmap m) = BITMAP_WORDS" using ok by (simp add: pmm_ok_def)
    have "f < 262144" if "f \<in> set [unat st..<unat st + unat count]" for f using that r(1) n by simp
    note us = used_set_range [of m "[unat st..<unat st + unat count]", OF len this]
    have "used m' g \<longleftrightarrow> unat st \<le> g \<and> g < unat st + unat count \<or> used m g" for g
      using us(1) [of g] unfolding e(2) by auto
    moreover from this ok have "pmm_ok m'" using us(2) by (simp add: pmm_ok_def e(2))
    ultimately show ?thesis using ua r \<open>a \<noteq> 0\<close> by auto
  qed
qed

section \<open>Properties\<close>

text \<open>
  (C29) Contiguous allocation is first fit, and exact.  A non-zero address is that of the lowest run of free frames of
  the wanted length under the ceiling; exactly those frames become used.  Zero is returned, and nothing
  changes, only when no such run exists.  Frame 0 is never handed out.
\<close>

theorem pmm_alloc_contiguous_first_fit:
  assumes "pmm_ok m" and "count \<noteq> 0" and "pmm_alloc_contiguous count m = (a, m')"
  shows "if a = 0 then m' = m \<and> (\<forall>s. s + unat count \<le> unat (allocatable_frames m) \<longrightarrow> \<not> free_run m s (unat count))
    else \<exists>lo. unat a = lo * 4096 \<and> lo + unat count \<le> unat (allocatable_frames m) \<and> free_run m lo (unat count)
      \<and> (\<forall>t < lo. \<not> free_run m t (unat count))
      \<and> (\<forall>g. used m' g \<longleftrightarrow> lo \<le> g \<and> g < lo + unat count \<or> used m g) \<and> pmm_ok m'"
  by (rule pmm_alloc_contiguous_spec [OF assms])

lemmas pmm_eval = allocatable_frames_def bitmap_test_def bitmap_set_def upt_conv_Cons and_one_eq BITMAP_WORDS_def
  PMM_FRAME_SIZE_def PAGING_IDENTITY_MAP_BYTES_def

definition demo_pmm :: pmm where
  "demo_pmm = \<lparr>bitmap = replicate BITMAP_WORDS 11, total_frames = 8\<rparr>"

lemma demo_pmm_run: "pmm_alloc_contiguous 2 demo_pmm = (0x4000, \<lparr>bitmap = (replicate BITMAP_WORDS 11)[0 := 59], total_frames = 8\<rparr>)"
  by (simp add: pmm_alloc_contiguous_def demo_pmm_def pmm_eval)

text \<open>Frames 0, 1 and 3 are used: a run of two is found at frame 4, past the single free frame 2.\<close>

theorem pmm_alloc_contiguous_first_fit_witness:
  "\<exists>lo. unat (0x4000 :: u32) = lo * 4096 \<and> lo + 2 \<le> unat (allocatable_frames demo_pmm) \<and> free_run demo_pmm lo 2
     \<and> (\<forall>t < lo. \<not> free_run demo_pmm t 2)"
proof -
  have "pmm_ok demo_pmm" by (simp add: pmm_ok_def demo_pmm_def used_def BITMAP_WORDS_def)
  from pmm_alloc_contiguous_first_fit [OF this _ demo_pmm_run] show ?thesis by auto
qed

end
