(* ===== verification/Paging.thy ===== *)
theory Paging
  imports Pmm
begin

text \<open>
  Page tables (\<open>src/kernel/arch/x86/mm/paging.c\<close>) and the part of the process table that names them.
  Physical memory is a function from the address of an aligned 32-bit word to its value, which is how the
  kernel reaches it through the identity map.  The translation cache of the CPU is not modelled.
\<close>

section \<open>Data\<close>

abbreviation PAGE_PRESENT :: u32 where "PAGE_PRESENT \<equiv> 0x1"
abbreviation PAGE_WRITE :: u32 where "PAGE_WRITE \<equiv> 0x2"
abbreviation PAGE_USER :: u32 where "PAGE_USER \<equiv> 0x4"
abbreviation PAGE_COW :: u32 where "PAGE_COW \<equiv> 0x200"
abbreviation PAGE_SHM :: u32 where "PAGE_SHM \<equiv> 0x400"

datatype process_state = PROCESS_UNUSED | PROCESS_ALLOCATING | PROCESS_READY | PROCESS_RUNNING | PROCESS_TERMINATED

record process =
  pr_pid :: i32
  pr_state :: process_state
  is_user :: bool
  page_directory_phys :: u32

record machine =
  frames_pmm :: pmm
  mem :: "u32 \<Rightarrow> u32"
  procs :: "process list"
  current :: "usize option"

section \<open>Entries\<close>

definition pd_index :: "u32 \<Rightarrow> u32" where
  "pd_index v = drop_bit 22 v"

definition pt_index :: "u32 \<Rightarrow> u32" where
  "pt_index v = drop_bit 12 v AND 0x3FF"

text \<open>\<open>table[index]\<close> for a table at a physical address.\<close>

definition entry_addr :: "u32 \<Rightarrow> u32 \<Rightarrow> u32" where
  "entry_addr t i = t + 4 * i"

definition read_entry :: "machine \<Rightarrow> u32 \<Rightarrow> u32 \<Rightarrow> u32" where
  "read_entry k t i = mem k (entry_addr t i)"

definition write_entry :: "u32 \<Rightarrow> u32 \<Rightarrow> u32 \<Rightarrow> machine \<Rightarrow> machine" where
  "write_entry t i x k = k\<lparr>mem := (mem k)(entry_addr t i := x)\<rparr>"

definition frame_addr :: "u32 \<Rightarrow> u32" where
  "frame_addr e = e AND 0xFFFFF000"

text \<open>\<open>memset(frame, 0, 4096)\<close>.\<close>

definition clear_frame :: "u32 \<Rightarrow> machine \<Rightarrow> machine" where
  "clear_frame t k = k\<lparr>mem := (\<lambda>a. if unat t \<le> unat a \<and> unat a < unat t + 4096 then 0 else mem k a)\<rparr>"

section \<open>Mapping and unmapping a page\<close>

definition paging_map_page :: "u32 \<Rightarrow> u32 \<Rightarrow> u32 \<Rightarrow> u32 \<Rightarrow> machine \<Rightarrow> bool \<times> machine" where
  "paging_map_page pd v phys flags k =
    (if read_entry k pd (pd_index v) AND PAGE_PRESENT = 0 then
       case pmm_alloc_frame (frames_pmm k) of (t, m) \<Rightarrow>
         if t = 0 then (False, k)
         else let k1 = clear_frame t (k\<lparr>frames_pmm := m\<rparr>);
                  k2 = write_entry pd (pd_index v) (t OR PAGE_PRESENT OR PAGE_WRITE OR PAGE_USER) k1
              in (True, write_entry t (pt_index v) (frame_addr phys OR (flags AND 0xFFF)) k2)
     else let t = frame_addr (read_entry k pd (pd_index v))
          in (True, write_entry t (pt_index v) (frame_addr phys OR (flags AND 0xFFF)) k))"

definition paging_unmap_page :: "u32 \<Rightarrow> u32 \<Rightarrow> machine \<Rightarrow> u32 \<times> machine" where
  "paging_unmap_page pd v k =
    (if read_entry k pd (pd_index v) AND PAGE_PRESENT = 0 then (0, k)
     else let t = frame_addr (read_entry k pd (pd_index v)); old = read_entry k t (pt_index v) in
       if old AND PAGE_PRESENT = 0 then (0, k) else (old, write_entry t (pt_index v) 0 k))"

section \<open>The process table\<close>

definition process_current :: "machine \<Rightarrow> process option" where
  "process_current k = map_option (\<lambda>i. procs k ! i) (current k)"

definition process_is_live :: "machine \<Rightarrow> i32 \<Rightarrow> bool" where
  "process_is_live k p = list_ex (\<lambda>q. pr_pid q = p \<and> pr_state q \<noteq> PROCESS_UNUSED \<and> pr_state q \<noteq> PROCESS_TERMINATED) (procs k)"

section \<open>Addresses\<close>

text \<open>A page-aligned frame of the identity map.\<close>

definition is_frame :: "u32 \<Rightarrow> bool" where
  "is_frame t \<longleftrightarrow> unat t mod 4096 = 0 \<and> 4096 \<le> unat t \<and> unat t < 0x4000000"

lemma unat_entry_addr: "is_frame t \<Longrightarrow> unat i < 1024 \<Longrightarrow> unat (entry_addr t i) = unat t + 4 * unat i"
proof -
  assume t: "is_frame t" and i: "unat i < 1024"
  have "unat (4 * i) = 4 * unat i" using i by (subst unat_mult_small) simp_all
  with t i show ?thesis
    unfolding entry_addr_def by (subst unat_add_small) (simp_all add: is_frame_def)
qed

lemma entry_addr_eq:
  assumes "is_frame t" "is_frame u" "unat i < 1024" "unat j < 1024"
  shows "entry_addr t i = entry_addr u j \<longleftrightarrow> t = u \<and> i = j"
proof
  assume "entry_addr t i = entry_addr u j"
  then have e: "unat t + 4 * unat i = unat u + 4 * unat j"
    using unat_entry_addr assms by metis
  have "unat t div 4096 = (unat t + 4 * unat i) div 4096" "unat u div 4096 = (unat u + 4 * unat j) div 4096"
    using assms by (auto simp: is_frame_def div_add1_eq)
  with e have "unat t div 4096 = unat u div 4096" by simp
  moreover have "unat t = unat t div 4096 * 4096" "unat u = unat u div 4096 * 4096"
    using assms(1,2) by (auto simp: is_frame_def)
  ultimately have "unat t = unat u" by metis
  with e show "t = u \<and> i = j" by (simp add: word_unat_eq)
qed simp

lemma entry_in_frame:
  assumes "is_frame t" "is_frame u" "unat i < 1024"
  shows "unat t \<le> unat (entry_addr u i) \<and> unat (entry_addr u i) < unat t + 4096 \<longleftrightarrow> t = u"
proof
  assume "unat t \<le> unat (entry_addr u i) \<and> unat (entry_addr u i) < unat t + 4096"
  then have b: "unat t \<le> unat u + 4 * unat i" "unat u + 4 * unat i < unat t + 4096"
    using unat_entry_addr [OF assms(2,3)] by simp_all
  have "unat t = 4096 * (unat t div 4096)" "unat u = 4096 * (unat u div 4096)"
    using assms(1,2) by (auto simp: is_frame_def)
  with b assms(3) have "unat t div 4096 = unat u div 4096" by linarith
  then show "t = u" using assms(1,2) by (metis \<open>unat t = 4096 * (unat t div 4096)\<close> \<open>unat u = 4096 * (unat u div 4096)\<close> word_unat_eq)
qed (use unat_entry_addr [OF assms(2,3)] assms(3) in simp)

lemma read_write_entry:
  assumes "is_frame t" "is_frame u" "unat i < 1024" "unat j < 1024"
  shows "read_entry (write_entry t i x k) u j = (if t = u \<and> i = j then x else read_entry k u j)"
  using entry_addr_eq [OF assms] by (auto simp: read_entry_def write_entry_def)

lemma read_clear_frame:
  assumes "is_frame t" "is_frame u" "unat i < 1024"
  shows "read_entry (clear_frame t k) u i = (if t = u then 0 else read_entry k u i)"
  using entry_in_frame [OF assms] by (simp add: read_entry_def clear_frame_def)

lemma pd_index_less: "unat (pd_index v) < 1024"
proof -
  have "unat v < 2 ^ 32" using unat_bound [of v] by simp
  then show ?thesis by (simp add: pd_index_def unsigned_drop_bit_eq take_bit_nat_eq_self drop_bit_nat_def div_less_iff_less_mult)
qed

lemma pt_index_take: "pt_index v = take_bit 10 (drop_bit 12 v)"
  by (simp add: pt_index_def take_bit_eq_mask mask_eq_exp_minus_1)

lemma pt_index_less: "unat (pt_index v) < 1024"
proof -
  show ?thesis
    using take_bit_nat_less_exp [of 10 "unat (drop_bit 12 v)"] by (simp add: pt_index_take unsigned_take_bit_eq)
qed

text \<open>An aligned address has no bits below the page size, so flags do not disturb it.\<close>

lemma aligned_bit:
  assumes "unat x mod 4096 = 0" "m < 12"
  shows "\<not> bit (x :: u32) m"
proof -
  have "take_bit 12 (unat x) = 0" using assms(1) by (simp add: take_bit_eq_mod)
  then have "take_bit 12 x = 0" by (simp add: word_unat_eq unsigned_take_bit_eq)
  then show ?thesis using assms(2) by (metis bit_0_eq bit_take_bit_iff bot_apply bot_bool_def)
qed

lemma frame_addr_bit: "bit (frame_addr e) n \<longleftrightarrow> 12 \<le> n \<and> bit e n"
proof -
  have m: "(0xFFFFF000 :: u32) = NOT (mask 12)" by (simp add: mask_eq_exp_minus_1)
  show ?thesis unfolding frame_addr_def m by (auto simp: bit_simps dest: bit_imp_le_length)
qed

lemma frame_addr_flags:
  assumes "is_frame f" "take_bit 12 x = x"
  shows "frame_addr (f OR x) = f" "frame_addr f = f" "take_bit 12 y = y \<Longrightarrow> (f OR x) AND y = x AND y"
proof -
  have f: "\<not> bit f n" if "n < 12" for n using assms(1) that by (intro aligned_bit) (simp_all add: is_frame_def)
  have hi: "bit z n \<Longrightarrow> n < 12" if "take_bit 12 z = z" for z :: u32 and n
    using that by (metis bit_take_bit_iff)
  show "frame_addr (f OR x) = f"
    using f hi [OF assms(2)] by (intro bit_eqI) (auto simp: frame_addr_bit bit_or_iff not_le [symmetric])
  show "frame_addr f = f" using f by (intro bit_eqI) (auto simp: frame_addr_bit not_le [symmetric])
  show "(f OR x) AND y = x AND y" if "take_bit 12 y = y"
    using f hi [OF that] by (intro bit_eqI) (auto simp: bit_simps)
qed

text \<open>Two pages with the same indices are the same page.\<close>

lemma page_indices_inj:
  assumes "unat v mod 4096 = 0" "unat w mod 4096 = 0" "pd_index v = pd_index w" "pt_index v = pt_index w"
  shows "v = w"
proof (rule bit_eqI)
  fix n
  have pt: "bit v m = bit w m" if "12 \<le> m" "m < 22" for m
  proof -
    have "bit (pt_index x) (m - 12) = bit x m" for x :: u32
      using that by (auto simp: pt_index_take bit_simps)
    then show ?thesis using assms(4) by metis
  qed
  have pd: "bit v m = bit w m" if "22 \<le> m" for m
  proof -
    have "bit (pd_index x) (m - 22) = bit x m" for x :: u32 using that by (simp add: pd_index_def bit_simps)
    then show ?thesis using assms(3) by metis
  qed
  show "bit v n = bit w n"
    using aligned_bit [OF assms(1)] aligned_bit [OF assms(2)] pt pd by (cases "n < 12"; cases "n < 22") auto
qed

end
