(* ===== verification/Shmkernel.thy ===== *)
theory Shmkernel
  imports Shmmem Paging
begin

text \<open>
  The kernel under the shared-memory subsystem: the hardware functions of \<open>src/kernel/ipc/shm.c\<close> over the frame
  allocator and the page tables, and the adapter \<open>KernelHal\<close> of \<open>src/kernel/rust/shm.rs\<close>.  The view of a process
  is what the MMU finds in the shared-memory region of its page directory.  The interpretation at the end
  discharges the laws the coherence proofs rest on.
\<close>

section \<open>The hardware functions\<close>

definition shm_hal_alloc_frame :: "machine \<Rightarrow> u32 \<times> machine" where
  "shm_hal_alloc_frame k =
    (case pmm_alloc_frame (frames_pmm k) of (f, m) \<Rightarrow>
       if f = 0 then (0, k\<lparr>frames_pmm := m\<rparr>)
       else if PAGING_IDENTITY_MAP_BYTES \<le> f then (0, k\<lparr>frames_pmm := pmm_free_frame f m\<rparr>)
       else (f, k\<lparr>frames_pmm := m\<rparr>))"

definition shm_hal_free_frame :: "u32 \<Rightarrow> machine \<Rightarrow> machine" where
  "shm_hal_free_frame f k = k\<lparr>frames_pmm := pmm_free_frame f (frames_pmm k)\<rparr>"

definition shm_hal_zero_frame :: "u32 \<Rightarrow> machine \<Rightarrow> machine" where
  "shm_hal_zero_frame f k = clear_frame f k"

definition shm_hal_map_page :: "i32 \<Rightarrow> u32 \<Rightarrow> u32 \<Rightarrow> u32 \<Rightarrow> machine \<Rightarrow> i32 \<times> machine" where
  "shm_hal_map_page p v f writable k =
    (case process_current k of
       None \<Rightarrow> (- 1, k)
     | Some q \<Rightarrow>
         if pr_pid q \<noteq> p then (- 1, k)
         else case paging_map_page (page_directory_phys q) v f
                (PAGE_PRESENT OR PAGE_USER OR PAGE_SHM OR (if writable \<noteq> 0 then PAGE_WRITE else 0)) k of
           (mapped, k') \<Rightarrow> (if mapped then 0 else - 1, k'))"

definition shm_hal_unmap_page :: "i32 \<Rightarrow> u32 \<Rightarrow> machine \<Rightarrow> machine" where
  "shm_hal_unmap_page p v k =
    (case process_current k of
       None \<Rightarrow> k
     | Some q \<Rightarrow> if pr_pid q \<noteq> p then k else snd (paging_unmap_page (page_directory_phys q) v k))"

definition shm_hal_pid_is_live :: "machine \<Rightarrow> i32 \<Rightarrow> i32" where
  "shm_hal_pid_is_live k p = (if process_is_live k p then 1 else 0)"

definition KernelHal :: "machine hal" where
  "KernelHal =
    \<lparr>alloc_frame = (\<lambda>k. case shm_hal_alloc_frame k of (f, k') \<Rightarrow> (if f = 0 then None else Some f, k')),
     free_frame = shm_hal_free_frame,
     zero_frame = shm_hal_zero_frame,
     map_page = (\<lambda>p v f w k. case shm_hal_map_page p v f (if w then 1 else 0) k of (r, k') \<Rightarrow> (r = 0, k')),
     unmap_page = shm_hal_unmap_page,
     pid_is_live = (\<lambda>p k. shm_hal_pid_is_live k p \<noteq> 0)\<rparr>"

section \<open>What a process sees\<close>

definition runs :: "process \<Rightarrow> bool" where
  "runs q \<longleftrightarrow> is_user q \<and> (pr_state q = PROCESS_READY \<or> pr_state q = PROCESS_RUNNING)"

definition current_user :: "machine \<Rightarrow> i32 option" where
  "current_user k = (case process_current k of None \<Rightarrow> None | Some q \<Rightarrow> if runs q then Some (pr_pid q) else None)"

definition space :: "machine \<Rightarrow> i32 \<Rightarrow> u32 option" where
  "space k p = map_option page_directory_phys (find (\<lambda>q. runs q \<and> pr_pid q = p) (procs k))"

definition view_entry :: "u32 \<Rightarrow> (u32 \<times> bool) option" where
  "view_entry e = (if e AND PAGE_PRESENT = 0 \<or> e AND PAGE_SHM = 0 then None else Some (frame_addr e, e AND PAGE_WRITE \<noteq> 0))"

definition walk :: "machine \<Rightarrow> u32 \<Rightarrow> u32 \<Rightarrow> (u32 \<times> bool) option" where
  "walk k d v =
    (if \<not> in_region v \<or> read_entry k d (pd_index v) AND PAGE_PRESENT = 0 then None
     else view_entry (read_entry k (frame_addr (read_entry k d (pd_index v))) (pt_index v)))"

definition shm_view :: "machine \<Rightarrow> i32 \<Rightarrow> u32 \<Rightarrow> (u32 \<times> bool) option" where
  "shm_view k p v = (case space k p of None \<Rightarrow> None | Some d \<Rightarrow> walk k d v)"

definition frame_zero :: "machine \<Rightarrow> u32 \<Rightarrow> bool" where
  "frame_zero k f \<longleftrightarrow> (\<forall>a. unat f \<le> unat a \<longrightarrow> unat a < unat f + 4096 \<longrightarrow> mem k a = 0)"

section \<open>Well-formed kernels\<close>

definition region_pde :: "u32 \<Rightarrow> bool" where
  "region_pde i \<longleftrightarrow> 416 \<le> unat i \<and> unat i < 496"

definition dirs :: "machine \<Rightarrow> u32 set" where
  "dirs k = page_directory_phys ` set (filter runs (procs k))"

definition has_table :: "machine \<Rightarrow> u32 \<Rightarrow> u32 \<Rightarrow> bool" where
  "has_table k d i \<longleftrightarrow> d \<in> dirs k \<and> region_pde i \<and> read_entry k d i AND PAGE_PRESENT \<noteq> 0"

definition table_of :: "machine \<Rightarrow> u32 \<Rightarrow> u32 \<Rightarrow> u32" where
  "table_of k d i = frame_addr (read_entry k d i)"

definition taken :: "machine \<Rightarrow> u32 \<Rightarrow> bool" where
  "taken k f \<longleftrightarrow> is_frame f \<and> used (frames_pmm k) (unat f div 4096)"

definition procs_ok :: "machine \<Rightarrow> bool" where
  "procs_ok k \<longleftrightarrow> distinct (map pr_pid (filter runs (procs k))) \<and> distinct (map page_directory_phys (filter runs (procs k)))
     \<and> (case current k of None \<Rightarrow> True | Some i \<Rightarrow> i < length (procs k))"

definition kernel_ok :: "machine \<Rightarrow> u32 set \<Rightarrow> bool" where
  "kernel_ok k F \<longleftrightarrow> pmm_ok (frames_pmm k) \<and> procs_ok k
     \<and> (\<forall>f \<in> F. taken k f)
     \<and> (\<forall>d \<in> dirs k. taken k d \<and> d \<notin> F)
     \<and> (\<forall>d i. has_table k d i \<longrightarrow> taken k (table_of k d i) \<and> table_of k d i \<notin> F \<and> table_of k d i \<notin> dirs k)
     \<and> (\<forall>d i e j. has_table k d i \<longrightarrow> has_table k e j \<longrightarrow> table_of k d i = table_of k e j \<longrightarrow> d = e \<and> i = j)"

lemma kernel_okI:
  assumes "pmm_ok (frames_pmm k)" "procs_ok k" "\<And>f. f \<in> F \<Longrightarrow> taken k f"
    and "\<And>d. d \<in> dirs k \<Longrightarrow> taken k d \<and> d \<notin> F"
    and "\<And>d i. has_table k d i \<Longrightarrow> taken k (table_of k d i) \<and> table_of k d i \<notin> F \<and> table_of k d i \<notin> dirs k"
    and "\<And>d i e j. has_table k d i \<Longrightarrow> has_table k e j \<Longrightarrow> table_of k d i = table_of k e j \<Longrightarrow> d = e \<and> i = j"
  shows "kernel_ok k F"
  using assms unfolding kernel_ok_def by blast

lemma kernel_okD:
  assumes "kernel_ok k F"
  shows "pmm_ok (frames_pmm k)" "procs_ok k" "\<And>f. f \<in> F \<Longrightarrow> taken k f"
    and "\<And>d. d \<in> dirs k \<Longrightarrow> taken k d \<and> d \<notin> F"
    and "\<And>d i. has_table k d i \<Longrightarrow> taken k (table_of k d i) \<and> table_of k d i \<notin> F \<and> table_of k d i \<notin> dirs k"
    and "\<And>d i e j. has_table k d i \<Longrightarrow> has_table k e j \<Longrightarrow> table_of k d i = table_of k e j \<Longrightarrow> d = e \<and> i = j"
  using assms unfolding kernel_ok_def by blast+

lemma region_index: "region_pde i \<Longrightarrow> unat i < 1024"
  by (simp add: region_pde_def)

lemma in_region_pde: "in_region v \<Longrightarrow> region_pde (pd_index v)"
proof -
  assume "in_region v"
  then have "0x68000000 \<le> unat v" "unat v < 0x7C000000" by (simp_all add: in_region_def kconst)
  moreover have "unat (pd_index v) = unat v div 4194304"
    using unat_bound [of v] by (simp add: pd_index_def unsigned_drop_bit_eq take_bit_nat_eq_self drop_bit_nat_def)
  ultimately show ?thesis by (simp add: region_pde_def) linarith
qed

lemma space_found: "space k p = Some d \<Longrightarrow> \<exists>a \<in> set (filter runs (procs k)). pr_pid a = p \<and> page_directory_phys a = d"
  by (auto simp: space_def find_Some_iff intro: nth_mem)

lemma space_dirs: "space k p = Some d \<Longrightarrow> d \<in> dirs k"
  using space_found [of k p d] by (auto simp: dirs_def)

lemma space_inj:
  assumes "procs_ok k" "space k p = Some d" "space k q = Some d"
  shows "p = q"
proof -
  from assms(2) obtain a where a: "a \<in> set (filter runs (procs k))" "pr_pid a = p" "page_directory_phys a = d"
    using space_found by blast
  from assms(3) obtain b where b: "b \<in> set (filter runs (procs k))" "pr_pid b = q" "page_directory_phys b = d"
    using space_found by blast
  have "inj_on page_directory_phys (set (filter runs (procs k)))"
    using assms(1) by (simp add: procs_ok_def distinct_map)
  with a b show ?thesis by (auto dest: inj_onD)
qed

lemma current_space:
  assumes "procs_ok k" "current_user k = Some p"
  obtains q where "process_current k = Some q" "pr_pid q = p" "space k p = Some (page_directory_phys q)"
proof -
  from assms(2) obtain q where q: "process_current k = Some q" "runs q" "pr_pid q = p"
    by (auto simp: current_user_def split: option.splits if_splits)
  then have m: "q \<in> set (filter runs (procs k))"
    using assms(1) by (auto simp: process_current_def procs_ok_def)
  have "find (\<lambda>q. runs q \<and> pr_pid q = p) (procs k) \<noteq> None"
    using m q by (auto simp: find_None_iff)
  then obtain r where r: "find (\<lambda>q. runs q \<and> pr_pid q = p) (procs k) = Some r" by auto
  then have "r \<in> set (filter runs (procs k))" "pr_pid r = p" by (auto simp: find_Some_iff)
  moreover have "inj_on pr_pid (set (filter runs (procs k)))"
    using assms(1) by (simp add: procs_ok_def distinct_map)
  ultimately have "r = q" using m q(3) by (auto dest: inj_onD)
  with r q that show thesis by (simp add: space_def)
qed

section \<open>Writing page tables\<close>

lemma write_entry_sel [simp]:
  "frames_pmm (write_entry t i x k) = frames_pmm k" "procs (write_entry t i x k) = procs k"
  "current (write_entry t i x k) = current k"
  by (simp_all add: write_entry_def)

lemma clear_frame_sel [simp]:
  "frames_pmm (clear_frame t k) = frames_pmm k" "procs (clear_frame t k) = procs k" "current (clear_frame t k) = current k"
  by (simp_all add: clear_frame_def)

text \<open>Two kernels with the same processes have the same directories, spaces and current process.\<close>

lemma same_procs:
  assumes "procs k' = procs k" "current k' = current k"
  shows "dirs k' = dirs k" "space k' = space k" "procs_ok k' = procs_ok k" "current_user k' = current_user k"
  using assms by (simp_all add: dirs_def space_def procs_ok_def current_user_def process_current_def fun_eq_iff split: option.splits)

text \<open>Kernels that agree on the directories' region entries keep their tables.\<close>

lemma kernel_ok_same:
  assumes ok: "kernel_ok k F" and pr: "procs k' = procs k" "current k' = current k" and pm: "pmm_ok (frames_pmm k')"
    and pde: "\<And>d i. d \<in> dirs k \<Longrightarrow> region_pde i \<Longrightarrow> read_entry k' d i = read_entry k d i"
    and keep: "\<And>f. taken k f \<Longrightarrow> f \<notin> F - G \<Longrightarrow> taken k' f" and G: "\<And>f. f \<in> G \<Longrightarrow> taken k' f"
    and new: "\<And>f. f \<in> G \<Longrightarrow> f \<in> F \<or> \<not> taken k f"
  shows "kernel_ok k' G"
proof -
  note d = kernel_okD [OF ok] and sp = same_procs [OF pr]
  have ht: "has_table k' e i = has_table k e i" for e i using pde by (auto simp: has_table_def sp)
  have to: "table_of k' e i = table_of k e i" if "has_table k e i" for e i
    using that pde by (simp add: table_of_def has_table_def)
  show ?thesis
  proof (rule kernel_okI)
    show "procs_ok k'" using d(2) sp by simp
    fix e i
    { assume "e \<in> dirs k'"
      then have "taken k e" "e \<notin> F" using d(4) sp by auto
      then show "taken k' e \<and> e \<notin> G" using keep new by blast }
    { assume "has_table k' e i"
      then have h: "has_table k e i" using ht by simp
      then have "taken k (table_of k e i)" "table_of k e i \<notin> F" "table_of k e i \<notin> dirs k" using d(5) by blast+
      then show "taken k' (table_of k' e i) \<and> table_of k' e i \<notin> G \<and> table_of k' e i \<notin> dirs k'"
        using keep new sp unfolding to [OF h] by blast }
    { fix e' j assume h: "has_table k' e i" "has_table k' e' j" "table_of k' e i = table_of k' e' j"
      then have "has_table k e i" "has_table k e' j" using ht by auto
      with h(3) to d(6) show "e = e' \<and> i = j" by metis }
  qed (use pm G in auto)
qed

text \<open>A write into a region page table changes the one page of the one process that has it.\<close>

lemma write_table:
  assumes ok: "kernel_ok k F" and h: "has_table k d i" and j: "unat j < 1024"
    and k'_def: "k' = write_entry (table_of k d i) j x k"
  shows "kernel_ok k' F"
    and "e \<in> dirs k \<Longrightarrow> in_region v \<Longrightarrow>
      walk k' e v = (if e = d \<and> pd_index v = i \<and> pt_index v = j then view_entry x else walk k e v)"
proof -
  note d = kernel_okD [OF ok]
  have t: "is_frame (table_of k d i)" "table_of k d i \<notin> dirs k" using d(5) [OF h] by (auto simp: taken_def)
  have pde: "read_entry k' e n = read_entry k e n" if "e \<in> dirs k" "region_pde n" for e n
  proof -
    have "is_frame e" "table_of k d i \<noteq> e" using that(1) d(4) t(2) by (auto simp: taken_def)
    with t(1) j region_index [OF that(2)] show ?thesis unfolding k'_def by (subst read_write_entry) auto
  qed
  have sel: "procs k' = procs k" "current k' = current k" "frames_pmm k' = frames_pmm k" by (simp_all add: k'_def)
  have "taken k' f = taken k f" for f by (simp add: taken_def sel)
  then show "kernel_ok k' F" using ok sel pde d(1,3) by (intro kernel_ok_same [of k F k' F]) auto
  show "walk k' e v = (if e = d \<and> pd_index v = i \<and> pt_index v = j then view_entry x else walk k e v)"
    if e: "e \<in> dirs k" and v: "in_region v"
  proof (cases "read_entry k e (pd_index v) AND PAGE_PRESENT = 0")
    case True
    then have "\<not> (e = d \<and> pd_index v = i)" using h by (auto simp: has_table_def)
    with True pde [OF e in_region_pde [OF v]] show ?thesis by (auto simp: walk_def)
  next
    case False
    then have h': "has_table k e (pd_index v)" using e in_region_pde [OF v] by (simp add: has_table_def)
    then have t': "is_frame (table_of k e (pd_index v))" using d(5) by (simp add: taken_def)
    have "read_entry k' (table_of k e (pd_index v)) (pt_index v) =
      (if table_of k d i = table_of k e (pd_index v) \<and> j = pt_index v then x else read_entry k (table_of k e (pd_index v)) (pt_index v))"
      unfolding k'_def by (rule read_write_entry [OF t(1) t' j pt_index_less])
    moreover have "table_of k d i = table_of k e (pd_index v) \<longleftrightarrow> d = e \<and> i = pd_index v" using d(6) [OF h h'] by auto
    ultimately show ?thesis
      using False v pde [OF e in_region_pde [OF v]] unfolding walk_def table_of_def by auto
  qed
qed

text \<open>The entry the subsystem writes reads back as the frame and the right to write.\<close>

lemma view_entry_new:
  assumes "is_frame f"
  shows "view_entry (frame_addr f OR ((PAGE_PRESENT OR PAGE_USER OR PAGE_SHM OR (if w then PAGE_WRITE else 0)) AND 0xFFF)) = Some (f, w)"
proof -
  let ?x = "(PAGE_PRESENT OR PAGE_USER OR PAGE_SHM OR (if w then PAGE_WRITE else 0)) AND 0xFFF"
  have x: "take_bit 12 ?x = ?x" by (cases w) simp_all
  note fl = frame_addr_flags [OF assms x]
  have "(f OR ?x) AND PAGE_PRESENT = ?x AND PAGE_PRESENT" "(f OR ?x) AND PAGE_SHM = ?x AND PAGE_SHM"
    "(f OR ?x) AND PAGE_WRITE = ?x AND PAGE_WRITE" by (rule fl(3); simp)+
  then show ?thesis unfolding view_entry_def fl(1,2) by (cases w) simp_all
qed

text \<open>What an allocation by the frame manager gives the kernel.\<close>

lemma fresh_frame:
  assumes ok: "pmm_ok (frames_pmm k)" and al: "pmm_alloc_frame (frames_pmm k) = (t, m)" "t \<noteq> 0" and k': "frames_pmm k' = m"
  shows "is_frame t" "\<not> taken k t" "pmm_ok m" "taken k' f \<longleftrightarrow> taken k f \<or> f = t"
proof -
  note sp = pmm_alloc_frame_spec [OF ok al(1)]
  have us: "used m g \<longleftrightarrow> g = unat t div 4096 \<or> used (frames_pmm k) g" for g using sp al(2) by simp
  show t: "is_frame t" using sp al(2) by (simp add: is_frame_def) (metis dvd_imp_le mod_0_imp_dvd unat_gt_0)
  show "\<not> taken k t" "pmm_ok m" using sp al(2) by (simp_all add: taken_def)
  have "f = t" if "is_frame f" "unat f div 4096 = unat t div 4096"
    using that t by (metis is_frame_def mod_div_mult_eq word_unat_eq add_0)
  then show "taken k' f \<longleftrightarrow> taken k f \<or> f = t" using t us by (auto simp: taken_def k')
qed

text \<open>Entering a fresh, zeroed table into a directory.\<close>

lemma new_table_reads:
  assumes "is_frame d" "is_frame t" "d \<noteq> t" "unat i < 1024"
    and k': "k' = write_entry d i (t OR PAGE_PRESENT OR PAGE_WRITE OR PAGE_USER) (clear_frame t k)"
  shows "is_frame u \<Longrightarrow> unat j < 1024 \<Longrightarrow> \<not> (u = d \<and> j = i) \<Longrightarrow> read_entry k' u j = (if u = t then 0 else read_entry k u j)"
    and "read_entry k' d i AND PAGE_PRESENT \<noteq> 0" "table_of k' d i = t"
proof -
  show "read_entry k' u j = (if u = t then 0 else read_entry k u j)"
    if "is_frame u" "unat j < 1024" "\<not> (u = d \<and> j = i)"
    unfolding k' using read_write_entry [OF assms(1) that(1) assms(4) that(2)] read_clear_frame [OF assms(2) that(1,2)] that(3)
    by auto
  have de: "read_entry k' d i = t OR (PAGE_PRESENT OR PAGE_WRITE OR PAGE_USER)"
    unfolding k' read_write_entry [OF assms(1,1,4,4)] by (simp only: simp_thms if_True or.assoc)
  note fl = frame_addr_flags [OF assms(2), of "PAGE_PRESENT OR PAGE_WRITE OR PAGE_USER"]
  have "(t OR (PAGE_PRESENT OR PAGE_WRITE OR PAGE_USER)) AND PAGE_PRESENT = (PAGE_PRESENT OR PAGE_WRITE OR PAGE_USER) AND PAGE_PRESENT"
    by (rule fl(3)) simp_all
  then show "read_entry k' d i AND PAGE_PRESENT \<noteq> 0" unfolding de by simp
  show "table_of k' d i = t" unfolding table_of_def de by (rule fl(1)) simp
qed

text \<open>A fresh page table is empty: it keeps the kernel well-formed and changes what no process sees.\<close>

lemma new_table_ok:
  assumes ok: "kernel_ok k F" and d: "d \<in> dirs k" "region_pde i" and free: "is_frame t" "\<not> taken k t"
    and pr: "procs k' = procs k" "current k' = current k" and pm: "pmm_ok (frames_pmm k')"
    and tk: "\<And>f. taken k' f \<longleftrightarrow> taken k f \<or> f = t"
    and rd: "\<And>u j. is_frame u \<Longrightarrow> unat j < 1024 \<Longrightarrow> \<not> (u = d \<and> j = i) \<Longrightarrow> read_entry k' u j = (if u = t then 0 else read_entry k u j)"
    and new: "read_entry k' d i AND PAGE_PRESENT \<noteq> 0" "table_of k' d i = t"
  shows "kernel_ok k' F"
proof -
  note D = kernel_okD [OF ok]
  have dk: "dirs k' = dirs k" by (rule same_procs(1) [OF pr])
  have old: "has_table k u j \<and> table_of k' u j = table_of k u j" if h: "has_table k' u j" "\<not> (u = d \<and> j = i)" for u j
  proof -
    have u: "u \<in> dirs k" "region_pde j" using h(1) by (simp_all add: has_table_def dk)
    then have "read_entry k' u j = read_entry k u j"
      using D(4) free(2) rd [OF _ region_index h(2)] by (auto simp: taken_def)
    with h(1) u show ?thesis by (simp add: has_table_def table_of_def)
  qed
  have only: "u = d \<and> j = i" if "has_table k' u j" "table_of k' u j = t" for u j
    using old [OF that(1)] D(5) [of u j] that(2) free(2) by metis
  show ?thesis
  proof (rule kernel_okI)
    fix u j
    { assume h: "has_table k' u j"
      show "taken k' (table_of k' u j) \<and> table_of k' u j \<notin> F \<and> table_of k' u j \<notin> dirs k'"
      proof (cases "u = d \<and> j = i")
        case True
        then show ?thesis using new(2) tk free(2) D(3,4) dk by auto
      next
        case False
        then show ?thesis using old [OF h] D(5) [of u j] tk dk by auto
      qed }
    { fix u' j' assume hh: "has_table k' u j" "has_table k' u' j'" "table_of k' u j = table_of k' u' j'"
      show "u = u' \<and> j = j'"
      proof (cases "table_of k' u j = t")
        case True
        then show ?thesis using hh only [of u j] only [of u' j'] by simp
      next
        case False
        then have "\<not> (u = d \<and> j = i)" "\<not> (u' = d \<and> j' = i)" using hh(3) new(2) by auto
        then show ?thesis using old [OF hh(1)] old [OF hh(2)] hh(3) D(6) [of u j u' j'] by auto
      qed }
  qed (use D(2-4) tk pm same_procs [OF pr] in auto)
qed

lemma new_table_walk:
  assumes ok: "kernel_ok k F" and d: "d \<in> dirs k" "read_entry k d i AND PAGE_PRESENT = 0" and free: "is_frame t" "\<not> taken k t"
    and rd: "\<And>u j. is_frame u \<Longrightarrow> unat j < 1024 \<Longrightarrow> \<not> (u = d \<and> j = i) \<Longrightarrow> read_entry k' u j = (if u = t then 0 else read_entry k u j)"
    and new: "table_of k' d i = t" and u: "u \<in> dirs k"
  shows "walk k' u v = walk k u v"
proof (cases "in_region v")
  case True
  note D = kernel_okD [OF ok]
  show ?thesis
  proof (cases "u = d \<and> pd_index v = i")
    case here: True
    have "d \<noteq> t" using D(4) [OF d(1)] free(2) by auto
    then have "read_entry k' t (pt_index v) = 0" using rd [OF free(1) pt_index_less] by simp
    then show ?thesis using here d(2) new unfolding walk_def table_of_def by (simp add: view_entry_def)
  next
    case False
    have uf: "is_frame u" "u \<noteq> t" using D(4) [OF u] free(2) by (auto simp: taken_def)
    note same = rd [OF uf(1) pd_index_less False]
    show ?thesis
    proof (cases "read_entry k u (pd_index v) AND PAGE_PRESENT = 0")
      case absent: False
      then have "has_table k u (pd_index v)" using u in_region_pde [OF True] by (simp add: has_table_def)
      then have "is_frame (table_of k u (pd_index v))" "table_of k u (pd_index v) \<noteq> t" "table_of k u (pd_index v) \<noteq> d"
        using D(5) free(2) d(1) by (auto simp: taken_def)
      then have "read_entry k' (table_of k u (pd_index v)) (pt_index v) = read_entry k (table_of k u (pd_index v)) (pt_index v)"
        using rd [OF _ pt_index_less] by simp
      then show ?thesis using same uf unfolding walk_def table_of_def by simp
    qed (simp add: walk_def same uf)
  qed
qed (simp add: walk_def)

section \<open>Mapping and unmapping\<close>

lemma in_region_inj: "in_region v \<Longrightarrow> in_region u \<Longrightarrow> pd_index u = pd_index v \<and> pt_index u = pt_index v \<longleftrightarrow> u = v"
  using page_indices_inj [of u v] by (auto simp: in_region_def)

lemma write_page:
  assumes ok: "kernel_ok k F" and h: "has_table k d (pd_index v)" and v: "in_region v"
    and k': "k' = write_entry (table_of k d (pd_index v)) (pt_index v) x k" and e: "e \<in> dirs k"
  shows "walk k' e = (if e = d then (walk k d)(v := view_entry x) else walk k e)"
proof
  fix u
  show "walk k' e u = (if e = d then (walk k d)(v := view_entry x) else walk k e) u"
  proof (cases "in_region u")
    case True
    show ?thesis
      using write_table(2) [OF ok h pt_index_less k' e True] in_region_inj [OF v True] by auto
  qed (use v in \<open>auto simp: walk_def\<close>)
qed

lemma paging_map_page_spec:
  assumes ok: "kernel_ok k F" and d: "d \<in> dirs k" and v: "in_region v" and eq: "paging_map_page d v f fl k = (b, k')"
  shows "kernel_ok k' F \<and> procs k' = procs k \<and> current k' = current k \<and> (\<not> b \<longrightarrow> k' = k)
    \<and> (b \<longrightarrow> (\<forall>e \<in> dirs k. walk k' e = (if e = d then (walk k d)(v := view_entry (frame_addr f OR (fl AND 0xFFF))) else walk k e)))"
proof (cases "read_entry k d (pd_index v) AND PAGE_PRESENT = 0")
  case False
  then have h: "has_table k d (pd_index v)" using d in_region_pde [OF v] by (simp add: has_table_def)
  have b: "b" and k': "k' = write_entry (table_of k d (pd_index v)) (pt_index v) (frame_addr f OR (fl AND 0xFFF)) k"
    using eq False by (auto simp: paging_map_page_def Let_def table_of_def)
  have "kernel_ok k' F" by (rule write_table(1) [OF ok h pt_index_less k'])
  moreover have "procs k' = procs k" "current k' = current k" by (simp_all add: k')
  ultimately show ?thesis using b write_page [OF ok h v k'] by blast
next
  case True
  obtain t m where al: "pmm_alloc_frame (frames_pmm k) = (t, m)" by fastforce
  show ?thesis
  proof (cases "t = 0")
    case out: True
    with eq True al have "\<not> b" "k' = k" by (auto simp: paging_map_page_def)
    then show ?thesis using ok by simp
  next
    case t0: False
    let ?k2 = "write_entry d (pd_index v) (t OR PAGE_PRESENT OR PAGE_WRITE OR PAGE_USER) (clear_frame t (k\<lparr>frames_pmm := m\<rparr>))"
    note D = kernel_okD [OF ok] and fr = fresh_frame [OF kernel_okD(1) [OF ok] al t0, where k' = ?k2]
    have pm: "frames_pmm ?k2 = m" by simp
    have df: "is_frame d" "d \<noteq> t" using D(4) [OF d] fr(2) [OF pm] by (auto simp: taken_def)
    note rd = new_table_reads [where k = "k\<lparr>frames_pmm := m\<rparr>", OF df(1) fr(1) [OF pm] df(2) pd_index_less [of v] refl]
    have sel: "procs ?k2 = procs k" "current ?k2 = current k" by simp_all
    have rd1: "read_entry ?k2 u j = (if u = t then 0 else read_entry k u j)"
      if "is_frame u" "unat j < 1024" "\<not> (u = d \<and> j = pd_index v)" for u j
      using rd(1) [OF that] by (simp add: read_entry_def)
    have ok2: "kernel_ok ?k2 F"
      using fr(3) [OF pm] by (intro new_table_ok [OF ok d in_region_pde [OF v] fr(1,2) [OF pm] sel _ fr(4) [OF pm] rd1 rd(2,3)]) simp_all
    have w2: "walk ?k2 e = walk k e" if "e \<in> dirs k" for e
      using new_table_walk [OF ok d True fr(1,2) [OF pm] rd1 rd(3) that] by blast
    have dk: "dirs ?k2 = dirs k" by (rule same_procs(1) [OF sel])
    have h2: "has_table ?k2 d (pd_index v)" using d dk in_region_pde [OF v] rd(2) by (simp add: has_table_def)
    have b: "b" and k': "k' = write_entry (table_of ?k2 d (pd_index v)) (pt_index v) (frame_addr f OR (fl AND 0xFFF)) ?k2"
      unfolding rd(3) using eq True al t0 by (auto simp: paging_map_page_def Let_def)
    have "kernel_ok k' F" by (rule write_table(1) [OF ok2 h2 pt_index_less k'])
    moreover have "procs k' = procs k" "current k' = current k" by (simp_all add: k')
    ultimately show ?thesis using b write_page [OF ok2 h2 v k'] w2 d unfolding dk by auto
  qed
qed

lemma paging_unmap_page_spec:
  assumes ok: "kernel_ok k F" and d: "d \<in> dirs k" and v: "in_region v"
  defines "k' \<equiv> snd (paging_unmap_page d v k)"
  shows "kernel_ok k' F \<and> procs k' = procs k \<and> current k' = current k
    \<and> (\<forall>e \<in> dirs k. walk k' e = (if e = d then (walk k d)(v := None) else walk k e))"
proof (cases "read_entry k d (pd_index v) AND PAGE_PRESENT = 0 \<or> read_entry k (table_of k d (pd_index v)) (pt_index v) AND PAGE_PRESENT = 0")
  case True
  then have "k' = k" by (auto simp: k'_def paging_unmap_page_def table_of_def Let_def)
  moreover have "walk k d v = None" using True by (auto simp: walk_def table_of_def view_entry_def)
  ultimately show ?thesis using ok by (auto simp: fun_upd_idem)
next
  case False
  then have h: "has_table k d (pd_index v)" using d in_region_pde [OF v] by (simp add: has_table_def)
  have k': "k' = write_entry (table_of k d (pd_index v)) (pt_index v) 0 k"
    using False by (simp add: k'_def paging_unmap_page_def table_of_def Let_def)
  have "kernel_ok k' F" by (rule write_table(1) [OF ok h pt_index_less k'])
  moreover have "procs k' = procs k" "current k' = current k" by (simp_all add: k')
  moreover have "view_entry 0 = None" by (simp add: view_entry_def)
  ultimately show ?thesis using write_page [OF ok h v k'] by simp
qed

text \<open>From the directories to the processes.\<close>

lemma view_update:
  assumes ok: "procs_ok k" and sp: "space k p = Some d" and pr: "procs k' = procs k" "current k' = current k"
    and w: "\<forall>e \<in> dirs k. walk k' e = (if e = d then (walk k d)(v := x) else walk k e)"
  shows "shm_view k' = (shm_view k)(p := (shm_view k p)(v := x))"
proof
  fix q
  show "shm_view k' q = ((shm_view k)(p := (shm_view k p)(v := x))) q"
  proof (cases "space k q")
    case None
    then have "q \<noteq> p" "shm_view k' q = shm_view k q" using sp by (auto simp: shm_view_def same_procs(2) [OF pr])
    then show ?thesis by simp
  next
    case (Some e)
    then have v: "shm_view k' q = walk k' e" "shm_view k q = walk k e" by (simp_all add: shm_view_def fun_eq_iff same_procs(2) [OF pr])
    show ?thesis
    proof (cases "q = p")
      case True
      then have "e = d" using sp Some by simp
      then show ?thesis using bspec [OF w space_dirs [OF Some]] v True by simp
    next
      case False
      then have "e \<noteq> d" using space_inj [OF ok sp, of q] Some by blast
      then show ?thesis using bspec [OF w space_dirs [OF Some]] v False by simp
    qed
  qed
qed

lemma view_same:
  assumes "procs k' = procs k" "current k' = current k" and "\<And>e. e \<in> dirs k \<Longrightarrow> walk k' e = walk k e"
  shows "shm_view k' = shm_view k"
proof (intro ext)
  fix q u
  show "shm_view k' q u = shm_view k q u"
    using assms(3) [OF space_dirs, of q] by (cases "space k q") (simp_all add: shm_view_def same_procs(2) [OF assms(1,2)])
qed

section \<open>The laws of the hardware layer\<close>

lemma map_page_laws:
  assumes ok: "kernel_ok k F" and f: "f \<in> F" and v: "in_region v" and c: "current_user k = Some p"
    and eq: "map_page KernelHal p v f w k = (b, k')"
  shows "kernel_ok k' F \<and> current_user k' = current_user k
    \<and> shm_view k' = (if b then (shm_view k)(p := (shm_view k p)(v \<mapsto> (f, w))) else shm_view k)"
proof -
  note D = kernel_okD [OF ok]
  obtain q where q: "process_current k = Some q" "pr_pid q = p" "space k p = Some (page_directory_phys q)"
    using current_space [OF D(2) c] .
  let ?fl = "PAGE_PRESENT OR PAGE_USER OR PAGE_SHM OR (if w then PAGE_WRITE else 0)"
  obtain r where r: "paging_map_page (page_directory_phys q) v f ?fl k = (r, k')" and b: "r = b"
    using eq q by (cases w) (auto simp: KernelHal_def shm_hal_map_page_def split: prod.splits if_splits)
  note sp = paging_map_page_spec [OF ok space_dirs [OF q(3)] v r]
  have fr: "is_frame f" using D(3) [OF f] by (simp add: taken_def)
  show ?thesis
  proof (cases b)
    case True
    then have "shm_view k' = (shm_view k)(p := (shm_view k p)(v := view_entry (frame_addr f OR (?fl AND 0xFFF))))"
      using sp b by (intro view_update [OF D(2) q(3)]) blast+
    then show ?thesis using sp True same_procs(4) [of k' k] unfolding view_entry_new [OF fr] by simp
  qed (use sp b in auto)
qed

lemma unmap_page_laws:
  assumes ok: "kernel_ok k F" and v: "in_region v" and c: "current_user k = Some p"
  shows "kernel_ok (unmap_page KernelHal p v k) F
    \<and> shm_view (unmap_page KernelHal p v k) = (shm_view k)(p := (shm_view k p)(v := None))
    \<and> current_user (unmap_page KernelHal p v k) = current_user k"
proof -
  note D = kernel_okD [OF ok]
  obtain q where q: "process_current k = Some q" "pr_pid q = p" "space k p = Some (page_directory_phys q)"
    using current_space [OF D(2) c] .
  have e: "unmap_page KernelHal p v k = snd (paging_unmap_page (page_directory_phys q) v k)"
    using q by (simp add: KernelHal_def shm_hal_unmap_page_def)
  note sp = paging_unmap_page_spec [OF ok space_dirs [OF q(3)] v]
  have "shm_view (unmap_page KernelHal p v k) = (shm_view k)(p := (shm_view k p)(v := None))"
    using sp unfolding e by (intro view_update [OF D(2) q(3)]) blast+
  then show ?thesis using sp same_procs(4) unfolding e by blast
qed

lemma walk_mem: "mem k' = mem k \<Longrightarrow> walk k' = walk k"
  by (simp add: walk_def read_entry_def fun_eq_iff)

lemma alloc_frame_laws:
  assumes ok: "kernel_ok k F" and eq: "alloc_frame KernelHal k = (r, k')"
  shows "shm_view k' = shm_view k \<and> current_user k' = current_user k \<and> mem k' = mem k
    \<and> (case r of None \<Rightarrow> kernel_ok k' F | Some f \<Rightarrow> f \<notin> F \<and> kernel_ok k' (insert f F))"
proof -
  note D = kernel_okD [OF ok]
  obtain t m where al: "pmm_alloc_frame (frames_pmm k) = (t, m)" by fastforce
  note sp = pmm_alloc_frame_spec [OF D(1) al]
  have "\<not> PAGING_IDENTITY_MAP_BYTES \<le> t" if "t \<noteq> 0" using sp that by (simp add: kconst word_le_nat_alt)
  then have e: "r = (if t = 0 then None else Some t)" "k' = k\<lparr>frames_pmm := m\<rparr>"
    using eq al by (auto simp: KernelHal_def shm_hal_alloc_frame_def split: if_splits)
  have sel: "procs k' = procs k" "current k' = current k" "mem k' = mem k" "frames_pmm k' = m" by (simp_all add: e)
  have pde: "read_entry k' d i = read_entry k d i" for d i by (simp add: read_entry_def sel)
  have "case r of None \<Rightarrow> kernel_ok k' F | Some f \<Rightarrow> f \<notin> F \<and> kernel_ok k' (insert f F)"
  proof (cases "t = 0")
    case True
    then have "k' = k" using sp e by simp
    then show ?thesis using ok True e by simp
  next
    case False
    note fr = fresh_frame [OF D(1) al False sel(4)]
    have "t \<notin> F" using D(3) fr(2) by blast
    moreover have "kernel_ok k' (insert t F)"
      using ok sel fr pde D(3) by (intro kernel_ok_same [of k F k']) auto
    ultimately show ?thesis using False e by simp
  qed
  then show ?thesis using view_same [OF sel(1,2)] walk_mem [OF sel(3)] same_procs(4) [OF sel(1,2)] sel(3) by simp
qed

lemma free_frame_laws:
  assumes ok: "kernel_ok k F" and f: "f \<in> F"
  shows "kernel_ok (free_frame KernelHal f k) (F - {f}) \<and> shm_view (free_frame KernelHal f k) = shm_view k
    \<and> current_user (free_frame KernelHal f k) = current_user k"
proof -
  note D = kernel_okD [OF ok]
  let ?k = "free_frame KernelHal f k"
  have e: "?k = k\<lparr>frames_pmm := pmm_free_frame f (frames_pmm k)\<rparr>" by (simp add: KernelHal_def shm_hal_free_frame_def)
  then have sel: "procs ?k = procs k" "current ?k = current k" "mem ?k = mem k" "frames_pmm ?k = pmm_free_frame f (frames_pmm k)"
    by simp_all
  have fr: "is_frame f" using D(3) [OF f] by (simp add: taken_def)
  then have fb: "4096 \<le> unat f" "unat f < 0x4000000" by (simp_all add: is_frame_def)
  note ps = pmm_free_frame_spec [OF D(1) fb]
  have ne: "unat g div 4096 \<noteq> unat f div 4096" if "is_frame g" "g \<noteq> f" for g
    using that fr by (metis is_frame_def mod_div_mult_eq word_unat_eq add_0)
  have tk: "taken k g \<Longrightarrow> g \<noteq> f \<Longrightarrow> taken ?k g" for g
    using ps(1) ne by (simp add: taken_def sel)
  have "kernel_ok ?k (F - {f})"
  proof (rule kernel_ok_same [OF ok sel(1,2)])
    show "pmm_ok (frames_pmm ?k)" using ps(2) sel by simp
    show "read_entry ?k d i = read_entry k d i" for d i by (simp add: read_entry_def sel)
    show "taken ?k g" if "taken k g" "g \<notin> F - (F - {f})" for g using that f tk by auto
    show "taken ?k g" if "g \<in> F - {f}" for g using that tk D(3) by auto
  qed auto
  then show ?thesis using view_same [OF sel(1,2)] walk_mem [OF sel(3)] same_procs(4) [OF sel(1,2)] by simp
qed

lemma zero_frame_laws:
  assumes ok: "kernel_ok k F" and f: "f \<in> F"
  shows "kernel_ok (zero_frame KernelHal f k) F \<and> shm_view (zero_frame KernelHal f k) = shm_view k
    \<and> current_user (zero_frame KernelHal f k) = current_user k
    \<and> frame_zero (zero_frame KernelHal f k) f \<and> (\<forall>g. frame_zero k g \<longrightarrow> frame_zero (zero_frame KernelHal f k) g)"
proof -
  note D = kernel_okD [OF ok]
  have e: "zero_frame KernelHal f k = clear_frame f k" by (simp add: KernelHal_def shm_hal_zero_frame_def)
  have sel: "procs (clear_frame f k) = procs k" "current (clear_frame f k) = current k" by simp_all
  have fr: "is_frame f" using D(3) [OF f] by (simp add: taken_def)
  have rd: "read_entry (clear_frame f k) u i = read_entry k u i" if "is_frame u" "u \<noteq> f" "unat i < 1024" for u i
    using read_clear_frame [OF fr that(1,3)] that(2) by simp
  have dr: "is_frame d" "d \<noteq> f" if "d \<in> dirs k" for d using D(4) [OF that] f by (auto simp: taken_def)
  have "walk (clear_frame f k) d = walk k d" if d: "d \<in> dirs k" for d
  proof
    fix v
    show "walk (clear_frame f k) d v = walk k d v"
    proof (cases "in_region v \<and> read_entry k d (pd_index v) AND PAGE_PRESENT \<noteq> 0")
      case True
      then have "has_table k d (pd_index v)" using d in_region_pde by (simp add: has_table_def)
      then have "is_frame (table_of k d (pd_index v))" "table_of k d (pd_index v) \<noteq> f" using D(5) f by (auto simp: taken_def)
      then show ?thesis using rd [OF dr [OF d] pd_index_less] rd [OF _ _ pt_index_less] by (simp add: walk_def table_of_def)
    qed (use rd [OF dr [OF d] pd_index_less] in \<open>auto simp: walk_def\<close>)
  qed
  note vs = view_same [OF sel this]
  have tk: "taken (clear_frame f k) g = taken k g" for g by (simp add: taken_def)
  have "kernel_ok (clear_frame f k) F"
  proof (rule kernel_ok_same [OF ok sel])
    show "read_entry (clear_frame f k) d i = read_entry k d i" if "d \<in> dirs k" "region_pde i" for d i
      by (rule rd [OF dr [OF that(1)] region_index [OF that(2)]])
  qed (simp_all add: D(1,3) tk)
  moreover have "frame_zero (clear_frame f k) f" "frame_zero k g \<longrightarrow> frame_zero (clear_frame f k) g" for g
    by (simp_all add: frame_zero_def clear_frame_def)
  ultimately show ?thesis unfolding e using vs same_procs(4) [OF sel] by blast
qed

interpretation kern: shm_hal KernelHal kernel_ok shm_view current_user frame_zero
proof
  fix k F p v f w k'
  show "f \<notin> F \<and> kernel_ok k' (insert f F) \<and> shm_view k' = shm_view k \<and> current_user k' = current_user k
      \<and> (\<forall>g \<in> F. frame_zero k g \<longrightarrow> frame_zero k' g)" if "kernel_ok k F" "alloc_frame KernelHal k = (Some f, k')"
    using alloc_frame_laws [OF that] by (simp add: frame_zero_def)
  show "kernel_ok k' F \<and> shm_view k' = shm_view k \<and> current_user k' = current_user k"
    if "kernel_ok k F" "alloc_frame KernelHal k = (None, k')" using alloc_frame_laws [OF that] by simp
  show "kernel_ok (free_frame KernelHal f k) (F - {f}) \<and> shm_view (free_frame KernelHal f k) = shm_view k
    \<and> current_user (free_frame KernelHal f k) = current_user k" if "kernel_ok k F" "f \<in> F" using free_frame_laws [OF that] .
  show "kernel_ok (zero_frame KernelHal f k) F \<and> shm_view (zero_frame KernelHal f k) = shm_view k
      \<and> current_user (zero_frame KernelHal f k) = current_user k
      \<and> frame_zero (zero_frame KernelHal f k) f \<and> (\<forall>g \<in> F. frame_zero k g \<longrightarrow> frame_zero (zero_frame KernelHal f k) g)"
    if "kernel_ok k F" "f \<in> F" using zero_frame_laws [OF that] by blast
  show "kernel_ok k' F \<and> shm_view k' = (shm_view k)(p := (shm_view k p)(v \<mapsto> (f, w))) \<and> current_user k' = current_user k"
    if "kernel_ok k F" "f \<in> F" "in_region v" "current_user k = Some p" "map_page KernelHal p v f w k = (True, k')"
    using map_page_laws [OF that] by simp
  show "kernel_ok k' F \<and> shm_view k' = shm_view k \<and> current_user k' = current_user k"
    if "kernel_ok k F" "f \<in> F" "in_region v" "current_user k = Some p" "map_page KernelHal p v f w k = (False, k')"
    using map_page_laws [OF that] by simp
  show "kernel_ok (unmap_page KernelHal p v k) F
    \<and> shm_view (unmap_page KernelHal p v k) = (shm_view k)(p := (shm_view k p)(v := None))
    \<and> current_user (unmap_page KernelHal p v k) = current_user k"
    if "kernel_ok k F" "in_region v" "current_user k = Some p" using unmap_page_laws [OF that] .
qed

end
