(* ===== verification/Shmrun.thy ===== *)
theory Shmrun
  imports Shmkernel
begin

text \<open>
  Runs of the kernel with the shared-memory subsystem: system calls of the process that is running, process
  exit (\<open>process_exit\<close> of \<open>src/kernel/task/process.c\<close>), fork, and whatever else the kernel does in between,
  as long as that leaves the frames and the shared-memory entries alone.
\<close>

section \<open>Process exit\<close>

definition set_terminated :: "machine \<Rightarrow> machine" where
  "set_terminated k =
    (case current k of None \<Rightarrow> k
     | Some i \<Rightarrow> k\<lparr>procs := (procs k)[i := (procs k ! i)\<lparr>pr_state := PROCESS_TERMINATED\<rparr>]\<rparr>)"

definition exit_current :: "shm \<Rightarrow> machine \<Rightarrow> shm \<times> machine" where
  "exit_current s k =
    (case process_current k of None \<Rightarrow> (s, k)
     | Some q \<Rightarrow> (case rust_shm_process_exit KernelHal (pr_pid q) s k of (s', k') \<Rightarrow> (s', set_terminated k')))"

lemma space_iff:
  assumes "procs_ok k"
  shows "space k p = Some d \<longleftrightarrow> (\<exists>a \<in> set (filter runs (procs k)). pr_pid a = p \<and> page_directory_phys a = d)"
proof
  assume "\<exists>a \<in> set (filter runs (procs k)). pr_pid a = p \<and> page_directory_phys a = d"
  then obtain a where a: "a \<in> set (filter runs (procs k))" "pr_pid a = p" "page_directory_phys a = d" by blast
  then obtain r where r: "find (\<lambda>q. runs q \<and> pr_pid q = p) (procs k) = Some r"
    by (cases "find (\<lambda>q. runs q \<and> pr_pid q = p) (procs k)") (auto simp: find_None_iff)
  then have "r \<in> set (filter runs (procs k))" "pr_pid r = p" by (auto simp: find_Some_iff)
  moreover have "inj_on pr_pid (set (filter runs (procs k)))" using assms by (simp add: procs_ok_def distinct_map)
  ultimately have "r = a" using a by (auto dest: inj_onD)
  with r a show "space k p = Some d" by (simp add: space_def)
qed (rule space_found)

text \<open>The running processes after the current one has terminated.\<close>

lemma terminated_runs:
  assumes ok: "procs_ok k" and c: "current_user k = Some p"
  shows "procs_ok (set_terminated k)"
    and "set (filter runs (procs (set_terminated k))) = {q \<in> set (filter runs (procs k)). pr_pid q \<noteq> p}"
proof -
  from c obtain i where i: "current k = Some i" "runs (procs k ! i)" "pr_pid (procs k ! i) = p"
    by (auto simp: current_user_def process_current_def split: option.splits if_splits)
  have l: "i < length (procs k)" using ok i(1) by (simp add: procs_ok_def)
  let ?q = "procs k ! i" and ?a = "take i (procs k)" and ?b = "drop (Suc i) (procs k)"
  have old: "filter runs (procs k) = filter runs ?a @ ?q # filter runs ?b"
    by (subst id_take_nth_drop [OF l]) (simp add: i(2))
  have "\<not> runs (?q\<lparr>pr_state := PROCESS_TERMINATED\<rparr>)" by (simp add: runs_def)
  then have new: "filter runs (procs (set_terminated k)) = filter runs ?a @ filter runs ?b"
    using l by (simp add: set_terminated_def i(1) upd_conv_take_nth_drop)
  have len: "length (procs (set_terminated k)) = length (procs k)" "current (set_terminated k) = current k"
    by (simp_all add: set_terminated_def i(1))
  show "procs_ok (set_terminated k)" using ok unfolding procs_ok_def new old len by auto
  have "distinct (map pr_pid (filter runs ?a) @ p # map pr_pid (filter runs ?b))"
    using ok i(3) unfolding procs_ok_def old by simp
  then show "set (filter runs (procs (set_terminated k))) = {q \<in> set (filter runs (procs k)). pr_pid q \<noteq> p}"
    unfolding new old by (auto simp: i(3))
qed

lemma set_terminated_sel [simp]: "mem (set_terminated k) = mem k" "frames_pmm (set_terminated k) = frames_pmm k"
  by (simp_all add: set_terminated_def split: option.splits)

lemma set_terminated_laws:
  assumes ok: "kernel_ok k F" and c: "current_user k = Some p"
  shows "kernel_ok (set_terminated k) F" and "shm_view (set_terminated k) = (shm_view k)(p := Map.empty)"
proof -
  note D = kernel_okD [OF ok] and r = terminated_runs [OF kernel_okD(2) [OF ok] c]
  have sub: "dirs (set_terminated k) \<subseteq> dirs k" using r(2) by (auto simp: dirs_def)
  have rd: "read_entry (set_terminated k) = read_entry k" by (simp add: read_entry_def fun_eq_iff)
  have tk: "taken (set_terminated k) = taken k" by (simp add: taken_def fun_eq_iff)
  have ht: "has_table k d i" if "has_table (set_terminated k) d i" for d i
    using that sub by (auto simp: has_table_def rd)
  have to: "table_of (set_terminated k) = table_of k" by (simp add: table_of_def rd fun_eq_iff)
  show "kernel_ok (set_terminated k) F"
  proof (rule kernel_okI)
    show "taken (set_terminated k) (table_of (set_terminated k) d i) \<and> table_of (set_terminated k) d i \<notin> F
        \<and> table_of (set_terminated k) d i \<notin> dirs (set_terminated k)" if "has_table (set_terminated k) d i" for d i
      using D(5) [OF ht [OF that]] sub unfolding to tk by blast
    show "d = e \<and> i = j" if "has_table (set_terminated k) d i" "has_table (set_terminated k) e j"
        "table_of (set_terminated k) d i = table_of (set_terminated k) e j" for d i e j
      using D(6) [OF ht [OF that(1)] ht [OF that(2)]] that(3) unfolding to by blast
  qed (use D(1,3,4) r(1) sub in \<open>auto simp: tk\<close>)
  have wk: "walk (set_terminated k) = walk k" by (rule walk_mem) simp
  have "space (set_terminated k) q = Some d \<longleftrightarrow> (if q = p then None else space k q) = Some d" for q d
    unfolding space_iff [OF r(1)] r(2) using space_iff [OF D(2), of q d] by auto
  then have "space (set_terminated k) q = (if q = p then None else space k q)" for q
    by (metis not_Some_eq)
  then show "shm_view (set_terminated k) = (shm_view k)(p := Map.empty)" by (auto simp: shm_view_def wk fun_eq_iff split: option.splits)
qed

section \<open>Runs\<close>

inductive shm_run :: "shm \<Rightarrow> machine \<Rightarrow> bool" where
  boot: "kernel_ok k {} \<Longrightarrow> shm_view k = (\<lambda>p. Map.empty) \<Longrightarrow> shm_run shm_new k"
| sys_create: "shm_run s k \<Longrightarrow> current_user k = Some p \<Longrightarrow> rust_shm_create KernelHal p sz flags out s k = (r, s', k') \<Longrightarrow> shm_run s' k'"
| sys_grant: "shm_run s k \<Longrightarrow> current_user k = Some p \<Longrightarrow> rust_shm_grant KernelHal p hdl target rights s k = (e, s', k') \<Longrightarrow> shm_run s' k'"
| sys_map: "shm_run s k \<Longrightarrow> current_user k = Some p \<Longrightarrow> rust_shm_map KernelHal p hdl want out s k = (r, s', k') \<Longrightarrow> shm_run s' k'"
| sys_unmap: "shm_run s k \<Longrightarrow> current_user k = Some p \<Longrightarrow> rust_shm_unmap KernelHal p addr s k = (e, s', k') \<Longrightarrow> shm_run s' k'"
| sys_destroy: "shm_run s k \<Longrightarrow> current_user k = Some p \<Longrightarrow> rust_shm_destroy KernelHal p hdl s k = (e, s', k') \<Longrightarrow> shm_run s' k'"
| sys_exit: "shm_run s k \<Longrightarrow> current_user k = Some p \<Longrightarrow> exit_current s k = (s', k') \<Longrightarrow> shm_run s' k'"
| sys_fork: "shm_run s k \<Longrightarrow> current_user k = Some p \<Longrightarrow> p \<noteq> child \<Longrightarrow> rust_shm_fork p child s = (0, s')
    \<Longrightarrow> kernel_ok k' (owned s) \<Longrightarrow> shm_view k' = (shm_view k)(child := shm_view k p) \<Longrightarrow> shm_run s' k'"
| other: "shm_run s k \<Longrightarrow> kernel_ok k' (owned s) \<Longrightarrow> shm_view k' = shm_view k \<Longrightarrow> shm_run s k'"

lemma shm_new_get:
  "i < MAX_OBJECTS \<Longrightarrow> objects shm_new ! i = EMPTY_OBJ" "i < MAX_OBJECTS \<Longrightarrow> frames shm_new ! i = replicate MAX_PAGES_PER_OBJECT 0"
  "r \<in> set (maps shm_new) \<Longrightarrow> r = EMPTY_MAP" "refs (maps shm_new) i = 0" "held (maps shm_new) p = 0"
  by (simp_all add: shm_new_def refs_def held_def count_if_replicate EMPTY_MAP_def)

lemma shm_ok_new: "shm_ok shm_new"
proof -
  have "shm_core shm_new"
  proof (rule shm_coreI)
    show "recs_apart (maps shm_new)" by (simp add: recs_apart_def shm_new_def EMPTY_MAP_def)
    show "unat (total_pages shm_new) = sum_list (map (unat \<circ> pages) (objects shm_new))"
      by (simp add: shm_new_def EMPTY_OBJ_def sum_list_replicate)
    show "total_pages shm_new \<le> MAX_TOTAL_PAGES" by (simp add: shm_new_def)
  qed (auto simp: shm_new_get object_ok_def frames_ok_def EMPTY_OBJ_def dest!: shm_new_get(3), 
    simp_all add: shm_new_def EMPTY_MAP_def)
  then show ?thesis by (simp add: shm_ok_def shm_new_def EMPTY_OBJ_def)
qed

lemma boot_coherent: "kernel_ok k {} \<Longrightarrow> shm_view k = (\<lambda>p. Map.empty) \<Longrightarrow> kern.coherent shm_new k"
proof (rule kern.coherentI [OF shm_ok_new])
  assume k: "kernel_ok k {}" "shm_view k = (\<lambda>p. Map.empty)"
  have "frames_of shm_new i = []" if "i < MAX_OBJECTS" for i
    using that by (simp add: frames_of_def shm_new_get(1) EMPTY_OBJ_def)
  then show "kernel_ok k (owned shm_new)" "frames_distinct shm_new" using k(1) by (simp_all add: owned_def frames_distinct_def)
  have "live_recs (maps shm_new) = {}" by (auto simp: live_recs_def shm_new_def EMPTY_MAP_def)
  then show "agrees shm_new (shm_view k)" using k(2) by (simp add: agrees_def table_maps_def)
qed

lemma exit_current_coherent:
  assumes co: "kern.coherent s k" and c: "current_user k = Some p" and eq: "exit_current s k = (s', k')"
  shows "kern.coherent s' k'"
proof -
  obtain q where q: "process_current k = Some q" "pr_pid q = p"
    using c by (auto simp: current_user_def split: option.splits if_splits)
  then obtain k1 where e: "process_exit KernelHal p s k = (s', k1)" "k' = set_terminated k1"
    using eq by (auto simp: exit_current_def rust_shm_process_exit_def split: prod.splits)
  note x = kern.exit_coherent [OF co e(1)]
  then have ok: "kernel_ok k1 (owned s')" and c1: "current_user k1 = Some p" using c by simp_all
  from x set_terminated_laws [OF ok c1] show ?thesis unfolding e(2) by (intro kern.coherentI) auto
qed

lemma neg_errno_0: "neg_errno r = 0 \<Longrightarrow> (\<And>e. r = Err e \<Longrightarrow> 0 < e) \<Longrightarrow> r = Ok ()"
  by (cases r) auto

lemma fork_errno: "fork parent child s = (Err e, s') \<Longrightarrow> 0 < e"
  by (auto simp: fork_def Let_def split: if_splits prod.splits)

lemma shm_run_coherent: "shm_run s k \<Longrightarrow> kern.coherent s k"
proof (induction rule: shm_run.induct)
  case (boot k)
  then show ?case by (rule boot_coherent)
next
  case (sys_create s k p sz flags out r s' k')
  then obtain r0 where "create KernelHal p sz flags s k = (r0, s', k')"
    by (auto simp: rust_shm_create_def split: prod.splits result.splits)
  with kern.create_coherent [OF sys_create.IH] show ?case by blast
next
  case (sys_grant s k p hdl target rights e s' k')
  then obtain r where "grant KernelHal p hdl target rights s k = (r, s', k')"
    by (auto simp: rust_shm_grant_def split: prod.splits)
  with kern.grant_coherent [OF sys_grant.IH] show ?case by blast
next
  case (sys_map s k p hdl want out r s' k')
  then obtain r0 where "shm_map KernelHal p hdl want s k = (r0, s', k')"
    by (auto simp: rust_shm_map_def split: prod.splits result.splits)
  with kern.map_coherent [OF sys_map.IH sys_map.hyps(2)] show ?case by blast
next
  case (sys_unmap s k p addr e s' k')
  then obtain r where "unmap KernelHal p addr s k = (r, s', k')"
    by (auto simp: rust_shm_unmap_def split: prod.splits)
  with kern.unmap_coherent [OF sys_unmap.IH sys_unmap.hyps(2)] show ?case by blast
next
  case (sys_destroy s k p hdl e s' k')
  then obtain r where "destroy KernelHal p hdl s k = (r, s', k')"
    by (auto simp: rust_shm_destroy_def split: prod.splits)
  with kern.destroy_coherent [OF sys_destroy.IH] show ?case by blast
next
  case (sys_exit s k p s' k')
  then show ?case using exit_current_coherent by blast
next
  case (sys_fork s k p child s' k')
  then obtain r where r: "fork p child s = (r, s')" "neg_errno r = 0"
    by (auto simp: rust_shm_fork_def split: prod.splits)
  then have "r = Ok ()" using fork_errno neg_errno_0 by blast
  with r kern.fork_coherent [OF sys_fork.IH sys_fork.hyps(3) _ sys_fork.hyps(5,6)] show ?case by blast
next
  case (other s k k')
  then show ?case using kern.coherentD [OF other.IH] by (intro kern.coherentI) auto
qed

section \<open>Calls over any hardware\<close>

text \<open>
  The books of the table need nothing from the hardware: here the calls run over any \<open>Hal\<close>, whatever it answers.
\<close>

datatype shm_op =
    ShmCreate i32 u32 u32
  | ShmGrant i32 u32 i32 u32
  | ShmMap i32 u32 u32
  | ShmUnmap i32 u32
  | ShmDestroy i32 u32
  | ShmExit i32
  | ShmFork i32 i32

fun shm_op_ok :: "shm_op \<Rightarrow> bool" where
  "shm_op_ok (ShmFork parent child) = (parent \<noteq> child)"
| "shm_op_ok _ = True"

fun shm_step :: "('h, 'z) hal_scheme \<Rightarrow> shm_op \<Rightarrow> shm \<times> 'h \<Rightarrow> shm \<times> 'h" where
  "shm_step hal (ShmCreate p sz flags) (s, h) = snd (rust_shm_create hal p sz flags (0, 0) s h)"
| "shm_step hal (ShmGrant p hdl target rights) (s, h) = snd (rust_shm_grant hal p hdl target rights s h)"
| "shm_step hal (ShmMap p hdl want) (s, h) = snd (rust_shm_map hal p hdl want (0, 0) s h)"
| "shm_step hal (ShmUnmap p addr) (s, h) = snd (rust_shm_unmap hal p addr s h)"
| "shm_step hal (ShmDestroy p hdl) (s, h) = snd (rust_shm_destroy hal p hdl s h)"
| "shm_step hal (ShmExit p) (s, h) = rust_shm_process_exit hal p s h"
| "shm_step hal (ShmFork parent child) (s, h) = (snd (rust_shm_fork parent child s), h)"

lemma shm_step_ok: "shm_ok (fst x) \<Longrightarrow> shm_op_ok op \<Longrightarrow> shm_ok (fst (shm_step hal op x))"
proof -
  assume ok: "shm_ok (fst x)" and op: "shm_op_ok op"
  obtain s h where x: "x = (s, h)" by (cases x)
  with ok have ok: "shm_ok s" by simp
  show ?thesis
  proof (cases op)
    case (ShmCreate p sz flags)
    obtain r s' h' where e: "create hal p sz flags s h = (r, s', h')" by (cases "create hal p sz flags s h")
    with create_ok(1) [OF ok e] show ?thesis by (cases r) (auto simp: x ShmCreate rust_shm_create_def)
  next
    case (ShmGrant p hdl t rights)
    obtain r s' h' where e: "grant hal p hdl t rights s h = (r, s', h')" by (cases "grant hal p hdl t rights s h")
    with grant_ok(1) [OF ok e] show ?thesis by (simp add: x ShmGrant rust_shm_grant_def)
  next
    case (ShmMap p hdl want)
    obtain r s' h' where e: "shm_map hal p hdl want s h = (r, s', h')" by (cases "shm_map hal p hdl want s h")
    with map_ok(1) [OF ok e] show ?thesis by (cases r) (auto simp: x ShmMap rust_shm_map_def)
  next
    case (ShmUnmap p addr)
    obtain r s' h' where e: "unmap hal p addr s h = (r, s', h')" by (cases "unmap hal p addr s h")
    with unmap_ok(1) [OF ok e] show ?thesis by (simp add: x ShmUnmap rust_shm_unmap_def)
  next
    case (ShmDestroy p hdl)
    obtain r s' h' where e: "destroy hal p hdl s h = (r, s', h')" by (cases "destroy hal p hdl s h")
    with destroy_ok(1) [OF ok e] show ?thesis by (simp add: x ShmDestroy rust_shm_destroy_def)
  next
    case (ShmExit p)
    obtain s' h' where e: "process_exit hal p s h = (s', h')" by (cases "process_exit hal p s h")
    with process_exit_ok [OF ok e] show ?thesis by (simp add: x ShmExit rust_shm_process_exit_def)
  next
    case (ShmFork parent child)
    obtain r s' where e: "fork parent child s = (r, s')" by (cases "fork parent child s")
    from fork_ok(1) [OF ok _ e] op e show ?thesis by (simp add: x ShmFork rust_shm_fork_def)
  qed
qed

interpretation shm_machine: invariant_machine shm_op_ok "shm_step hal" "(shm_new, h)" "\<lambda>x. shm_ok (fst x)" for hal h
  by unfold_locales (auto intro: shm_ok_new shm_step_ok)

section \<open>Properties\<close>

text \<open>
  (C26) The books always balance: after any calls, by any processes and over hardware that may fail or lie, the
  kernel's own self-test of the shared-memory table finds nothing wrong.
\<close>

theorem shm_books_balance:
  "reachable shm_op_ok (shm_step hal) (shm_new, h) (s, h') \<Longrightarrow> fst (rust_shm_selftest s) = 0"
  using shm_machine.reachable_inv [of hal h "(s, h')"] shm_check_counts_ok [of s] by (simp add: rust_shm_selftest_def)

lemma agreed_frame:
  assumes co: "kern.coherent s k" and v: "shm_view k p v = Some (f, w)"
  obtains r where "r \<in> set (maps s)" "m_in_use r" "m_pid r = p" "rec_ok (objects s) r"
    "f \<in> set (frames_of s (unat (m_obj r)))" "w = (m_rights r AND RIGHT_WRITE \<noteq> 0)"
proof -
  note d = kern.coherentD [OF co]
  from v agreesD [OF d(5)] obtain r where r: "r \<in> live_recs (maps s)" "m_pid r = p" "rec_maps s r v (f, w)"
    by (auto simp: table_maps_def)
  note ok = live_rec_ok [OF d(2) r(1)]
  have slot: "unat (m_obj r) < MAX_OBJECTS" using ok core_len [OF d(2)] by (simp add: rec_ok_def)
  have pg: "m_pages r = pages (objects s ! unat (m_obj r))" using ok by (simp add: rec_ok_def)
  from r(3) obtain i where i: "i < unat (m_pages r)" "f = frames s ! unat (m_obj r) ! i" "w = (m_rights r AND RIGHT_WRITE \<noteq> 0)"
    by (auto simp: rec_maps_def)
  have "f = frames_of s (unat (m_obj r)) ! i" using i pg by (simp add: frames_of_nth)
  moreover have "i < length (frames_of s (unat (m_obj r)))" using i(1) pg length_frames_of [OF d(2) slot] by simp
  ultimately have "f \<in> set (frames_of s (unat (m_obj r)))" by simp
  with r ok i(3) show thesis by (intro that [of r]) (auto simp: live_recs_def)
qed



lemma create_errno: "create hal p sz flags s h = (Err e, s', h') \<Longrightarrow> 0 < e"
  by (auto simp: create_def Let_def split: if_splits option.splits prod.splits bool.splits)


lemma rust_shm_create_Ok:
  "rust_shm_create hal p sz flags out s h = ((0, hdl, n), s', h') \<Longrightarrow> create hal p sz flags s h = (Ok (hdl, n), s', h')"
  using create_errno [of hal p sz flags s h] by (auto simp: rust_shm_create_def split: prod.splits result.splits)

text \<open>The size an object gets: whole pages, at least what was asked for.\<close>

lemma round_up_pages:
  assumes "sz \<noteq> 0" "\<not> of_nat MAX_PAGES_PER_OBJECT * PAGE_SIZE < sz"
  shows "unat ((sz + PAGE_SIZE - 1) div PAGE_SIZE) = (unat sz + 4095) div 4096"
proof -
  have b: "unat sz \<le> 16777216" using assms(2) by (simp add: word_less_nat_alt kconst)
  have "sz + PAGE_SIZE - 1 = sz + 4095" by (simp add: kconst)
  moreover have "unat (sz + 4095) = unat sz + 4095" using b by (subst unat_add_small) simp_all
  ultimately show ?thesis unfolding unat_div by (simp only: kconst) simp
qed

lemma create_size:
  assumes core: "shm_core s" and eq: "create hal p sz flags s h = (Ok (hdl, n), s', h')" and l: "lookup s' hdl = Ok slot"
    and core': "shm_core s'"
  shows "unat n = length (frames_of s' slot) * 4096" "unat sz \<le> unat n" "unat n < unat sz + 4096"
proof -
  have a: "sz \<noteq> 0" "\<not> of_nat MAX_PAGES_PER_OBJECT * PAGE_SIZE < sz" using eq by (auto simp: create_def split: if_splits)
  let ?n = "(sz + PAGE_SIZE - 1) div PAGE_SIZE"
  note ru = round_up_pages [OF a]
  from core eq have "pages (objects s' ! slot) = ?n \<and> n = ?n * PAGE_SIZE \<and> unat ?n \<le> MAX_PAGES_PER_OBJECT"
  proof (cases rule: create_cases)
    case (new k fs)
    have len: "k < length (objects s)" using new(1) core_len [OF core] by simp
    have "objects s' ! k = fresh_object (objects s ! k) p ?n" using len unfolding new(7) by simp
    moreover have "lookup s' (handle_for s' k) = Ok k"
      using new(1,3) len core' calculation by (intro lookup_handle) (auto simp: fresh_object_def)
    ultimately show ?thesis using new(4,8) l by (auto simp: fresh_object_def)
  qed simp_all
  then have p: "pages (objects s' ! slot) = ?n" and n: "n = ?n * PAGE_SIZE" and b: "unat ?n \<le> 4096" by (simp_all add: kconst)
  have un: "unat n = unat ?n * 4096" unfolding n using b by (subst unat_mult_small) (simp_all add: kconst)
  show "unat n = length (frames_of s' slot) * 4096"
    unfolding un length_frames_of [OF core' lookup_Ok(1) [OF l]] p ..
  show "unat sz \<le> unat n" "unat n < unat sz + 4096" unfolding un ru by (simp_all add: algebra_simps) 
qed

text \<open>
  (C8) A new object is private and clean: its size is the size asked for, rounded up to whole pages; its handle
  resolves; it belongs to the caller; and each of its frames was in no object and in no process's view before
  the call and is filled with zeros after it, so no data leaks from its last user.
\<close>

theorem shm_create_fresh:
  assumes run: "shm_run s k" and c: "current_user k = Some p"
    and eq: "rust_shm_create KernelHal p sz flags out s k = ((0, hdl, n), s', k')"
  shows "\<exists>slot < MAX_OBJECTS. lookup s' hdl = Ok slot \<and> owner (objects s' ! slot) = p
     \<and> unat n = length (frames_of s' slot) * 4096 \<and> unat sz \<le> unat n \<and> unat n < unat sz + 4096
     \<and> (\<forall>f \<in> set (frames_of s' slot). f \<notin> owned s \<and> (\<forall>q v w. shm_view k q v \<noteq> Some (f, w)) \<and> frame_zero k' f)"
proof -
  note co = shm_run_coherent [OF run]
  note e = rust_shm_create_Ok [OF eq]
  from kern.create_coherent [OF co e] obtain slot where co': "kern.coherent s' k'"
    and sl: "slot < MAX_OBJECTS" "lookup s' hdl = Ok slot" "owner (objects s' ! slot) = p" "set (frames_of s' slot) \<inter> owned s = {}"
      "\<forall>f \<in> set (frames_of s' slot). frame_zero k' f" by blast
  have "f \<notin> owned s \<and> (\<forall>q v w. shm_view k q v \<noteq> Some (f, w))" if "f \<in> set (frames_of s' slot)" for f
  proof
    show no: "f \<notin> owned s" using that sl(4) by blast
    show "\<forall>q v w. shm_view k q v \<noteq> Some (f, w)"
    proof (intro allI notI)
      fix q v w assume "shm_view k q v = Some (f, w)"
      with co obtain r where "rec_ok (objects s) r" "f \<in> set (frames_of s (unat (m_obj r)))" by (rule agreed_frame)
      then have "f \<in> owned s" using core_len [OF kern.coherentD(2) [OF co]] by (auto simp: owned_def rec_ok_def)
      with no show False ..
    qed
  qed
  with sl create_size [OF kern.coherentD(2) [OF co] e sl(2) kern.coherentD(2) [OF co']] show ?thesis by blast
qed


lemma update_count: "\<exists>x. (obs[j := (obs ! j)\<lparr>map_count := n\<rparr>]) ! i = (obs ! i)\<lparr>map_count := x\<rparr>"
proof (cases "i = j \<and> j < length obs")
  case True
  then show ?thesis by (intro exI [of _ n]) simp
next
  case False
  then have "(obs[j := (obs ! j)\<lparr>map_count := n\<rparr>]) ! i = obs ! i" by (cases "i = j") (simp_all add: list_update_beyond)
  then show ?thesis by (intro exI [of _ "map_count (obs ! i)"]) simp
qed

lemma fold_drop_object: "\<exists>x. objects (fold (drop_one p) is s) ! i = (objects s ! i)\<lparr>map_count := x\<rparr>"
proof (induction "is" arbitrary: s)
  case Nil
  show ?case by (intro exI [of _ "map_count (objects s ! i)"]) simp
next
  case (Cons j "is")
  have "\<exists>x. objects (drop_one p j s) ! i = (objects s ! i)\<lparr>map_count := x\<rparr>"
  proof (cases "m_in_use (maps s ! j) \<and> m_pid (maps s ! j) = p")
    case True
    then show ?thesis using update_count by (simp add: drop_one_def drop_rec_def Let_def)
  next
    case False
    then show ?thesis by (intro exI [of _ "map_count (objects s ! i)"]) (auto simp: drop_one_def)
  qed
  then obtain x where x: "objects (drop_one p j s) ! i = (objects s ! i)\<lparr>map_count := x\<rparr>" ..
  obtain y where "objects (fold (drop_one p) is (drop_one p j s)) ! i = (objects (drop_one p j s) ! i)\<lparr>map_count := y\<rparr>"
    using Cons by blast
  then show ?case unfolding x by (intro exI [of _ y]) simp
qed

lemma exit_object:
  assumes core: "shm_core s" and i: "i < MAX_OBJECTS" and eq: "process_exit hal p s h = (s', h')" and u: "in_use (objects s' ! i)"
  shows "owner (objects s' ! i) = p \<longrightarrow> dying (objects s' ! i)"
    and "g \<in> set (grants (objects s' ! i)) \<Longrightarrow> g_rights g \<noteq> 0 \<Longrightarrow> g_pid g \<noteq> p"
proof -
  let ?ob = "objects s ! i"
  have len: "i < length (objects s)" using i core_len [OF core] by simp
  have sw: "sweep hal [0..<MAX_OBJECTS] (exit_marked p s) h = (s', h')" using eq by (simp add: process_exit_def exit_marked_def)
  from sweep_objects [OF exit_marked_core [OF core] _ _ sw i] u
  have e: "objects s' ! i = objects (exit_marked p s) ! i" by (auto simp: emptied_def EMPTY_OBJ_def split: if_splits)
  let ?t = "fold (drop_one p) [0..<MAX_MAP_RECORDS] (mark_dying p s)"
  have m: "objects (mark_dying p s) ! i = (if in_use ?ob \<and> owner ?ob = p then ?ob\<lparr>dying := True\<rparr> else ?ob)"
    using len by (simp add: mark_dying_def)
  obtain x where t: "objects ?t ! i = (objects (mark_dying p s) ! i)\<lparr>map_count := x\<rparr>" using fold_drop_object by blast
  have "length (objects ?t) = MAX_OBJECTS" using core_len fold_drop_core [OF mark_dying_core [OF core]] by simp
  then have f: "objects (exit_marked p s) ! i = (if in_use (objects ?t ! i) then (objects ?t ! i)\<lparr>grants :=
      map (\<lambda>g. if g_rights g \<noteq> 0 \<and> g_pid g = p then EMPTY_GRANT else g) (grants (objects ?t ! i))\<rparr> else objects ?t ! i)"
    using i by (simp add: exit_marked_def forget_grants_def)
  have ut: "in_use (objects ?t ! i)" using u f unfolding e by (auto split: if_splits)
  then show "owner (objects s' ! i) = p \<longrightarrow> dying (objects s' ! i)" unfolding e f t m by auto
  show "g_pid g \<noteq> p" if "g \<in> set (grants (objects s' ! i))" "g_rights g \<noteq> 0"
    using that ut unfolding e f by (auto simp: EMPTY_GRANT_def split: if_splits)
qed

text \<open>
  (C9) A process that ends leaves nothing behind: no mapping and no mapping record, no grant, and of its objects
  only those that others still map, which are marked for destruction.  The other processes keep their view.
\<close>

theorem shm_exit_releases:
  assumes run: "shm_run s k" and c: "current_user k = Some p" and eq: "exit_current s k = (s', k')"
  shows "shm_view k' = (shm_view k)(p := Map.empty) \<and> (\<forall>r \<in> set (maps s'). m_in_use r \<longrightarrow> m_pid r \<noteq> p)
    \<and> (\<forall>ob \<in> set (objects s'). in_use ob \<longrightarrow> (owner ob = p \<longrightarrow> dying ob) \<and> (dying ob \<longrightarrow> map_count ob \<noteq> 0)
         \<and> (\<forall>g \<in> set (grants ob). g_rights g \<noteq> 0 \<longrightarrow> g_pid g \<noteq> p))"
proof -
  note co = shm_run_coherent [OF run]
  note d = kern.coherentD [OF co]
  obtain q where q: "process_current k = Some q" "pr_pid q = p"
    using c by (auto simp: current_user_def split: option.splits if_splits)
  then obtain k1 where e: "process_exit KernelHal p s k = (s', k1)" "k' = set_terminated k1"
    using eq by (auto simp: exit_current_def rust_shm_process_exit_def split: prod.splits)
  note x = kern.exit_coherent [OF co e(1)]
  then have ok: "kernel_ok k1 (owned s')" and c1: "current_user k1 = Some p" using c by simp_all
  have 1: "shm_view k' = (shm_view k)(p := Map.empty)" using x set_terminated_laws(2) [OF ok c1] unfolding e(2) by simp
  have sw: "sweep KernelHal [0..<MAX_OBJECTS] (exit_marked p s) k = (s', k1)"
    using e(1) by (simp add: process_exit_def exit_marked_def)
  have "maps s' = maps (exit_marked p s)" using sweep_core [OF exit_marked_core [OF d(2)] _ sw] by simp
  then have 2: "m_pid r \<noteq> p" if "r \<in> set (maps s')" "m_in_use r" for r
    using that exit_marked_memory(3) [OF d(2), of p] by (auto simp: live_recs_def)
  have ok': "shm_ok s'" by (rule process_exit_ok [OF d(1) e(1)])
  have "(owner ob = p \<longrightarrow> dying ob) \<and> (dying ob \<longrightarrow> map_count ob \<noteq> 0) \<and> (\<forall>g \<in> set (grants ob). g_rights g \<noteq> 0 \<longrightarrow> g_pid g \<noteq> p)"
    if o: "ob \<in> set (objects s')" "in_use ob" for ob
  proof -
    obtain i where i: "i < MAX_OBJECTS" "ob = objects s' ! i"
      using o(1) core_len [OF shm_ok_core [OF ok']] by (auto simp: in_set_conv_nth)
    from exit_object [OF d(2) i(1) e(1)] o ok' show ?thesis unfolding i(2) shm_ok_def by auto
  qed
  with 1 2 show ?thesis by blast
qed

text \<open>
  (C27) Recording a fork is all or nothing: on success the child has exactly the mappings of its parent and nobody
  else's change, no frame is added or lost; on failure the table is unchanged.
\<close>

theorem shm_fork_effect:
  assumes run: "shm_run s k" and ne: "p \<noteq> child" and eq: "rust_shm_fork p child s = (e, s')"
  shows "if e = 0 then (\<forall>q v x. table_maps s' q v x \<longleftrightarrow> table_maps s (if q = child then p else q) v x)
       \<and> (\<forall>i < MAX_OBJECTS. frames_of s' i = frames_of s i) else s' = s"
proof -
  note d = kern.coherentD [OF shm_run_coherent [OF run]]
  obtain r where r: "fork p child s = (r, s')" "e = neg_errno r" using eq by (auto simp: rust_shm_fork_def split: prod.splits)
  from d(1) ne r(1) show ?thesis
  proof (cases rule: fork_cases)
    case (refused x)
    then show ?thesis using fork_errno [of p child s x s'] r by simp
  next
    case forked
    note fa = fork_agrees [OF forked(2) d(2) forked(3) d(5)]
    have "table_maps s' q v x \<longleftrightarrow> table_maps s (if q = child then p else q) v x" for q v x
      using agreesD [OF fa(1), of q v x] agreesD [OF d(5), of "if q = child then p else q" v x] by auto
    with forked(1) r(2) fa(2) show ?thesis by simp
  qed
qed

text \<open>
  (C28) Address selection is first fit, and finds a gap whenever there is one.  After any calls, \<open>find_gap\<close> returns the
  lowest page-aligned address of the region from which the mapping and its guard page meet no mapping or
  guard page of the process; it answers none only when no address of the region would do.
\<close>

theorem shm_find_gap_first_fit:
  assumes "reachable shm_op_ok (shm_step hal) (shm_new, h) (s, h')" and "unat n \<le> MAX_PAGES_PER_OBJECT"
  shows "case find_gap s p (n + 1) SHM_VIRT_BASE SHM_VIRT_END of
      Some g \<Rightarrow> 4096 dvd unat g \<and> unat SHM_VIRT_BASE \<le> unat g \<and> unat g + (unat n + 1) * 4096 \<le> unat SHM_VIRT_END
        \<and> clear_of s p (unat n) (unat g)
        \<and> (\<forall>x. unat SHM_VIRT_BASE \<le> x \<longrightarrow> x < unat g \<longrightarrow> \<not> clear_of s p (unat n) x)
    | None \<Rightarrow> \<forall>x. unat SHM_VIRT_BASE \<le> x \<longrightarrow> x + (unat n + 1) * 4096 \<le> unat SHM_VIRT_END \<longrightarrow> \<not> clear_of s p (unat n) x"
  using shm_machine.reachable_inv [OF assms(1)] by (intro find_gap_spec [OF _ assms(2)] shm_ok_core) simp

section \<open>A run\<close>

text \<open>
  A kernel with one process (pid 7, page directory at 0x1000) and eight frames, of which the first two are
  taken.  The process creates an object of one page and maps it.
\<close>

definition demo_kernel :: machine where
  "demo_kernel = \<lparr>frames_pmm = \<lparr>bitmap = replicate BITMAP_WORDS 3, total_frames = 8\<rparr>, mem = (\<lambda>_. 0),
     procs = [\<lparr>pr_pid = 7, pr_state = PROCESS_RUNNING, is_user = True, page_directory_phys = 0x1000\<rparr>], current = Some 0\<rparr>"

lemma demo_boot: "shm_run shm_new demo_kernel" "current_user demo_kernel = Some 7"
proof -
  show "current_user demo_kernel = Some 7" by (simp add: current_user_def process_current_def demo_kernel_def runs_def)
  have rd: "read_entry demo_kernel t i = 0" for t i by (simp add: read_entry_def demo_kernel_def)
  have pm: "pmm_ok (frames_pmm demo_kernel)" by (simp add: pmm_ok_def used_def demo_kernel_def BITMAP_WORDS_def)
  have d: "dirs demo_kernel = {0x1000}" by (simp add: dirs_def demo_kernel_def runs_def)
  have "taken demo_kernel 0x1000"
    by (simp add: taken_def is_frame_def used_def demo_kernel_def BITMAP_WORDS_def bit_numeral_rec)
  moreover have "procs_ok demo_kernel" by (simp add: procs_ok_def demo_kernel_def runs_def)
  ultimately have ok: "kernel_ok demo_kernel {}"
    by (intro kernel_okI) (simp_all add: pm d has_table_def rd)
  have "shm_view demo_kernel = (\<lambda>p. Map.empty)"
    by (auto simp: shm_view_def walk_def rd fun_eq_iff split: option.splits)
  with ok show "shm_run shm_new demo_kernel" by (rule shm_run.boot)
qed

lemma demo_alloc: "pmm_alloc_frame (frames_pmm demo_kernel) = (0x2000, \<lparr>bitmap = (replicate BITMAP_WORDS 3)[0 := 7], total_frames = 8\<rparr>)"
  by (simp add: demo_kernel_def pmm_alloc_frame_def pmm_eval)

lemma demo_alloc2: "pmm_alloc_frame \<lparr>bitmap = (replicate BITMAP_WORDS 3)[0 := 7], total_frames = 8\<rparr> = (0x3000, \<lparr>bitmap = (replicate BITMAP_WORDS 3)[0 := 15], total_frames = 8\<rparr>)"
  by (simp add: pmm_alloc_frame_def pmm_eval)

definition demo_kernel1 :: machine where
  "demo_kernel1 = clear_frame 0x2000 (demo_kernel\<lparr>frames_pmm := \<lparr>bitmap = (replicate BITMAP_WORDS 3)[0 := 7], total_frames = 8\<rparr>\<rparr>)"

definition demo_shm1 :: shm where
  "demo_shm1 = shm_new\<lparr>frames := (frames shm_new)[0 := (replicate MAX_PAGES_PER_OBJECT 0)[0 := 0x2000]],
     objects := (objects shm_new)[0 := \<lparr>in_use = True, dying = False, gen = 1, owner = 7, pages = 1, map_count = 0,
       grants = replicate MAX_GRANTS EMPTY_GRANT\<rparr>], total_pages := 1\<rparr>"

lemma demo_alloc_hal: "alloc_frame KernelHal demo_kernel = (Some 0x2000, demo_kernel\<lparr>frames_pmm := \<lparr>bitmap = (replicate BITMAP_WORDS 3)[0 := 7], total_frames = 8\<rparr>\<rparr>)"
  by (simp add: KernelHal_def shm_hal_alloc_frame_def demo_alloc PAGING_IDENTITY_MAP_BYTES_def)

lemma demo_create: "rust_shm_create KernelHal 7 100 0 (0, 0) shm_new demo_kernel = ((0, 0x101, 4096), demo_shm1, demo_kernel1)"
proof -
  have "alloc_frames KernelHal [0..<1] (replicate MAX_PAGES_PER_OBJECT 0) demo_kernel = (True, (replicate MAX_PAGES_PER_OBJECT 0)[0 := 0x2000], demo_kernel1)"
   by (simp add: demo_alloc_hal demo_kernel1_def) (simp add: KernelHal_def shm_hal_zero_frame_def)
  then have "create KernelHal 7 100 0 shm_new demo_kernel = (Ok (0x101, 4096), demo_shm1, demo_kernel1)"
   by (simp add: create_def shm_new_def count_if_replicate position_replicate EMPTY_OBJ_def PAGE_SIZE_def MAX_OBJECTS_def 
     MAX_OBJECTS_PER_OWNER_def MAX_TOTAL_PAGES_def demo_shm1_def handle_for_def MAX_PAGES_PER_OBJECT_def)
  then show ?thesis by (simp add: rust_shm_create_def)
qed

definition demo_shm2 :: shm where
  "demo_shm2 = add_rec 0 \<lparr>m_in_use = True, m_pid = 7, m_addr = 0x68000000, m_pages = 1, m_obj = 0, m_rights = 3\<rparr> demo_shm1"

definition demo_kernel2 :: machine where
  "demo_kernel2 = write_entry 0x3000 0 0x2407 (write_entry 0x1000 416 0x3007 (clear_frame 0x3000
     (demo_kernel1\<lparr>frames_pmm := \<lparr>bitmap = (replicate BITMAP_WORDS 3)[0 := 15], total_frames = 8\<rparr>\<rparr>)))"

lemma demo_pages: "map_pages KernelHal 7 0x68000000 True ((replicate MAX_PAGES_PER_OBJECT 0)[0 := 0x2000]) [0..<1] demo_kernel1 = (True, demo_kernel2)"
proof -
  have "paging_map_page 0x1000 0x68000000 0x2000 (PAGE_PRESENT OR PAGE_USER OR PAGE_SHM OR PAGE_WRITE) demo_kernel1 = (True, demo_kernel2)"
    by (simp add: paging_map_page_def demo_kernel1_def demo_kernel_def demo_kernel2_def read_entry_def clear_frame_def demo_alloc2 
      pd_index_def pt_index_def frame_addr_def Let_def)
  then show ?thesis
    by (simp add: page_addr_def PAGE_SIZE_def MAX_PAGES_PER_OBJECT_def KernelHal_def shm_hal_map_page_def process_current_def demo_kernel1_def demo_kernel_def)
qed

lemma demo_map: "rust_shm_map KernelHal 7 0x101 3 (0, 0) demo_shm1 demo_kernel1 = ((0, 0x68000000, 4096), demo_shm2, demo_kernel2)"
proof -
  have "find_gap demo_shm1 7 2 SHM_VIRT_BASE SHM_VIRT_END = Some 0x68000000"
    by (simp add: find_gap_def gap_spans_def demo_shm1_def shm_new_def EMPTY_MAP_def sort_spans_def SHM_VIRT_BASE_def SHM_VIRT_END_def PAGE_SIZE_def)
  then have "shm_map KernelHal 7 0x101 3 demo_shm1 demo_kernel1 = (Ok (0x68000000, 4096), demo_shm2, demo_kernel2)"
    using demo_pages
    by (simp add: shm_map_def map_in_def lookup_def demo_shm1_def shm_new_def MAX_OBJECTS_def rights_of_def EMPTY_MAP_def list_ex_iff
     count_if_replicate position_replicate MAX_MAPS_PER_PROC_def MAX_MAP_RECORDS_def demo_shm2_def PAGE_SIZE_def)
  then show ?thesis by (simp add: rust_shm_map_def)
qed

lemma demo_current: "current_user demo_kernel1 = Some 7" "current_user demo_kernel2 = Some 7"
  by (simp_all add: demo_kernel1_def demo_kernel2_def current_user_def process_current_def demo_kernel_def runs_def)

lemma demo_run: "shm_run demo_shm1 demo_kernel1" "shm_run demo_shm2 demo_kernel2"
proof -
  show r: "shm_run demo_shm1 demo_kernel1" using demo_boot demo_create by (rule shm_run.sys_create)
  show "shm_run demo_shm2 demo_kernel2" using r demo_current(1) demo_map by (rule shm_run.sys_map)
qed


section \<open>Witnesses\<close>

lemma demo_reachable: "reachable shm_op_ok (shm_step KernelHal) (shm_new, demo_kernel) (demo_shm2, demo_kernel2)"
proof -
  have "shm_step KernelHal (ShmMap 7 0x101 3) (shm_step KernelHal (ShmCreate 7 100 0) (shm_new, demo_kernel)) = (demo_shm2, demo_kernel2)"
    by (simp add: demo_create demo_map)
  moreover have "reachable shm_op_ok (shm_step KernelHal) (shm_new, demo_kernel)
      (shm_step KernelHal (ShmMap 7 0x101 3) (shm_step KernelHal (ShmCreate 7 100 0) (shm_new, demo_kernel)))"
    by (intro reachable.intros) simp_all
  ultimately show ?thesis by simp
qed

theorem shm_books_balance_witness: "fst (rust_shm_selftest demo_shm2) = 0"
  by (rule shm_books_balance [OF demo_reachable])

lemma demo_gap: "find_gap demo_shm2 7 (1 + 1) SHM_VIRT_BASE SHM_VIRT_END = Some 0x68002000"
proof -
  have "maps demo_shm2 = \<lparr>m_in_use = True, m_pid = 7, m_addr = 0x68000000, m_pages = 1, m_obj = 0, m_rights = 3\<rparr> # replicate 255 EMPTY_MAP"
    by (simp add: demo_shm2_def add_rec_def Let_def demo_shm1_def shm_new_def MAX_MAP_RECORDS_def numeral_eq_Suc)
  then show ?thesis
    by (simp add: find_gap_def gap_spans_def EMPTY_MAP_def MAX_MAPS_PER_PROC_def sort_spans_def SHM_VIRT_BASE_def SHM_VIRT_END_def PAGE_SIZE_def)
qed

theorem shm_find_gap_first_fit_witness:
  "clear_of demo_shm2 7 1 0x68002000 \<and> \<not> clear_of demo_shm2 7 1 0x68000000 \<and> \<not> clear_of demo_shm2 7 1 0x68001000"
  using shm_find_gap_first_fit [OF demo_reachable, of 1 7] unfolding demo_gap by (simp add: SHM_VIRT_BASE_def MAX_PAGES_PER_OBJECT_def)


theorem shm_create_fresh_witness:
  "\<exists>slot < MAX_OBJECTS. lookup demo_shm1 0x101 = Ok slot \<and> owner (objects demo_shm1 ! slot) = 7
     \<and> (\<forall>f \<in> set (frames_of demo_shm1 slot). f \<notin> owned shm_new \<and> frame_zero demo_kernel1 f)"
  using shm_create_fresh [OF demo_boot demo_create] by blast


theorem shm_exit_releases_witness:
  "shm_view (snd (exit_current demo_shm2 demo_kernel2)) 7 0x68000000 = None
   \<and> filter (\<lambda>r. m_in_use r \<and> m_pid r = 7) (maps (fst (exit_current demo_shm2 demo_kernel2))) = []"
  using shm_exit_releases [OF demo_run(2) demo_current(2) prod.collapse [symmetric]] by (auto simp: filter_empty_conv)

theorem shm_fork_effect_witness:
  "if fst (rust_shm_fork 7 8 demo_shm2) = 0
   then (\<forall>q v x. table_maps (snd (rust_shm_fork 7 8 demo_shm2)) q v x \<longleftrightarrow> table_maps demo_shm2 (if q = 8 then 7 else q) v x)
     \<and> (\<forall>i < MAX_OBJECTS. frames_of (snd (rust_shm_fork 7 8 demo_shm2)) i = frames_of demo_shm2 i)
   else snd (rust_shm_fork 7 8 demo_shm2) = demo_shm2"
  by (rule shm_fork_effect [OF demo_run(2) _ prod.collapse [symmetric]]) simp

end
