(* ===== verification/Byteorder.thy ===== *)
theory Byteorder
  imports Prelude
begin

text \<open>
  Slices of byte buffers and the byte orders of integers, as the standard library defines them
  (\<open>copy_from_slice\<close>, \<open>to_le_bytes\<close>, \<open>from_be_bytes\<close> and the like).
\<close>

section \<open>Slices\<close>

definition slice :: "usize \<Rightarrow> usize \<Rightarrow> 'a list \<Rightarrow> 'a list" where
  "slice off n xs = take n (drop off xs)"

text \<open>\<open>buf[off..off + n].copy_from_slice(src)\<close>, which the callers only use within the buffer.\<close>

definition write_at :: "usize \<Rightarrow> 'a list \<Rightarrow> 'a list \<Rightarrow> 'a list" where
  "write_at off src buf = take off buf @ src @ drop (off + length src) buf"

lemma length_slice [simp]: "length (slice off n xs) = min n (length xs - off)"
  by (simp add: slice_def)

lemma length_write_at [simp]: "off + length src \<le> length buf \<Longrightarrow> length (write_at off src buf) = length buf"
  by (simp add: write_at_def)

lemma nth_write_at:
  assumes "off + length src \<le> length buf"
  shows "write_at off src buf ! i = (if off \<le> i \<and> i < off + length src then src ! (i - off) else buf ! i)"
  using assms by (auto simp: write_at_def nth_append min_absorb2)

lemma nth_slice: "i < n \<Longrightarrow> off + i < length xs \<Longrightarrow> slice off n xs ! i = xs ! (off + i)"
  by (simp add: slice_def)

lemma slice_write_same:
  assumes "off + length src \<le> length buf" "n = length src"
  shows "slice off n (write_at off src buf) = src"
  using assms by (simp add: slice_def write_at_def)

lemma slice_write_apart:
  assumes "off + length src \<le> length buf" "a + n \<le> off \<or> off + length src \<le> a"
  shows "slice a n (write_at off src buf) = slice a n buf"
proof (rule nth_equalityI)
  show "length (slice a n (write_at off src buf)) = length (slice a n buf)" using assms(1) by simp
  fix i assume "i < length (slice a n (write_at off src buf))"
  then show "slice a n (write_at off src buf) ! i = slice a n buf ! i"
    using assms by (auto simp: nth_slice nth_write_at)
qed

lemma slice_append: "slice off m xs @ slice (off + m) n xs = slice off (m + n) xs"
  by (simp add: slice_def take_add drop_drop ac_simps)

lemma slice_all: "length xs = n \<Longrightarrow> slice 0 n xs = xs"
  by (simp add: slice_def)

lemma slice_0 [simp]: "slice off 0 xs = []"
  by (simp add: slice_def)

lemma slice_slice: "a + n \<le> m \<Longrightarrow> slice a n (slice off m xs) = slice (off + a) n xs"
  by (simp add: slice_def drop_take min_absorb1 ac_simps)

section \<open>Byte orders\<close>

definition le32_bytes :: "u32 \<Rightarrow> bytes" where
  "le32_bytes w = [ucast w, ucast (drop_bit 8 w), ucast (drop_bit 16 w), ucast (drop_bit 24 w)]"

definition from_le32 :: "bytes \<Rightarrow> u32" where
  "from_le32 bs = ucast (bs ! 0) OR push_bit 8 (ucast (bs ! 1)) OR push_bit 16 (ucast (bs ! 2)) OR push_bit 24 (ucast (bs ! 3))"

definition be32_bytes :: "u32 \<Rightarrow> bytes" where
  "be32_bytes w = [ucast (drop_bit 24 w), ucast (drop_bit 16 w), ucast (drop_bit 8 w), ucast w]"

definition from_be32 :: "bytes \<Rightarrow> u32" where
  "from_be32 bs = push_bit 24 (ucast (bs ! 0)) OR push_bit 16 (ucast (bs ! 1)) OR push_bit 8 (ucast (bs ! 2)) OR ucast (bs ! 3)"

definition be64_bytes :: "u64 \<Rightarrow> bytes" where
  "be64_bytes w = [ucast (drop_bit 56 w), ucast (drop_bit 48 w), ucast (drop_bit 40 w), ucast (drop_bit 32 w),
     ucast (drop_bit 24 w), ucast (drop_bit 16 w), ucast (drop_bit 8 w), ucast w]"

lemma length_bytes [simp]:
  "length (le32_bytes w) = 4" "length (be32_bytes w) = 4" "length (be64_bytes v) = 8"
  by (simp_all add: le32_bytes_def be32_bytes_def be64_bytes_def)

lemma from_le32_bytes [simp]: "from_le32 (le32_bytes w) = w"
proof (rule bit_word_eqI)
  fix n assume "n < LENGTH(32)"
  then consider "n < 8" | "8 \<le> n" "n < 16" | "16 \<le> n" "n < 24" | "24 \<le> n" "n < 32" by fastforce
  then show "bit (from_le32 (le32_bytes w)) n = bit w n"
    by cases (auto simp: from_le32_def le32_bytes_def bit_simps)
qed

lemma from_be32_bytes [simp]: "from_be32 (be32_bytes w) = w"
proof (rule bit_word_eqI)
  fix n assume "n < LENGTH(32)"
  then consider "n < 8" | "8 \<le> n" "n < 16" | "16 \<le> n" "n < 24" | "24 \<le> n" "n < 32" by fastforce
  then show "bit (from_be32 (be32_bytes w)) n = bit w n"
    by cases (auto simp: from_be32_def be32_bytes_def bit_simps)
qed

lemma le32_from_bytes:
  assumes "length bs = 4"
  shows "le32_bytes (from_le32 bs) = bs"
proof -
  obtain a b c d where bs: "bs = [a, b, c, d]"
    using assms by (auto simp: numeral_eq_Suc length_Suc_conv)
  have "ucast (from_le32 bs) = a" "ucast (drop_bit 8 (from_le32 bs)) = b"
    "ucast (drop_bit 16 (from_le32 bs)) = c" "ucast (drop_bit 24 (from_le32 bs)) = d"
    by (rule bit_word_eqI; auto simp: bs from_le32_def bit_simps dest: bit_imp_le_length)+
  then show ?thesis by (simp add: le32_bytes_def bs)
qed

lemma le32_bytes_inj: "le32_bytes v = le32_bytes w \<longleftrightarrow> v = w"
  by (metis from_le32_bytes)

end
