(* ===== verification/Blockdev.thy ===== *)
theory Blockdev
  imports Byteorder
begin

text \<open>
  The block-device layer (\<open>src/kernel/drivers/blockdev.c\<close>).  The drivers under it are hardware: a device is a
  function from sector numbers to sectors of 512 bytes.  As the header of \<open>src/kernel/rust/journal.rs\<close> assumes,
  sectors reach the medium in the order they are written, each whole or not at all; \<open>charge\<close> is how many more
  sectors are written before the power fails, after which the medium no longer changes.  A read or a write
  of a broken sector fails.  \<open>device_read\<close> and \<open>device_write\<close> stand for the drivers of the three devices.
\<close>

section \<open>Data\<close>

record blockdev =
  active_device :: i32
  partition_offset :: u32
  medium :: "i32 \<Rightarrow> u32 \<Rightarrow> bytes"
  broken :: "i32 \<Rightarrow> u32 \<Rightarrow> bool"
  charge :: nat

section \<open>Operations\<close>

definition blockdev_select :: "i32 \<Rightarrow> blockdev \<Rightarrow> blockdev" where
  "blockdev_select d b = b\<lparr>active_device := d\<rparr>"

definition blockdev_current :: "blockdev \<Rightarrow> i32" where
  "blockdev_current b = active_device b"

definition blockdev_set_partition_offset :: "u32 \<Rightarrow> blockdev \<Rightarrow> blockdev" where
  "blockdev_set_partition_offset off b = b\<lparr>partition_offset := off\<rparr>"

definition put_sector :: "u32 \<Rightarrow> bytes \<Rightarrow> blockdev \<Rightarrow> blockdev" where
  "put_sector lba x b =
    (if charge b = 0 then b
     else b\<lparr>medium := (medium b)(active_device b := (medium b (active_device b))(lba := x)), charge := charge b - 1\<rparr>)"

fun device_read :: "u32 \<Rightarrow> nat \<Rightarrow> blockdev \<Rightarrow> bytes list option" where
  "device_read lba 0 b = Some []"
| "device_read lba (Suc n) b =
    (if broken b (active_device b) lba then None
     else map_option (Cons (medium b (active_device b) lba)) (device_read (lba + 1) n b))"

fun device_write :: "u32 \<Rightarrow> bytes list \<Rightarrow> blockdev \<Rightarrow> bool \<times> blockdev" where
  "device_write lba [] b = (True, b)"
| "device_write lba (x # xs) b =
    (if broken b (active_device b) lba then (False, b) else device_write (lba + 1) xs (put_sector lba x b))"

definition BLOCKDEV_ATA :: i32 where "BLOCKDEV_ATA = 0"
definition BLOCKDEV_VIRTIO_BLK :: i32 where "BLOCKDEV_VIRTIO_BLK = 1"
definition BLOCKDEV_NVME :: i32 where "BLOCKDEV_NVME = 2"

definition dispatch_read :: "u32 \<Rightarrow> nat \<Rightarrow> blockdev \<Rightarrow> bytes list option" where
  "dispatch_read lba n b =
    (if active_device b \<in> {BLOCKDEV_ATA, BLOCKDEV_VIRTIO_BLK, BLOCKDEV_NVME} then device_read lba n b else None)"

definition dispatch_write :: "u32 \<Rightarrow> bytes list \<Rightarrow> blockdev \<Rightarrow> bool \<times> blockdev" where
  "dispatch_write lba xs b =
    (if active_device b \<in> {BLOCKDEV_ATA, BLOCKDEV_VIRTIO_BLK, BLOCKDEV_NVME} then device_write lba xs b else (False, b))"

definition blockdev_read_sectors :: "u32 \<Rightarrow> nat \<Rightarrow> blockdev \<Rightarrow> bytes list option" where
  "blockdev_read_sectors lba n b = dispatch_read (lba + partition_offset b) n b"

definition blockdev_write_sectors :: "u32 \<Rightarrow> bytes list \<Rightarrow> blockdev \<Rightarrow> bool \<times> blockdev" where
  "blockdev_write_sectors lba xs b = dispatch_write (lba + partition_offset b) xs b"

definition blockdev_read_sectors_absolute :: "u32 \<Rightarrow> nat \<Rightarrow> blockdev \<Rightarrow> bytes list option" where
  "blockdev_read_sectors_absolute lba n b = dispatch_read lba n b"

definition blockdev_write_sectors_absolute :: "u32 \<Rightarrow> bytes list \<Rightarrow> blockdev \<Rightarrow> bool \<times> blockdev" where
  "blockdev_write_sectors_absolute lba xs b = dispatch_write lba xs b"

section \<open>Sequences of sector writes\<close>

definition disk :: "blockdev \<Rightarrow> u32 \<Rightarrow> bytes" where
  "disk b = medium b (active_device b)"

definition sound :: "blockdev \<Rightarrow> bool" where
  "sound b \<longleftrightarrow> active_device b \<in> {BLOCKDEV_ATA, BLOCKDEV_VIRTIO_BLK, BLOCKDEV_NVME} \<and> (\<forall>l. \<not> broken b (active_device b) l)"

definition apply_writes :: "(u32 \<times> bytes) list \<Rightarrow> (u32 \<Rightarrow> bytes) \<Rightarrow> u32 \<Rightarrow> bytes" where
  "apply_writes ws D = fold (\<lambda>(l, x) D. D(l := x)) ws D"

definition put_all :: "(u32 \<times> bytes) list \<Rightarrow> blockdev \<Rightarrow> blockdev" where
  "put_all ws b = fold (\<lambda>(l, x). put_sector l x) ws b"

fun numbered :: "u32 \<Rightarrow> bytes list \<Rightarrow> (u32 \<times> bytes) list" where
  "numbered l [] = []"
| "numbered l (x # xs) = (l, x) # numbered (l + 1) xs"

lemma apply_writes_simps [simp]:
  "apply_writes [] D = D" "apply_writes ((l, x) # ws) D = apply_writes ws (D(l := x))"
  "apply_writes (ws @ vs) D = apply_writes vs (apply_writes ws D)"
  by (simp_all add: apply_writes_def)

lemma put_all_simps [simp]:
  "put_all [] b = b" "put_all ((l, x) # ws) b = put_all ws (put_sector l x b)"
  "put_all (ws @ vs) b = put_all vs (put_all ws b)"
  by (simp_all add: put_all_def)

lemma put_sector_sel [simp]:
  "active_device (put_sector l x b) = active_device b" "partition_offset (put_sector l x b) = partition_offset b"
  "broken (put_sector l x b) = broken b" "charge (put_sector l x b) = charge b - 1"
  by (simp_all add: put_sector_def)

lemma put_all_sel [simp]:
  "active_device (put_all ws b) = active_device b" "partition_offset (put_all ws b) = partition_offset b"
  "broken (put_all ws b) = broken b" "charge (put_all ws b) = charge b - length ws"
  by (induction ws arbitrary: b) auto

lemma sound_put_all [simp]: "sound (put_all ws b) = sound b" "sound (put_sector l x b) = sound b"
  by (simp_all add: sound_def)

lemma sound_not_broken [simp]: "sound b \<Longrightarrow> \<not> broken b (active_device b) l"
  by (simp add: sound_def)

text \<open>With the power for \<open>n\<close> sectors, the first \<open>n\<close> writes of a sequence reach the medium.\<close>

lemma disk_put_all: "disk (put_all ws b) = apply_writes (take (charge b) ws) (disk b)"
proof (induction ws arbitrary: b)
  case Nil
  then show ?case by simp
next
  case (Cons w ws)
  obtain l x where w: "w = (l, x)" by (cases w)
  show ?case
  proof (cases "charge b")
    case 0
    then have "put_sector l x b = b" by (simp add: put_sector_def)
    with Cons [of b] 0 w show ?thesis by simp
  next
    case (Suc n)
    then have d: "disk (put_sector l x b) = (disk b)(l := x)" by (simp add: put_sector_def disk_def)
    show ?thesis unfolding w put_all_simps Cons [of "put_sector l x b"] d by (simp add: Suc)
  qed
qed

lemma dispatch_sound [simp]:
  "sound b \<Longrightarrow> dispatch_read l n b = device_read l n b" "sound b \<Longrightarrow> dispatch_write l xs b = device_write l xs b"
  by (simp_all add: sound_def dispatch_read_def dispatch_write_def)

lemma device_write_sound: "sound b \<Longrightarrow> device_write l xs b = (True, put_all (numbered l xs) b)"
proof (induction xs arbitrary: l b)
  case (Cons x xs)
  have "\<not> broken b (active_device b) l" using Cons.prems by (simp add: sound_def)
  with Cons show ?case by simp
qed simp

lemma shift_sectors: "map (\<lambda>i. f (l + 1 + of_nat i)) [0..<n] = map (\<lambda>i. f (l + of_nat i)) [1..<Suc n]" for l :: u32
  using map_Suc_upt [of 0 n] by (simp add: algebra_simps flip: map_Suc_upt del: upt_Suc)

lemma device_read_sound: "sound b \<Longrightarrow> device_read l n b = Some (map (\<lambda>i. disk b (l + of_nat i)) [0..<n])"
proof (induction n arbitrary: l)
  case (Suc n)
  have "\<not> broken b (active_device b) l" using Suc.prems by (simp add: sound_def)
  with Suc show ?case using shift_sectors [of "disk b" l n] by (simp add: disk_def upt_conv_Cons del: upt_Suc)
qed simp

lemma apply_writes_notin: "l \<notin> fst ` set ws \<Longrightarrow> apply_writes ws D l = D l"
  by (induction ws arbitrary: D) auto

lemma notin_fst: "(\<And>w. w \<in> set ws \<Longrightarrow> fst w \<noteq> l) \<Longrightarrow> l \<notin> fst ` set ws"
  by auto

lemma apply_writes_in:
  "l \<in> fst ` set ws \<Longrightarrow> apply_writes ws D l = apply_writes ws E l"
proof (induction ws arbitrary: D E)
  case (Cons w ws)
  then show ?case
  proof (cases "l \<in> fst ` set ws")
    case False
    with Cons.prems obtain x where "w = (l, x)" by (cases w) auto
    with False show ?thesis by (simp add: apply_writes_notin)
  qed (cases w; auto)
qed simp

lemma apply_writes_distinct:
  "distinct (map fst ws) \<Longrightarrow> apply_writes ws D l = (case map_of ws l of None \<Rightarrow> D l | Some x \<Rightarrow> x)"
proof (induction ws arbitrary: D)
  case (Cons w ws)
  obtain a x where w: "w = (a, x)" by (cases w)
  have "map_of ws a = None" using Cons.prems w by (simp add: map_of_eq_None_iff)
  with Cons w show ?case by (auto split: option.splits)
qed simp

text \<open>Writing part of a sequence first does not change what the whole sequence leaves.\<close>

lemma apply_writes_redo:
  assumes "distinct (map fst ws)"
  shows "apply_writes ws (apply_writes (take n ws) D) = apply_writes ws D"
proof
  fix l
  show "apply_writes ws (apply_writes (take n ws) D) l = apply_writes ws D l"
  proof (cases "l \<in> fst ` set ws")
    case True
    then show ?thesis by (rule apply_writes_in)
  next
    case False
    then have "l \<notin> fst ` set (take n ws)" using set_take_subset [of n ws] by auto
    with False show ?thesis by (simp add: apply_writes_notin)
  qed
qed

lemma map_fst_numbered: "map fst (numbered l xs) = map (\<lambda>i. l + of_nat i) [0..<length xs]"
proof (induction xs arbitrary: l)
  case (Cons x xs)
  with shift_sectors [of "\<lambda>x. x" l "length xs"] show ?case by (simp add: upt_conv_Cons del: upt_Suc)
qed simp

lemma length_numbered [simp]: "length (numbered l xs) = length xs"
  by (induction xs arbitrary: l) auto

lemma nth_numbered: "j < length xs \<Longrightarrow> numbered l xs ! j = (l + of_nat j, xs ! j)"
proof (induction xs arbitrary: l j)
  case (Cons x xs)
  then show ?case by (cases j) (simp_all add: algebra_simps)
qed simp

end
