(* ===== verification/Journal.thy ===== *)
theory Journal
  imports Blockdev
begin

text \<open>
  The write-ahead journal of the file system (\<open>src/kernel/rust/journal.rs\<close>): sector writes of a transaction are
  held in a shadow table, written to the journal region with a checksum, marked committed, and only then
  written to their places; recovery at boot replays a committed transaction.  A buffer of sectors is the list
  of its 512-byte sectors.
\<close>

section \<open>Data\<close>

definition SECTOR_SIZE :: usize where [kconst]: "SECTOR_SIZE = 512"
definition MAX_TXN_BLOCKS :: usize where [kconst]: "MAX_TXN_BLOCKS = 128"
definition DESCRIPTOR_SECTORS :: usize where [kconst]: "DESCRIPTOR_SECTORS = 2"
definition DESCRIPTOR_BYTES :: usize where [kconst]: "DESCRIPTOR_BYTES = DESCRIPTOR_SECTORS * SECTOR_SIZE"
definition OFF_MAGIC :: usize where [kconst]: "OFF_MAGIC = 0"
definition OFF_SEQ :: usize where [kconst]: "OFF_SEQ = 4"
definition OFF_BLOCK_COUNT :: usize where [kconst]: "OFF_BLOCK_COUNT = 8"
definition OFF_CHECKSUM :: usize where [kconst]: "OFF_CHECKSUM = 12"
definition OFF_COMMIT_FLAG :: usize where [kconst]: "OFF_COMMIT_FLAG = 16"
definition OFF_TARGETS_ABSOLUTE :: usize where [kconst]: "OFF_TARGETS_ABSOLUTE = 20"
definition OFF_TARGET_LBA :: usize where [kconst]: "OFF_TARGET_LBA = 24"
definition MAGIC :: u32 where "MAGIC = 0x4C524E4A"
definition COMMIT_MAGIC :: u32 where "COMMIT_MAGIC = 0x54494D43"

record journal =
  configured :: bool
  configured_device :: i32
  journal_start_lba :: u32
  journal_len_sectors :: u32
  seq :: u32
  depth :: u32
  targets_absolute :: bool
  shadow_count :: usize
  shadow_lba :: "u32 list"
  shadow_data :: "bytes list"

definition journal_new :: journal where
  "journal_new = \<lparr>configured = False, configured_device = - 1, journal_start_lba = 0, journal_len_sectors = 0,
     seq = 0, depth = 0, targets_absolute = False, shadow_count = 0, shadow_lba = replicate MAX_TXN_BLOCKS 0,
     shadow_data = replicate MAX_TXN_BLOCKS (replicate SECTOR_SIZE 0)\<rparr>"

section \<open>Encoding\<close>

definition put_u32_le :: "bytes \<Rightarrow> usize \<Rightarrow> u32 \<Rightarrow> bytes" where
  "put_u32_le buf off v = write_at off (le32_bytes v) buf"

definition get_u32_le :: "bytes \<Rightarrow> usize \<Rightarrow> u32" where
  "get_u32_le buf off = from_le32 (slice off 4 buf)"

definition fnv1a_fold :: "u32 \<Rightarrow> bytes \<Rightarrow> u32" where
  "fnv1a_fold h bs = fold (\<lambda>b h. (h XOR ucast b) * 0x01000193) bs h"

definition compute_checksum :: "bytes \<Rightarrow> bytes list \<Rightarrow> u32" where
  "compute_checksum lba_bytes data_blocks = fold (\<lambda>block h. fnv1a_fold h block) data_blocks (fnv1a_fold 0x811c9dc5 lba_bytes)"

section \<open>Reading and writing\<close>

definition find_shadow :: "journal \<Rightarrow> u32 \<Rightarrow> usize option" where
  "find_shadow js lba = position (\<lambda>l. l = lba) (take (shadow_count js) (shadow_lba js))"

fun read_loop :: "journal \<Rightarrow> u32 \<Rightarrow> nat \<Rightarrow> blockdev \<Rightarrow> bytes list option" where
  "read_loop js lba 0 b = Some []"
| "read_loop js lba (Suc n) b =
    (case find_shadow js lba of
       Some idx \<Rightarrow> map_option (Cons (shadow_data js ! idx)) (read_loop js (lba + 1) n b)
     | None \<Rightarrow>
        (case blockdev_read_sectors lba 1 b of
           None \<Rightarrow> None
         | Some xs \<Rightarrow> map_option (append xs) (read_loop js (lba + 1) n b)))"

definition read_sectors_internal :: "journal \<Rightarrow> u32 \<Rightarrow> nat \<Rightarrow> blockdev \<Rightarrow> bytes list option" where
  "read_sectors_internal js lba count b =
    (if depth js = 0 then blockdev_read_sectors lba count b else read_loop js lba count b)"

fun write_loop :: "u32 \<Rightarrow> bytes list \<Rightarrow> journal \<Rightarrow> bool \<times> journal" where
  "write_loop lba [] js = (True, js)"
| "write_loop lba (x # xs) js =
    (case find_shadow js lba of
       Some idx \<Rightarrow> write_loop (lba + 1) xs (js\<lparr>shadow_data := (shadow_data js)[idx := x]\<rparr>)
     | None \<Rightarrow>
        if shadow_count js \<ge> MAX_TXN_BLOCKS then (False, js)
        else let idx = shadow_count js in
          write_loop (lba + 1) xs (js\<lparr>shadow_lba := (shadow_lba js)[idx := lba], shadow_count := shadow_count js + 1,
            shadow_data := (shadow_data js)[idx := x]\<rparr>))"

definition write_sectors_internal :: "u32 \<Rightarrow> bytes list \<Rightarrow> journal \<Rightarrow> blockdev \<Rightarrow> bool \<times> journal \<times> blockdev" where
  "write_sectors_internal lba src js b =
    (if depth js = 0 then (case blockdev_write_sectors lba src b of (r, b') \<Rightarrow> (r, js, b'))
     else (case write_loop lba src js of (r, js') \<Rightarrow> (r, js', b)))"

definition journal_region_usable :: "journal \<Rightarrow> blockdev \<Rightarrow> bool" where
  "journal_region_usable js b \<longleftrightarrow> configured js \<and> blockdev_current b = configured_device js"

section \<open>Commit\<close>

text \<open>The descriptor of \<open>commit_durable_internal\<close> before its commit mark is set.\<close>

definition build_descriptor :: "journal \<Rightarrow> bytes" where
  "build_descriptor js =
    (let d0 = replicate DESCRIPTOR_BYTES 0;
         d1 = put_u32_le d0 OFF_MAGIC MAGIC;
         d2 = put_u32_le d1 OFF_SEQ (seq js);
         d3 = put_u32_le d2 OFF_BLOCK_COUNT (of_nat (shadow_count js));
         d4 = put_u32_le d3 OFF_COMMIT_FLAG 0;
         d5 = put_u32_le d4 OFF_TARGETS_ABSOLUTE (if targets_absolute js then 1 else 0);
         d6 = fold (\<lambda>i d. put_u32_le d (OFF_TARGET_LBA + i * 4) (shadow_lba js ! i)) [0..<shadow_count js] d5
     in put_u32_le d6 OFF_CHECKSUM
          (compute_checksum (slice OFF_TARGET_LBA (shadow_count js * 4) d6) (take (shadow_count js) (shadow_data js))))"

definition descriptor_sectors :: "bytes \<Rightarrow> bytes list" where
  "descriptor_sectors d = [take SECTOR_SIZE d, drop SECTOR_SIZE d]"

fun write_blocks :: "u32 \<Rightarrow> bytes list \<Rightarrow> blockdev \<Rightarrow> bool \<times> blockdev" where
  "write_blocks lba [] b = (True, b)"
| "write_blocks lba (x # xs) b =
    (case blockdev_write_sectors_absolute lba [x] b of
       (False, b1) \<Rightarrow> (False, b1) | (True, b1) \<Rightarrow> write_blocks (lba + 1) xs b1)"

definition commit_durable_internal :: "journal \<Rightarrow> blockdev \<Rightarrow> bool \<times> journal \<times> blockdev" where
  "commit_durable_internal js b =
    (if \<not> journal_region_usable js b \<or> shadow_count js = 0 then (True, js, b)
     else
       let desc = build_descriptor js; start = journal_start_lba js in
       case blockdev_write_sectors_absolute start (descriptor_sectors desc) b of
         (False, b1) \<Rightarrow> (False, js, b1)
       | (True, b1) \<Rightarrow>
          (case write_blocks (start + of_nat DESCRIPTOR_SECTORS) (take (shadow_count js) (shadow_data js)) b1 of
             (False, b2) \<Rightarrow> (False, js, b2)
           | (True, b2) \<Rightarrow>
              (case blockdev_write_sectors_absolute start
                  (descriptor_sectors (put_u32_le desc OFF_COMMIT_FLAG COMMIT_MAGIC)) b2 of
                 (False, b3) \<Rightarrow> (False, js, b3)
               | (True, b3) \<Rightarrow> (True, js\<lparr>seq := seq js + 1\<rparr>, b3))))"

text \<open>The loop over the shadow in \<open>checkpoint_internal\<close>: a failed write is noted and the others are still done.\<close>

fun checkpoint_writes :: "bool \<Rightarrow> (u32 \<times> bytes) list \<Rightarrow> bool \<Rightarrow> blockdev \<Rightarrow> bool \<times> blockdev" where
  "checkpoint_writes absolute [] ok b = (ok, b)"
| "checkpoint_writes absolute ((lba, x) # ws) ok b =
    (case (if absolute then blockdev_write_sectors_absolute lba [x] b else blockdev_write_sectors lba [x] b) of
       (wrote, b1) \<Rightarrow> checkpoint_writes absolute ws (ok \<and> wrote) b1)"

definition shadow :: "journal \<Rightarrow> (u32 \<times> bytes) list" where
  "shadow js = zip (take (shadow_count js) (shadow_lba js)) (take (shadow_count js) (shadow_data js))"

definition checkpoint_internal :: "journal \<Rightarrow> blockdev \<Rightarrow> bool \<times> journal \<times> blockdev" where
  "checkpoint_internal js b =
    (case checkpoint_writes (targets_absolute js) (shadow js) True b of
       (ok, b1) \<Rightarrow>
         let b2 = (if journal_region_usable js b1 \<and> shadow_count js > 0
                   then snd (blockdev_write_sectors_absolute (journal_start_lba js) [replicate SECTOR_SIZE 0] b1) else b1)
         in (ok, js\<lparr>shadow_count := 0, targets_absolute := False\<rparr>, b2))"

section \<open>Recovery\<close>

text \<open>The loop that reads a journaled transaction back into the shadow table.\<close>

fun load_blocks :: "bytes \<Rightarrow> u32 \<Rightarrow> usize list \<Rightarrow> journal \<Rightarrow> blockdev \<Rightarrow> bool \<times> journal" where
  "load_blocks desc start [] js b = (True, js)"
| "load_blocks desc start (i # is) js b =
    (let js1 = js\<lparr>shadow_lba := (shadow_lba js)[i := get_u32_le desc (OFF_TARGET_LBA + i * 4)]\<rparr> in
     case blockdev_read_sectors_absolute (start + of_nat DESCRIPTOR_SECTORS + of_nat i) 1 b of
       None \<Rightarrow> (False, js1)
     | Some xs \<Rightarrow> load_blocks desc start is (js1\<lparr>shadow_data := (shadow_data js1)[i := xs ! 0]\<rparr>) b)"

definition recover_internal :: "journal \<Rightarrow> blockdev \<Rightarrow> i32 \<times> journal \<times> blockdev" where
  "recover_internal js b =
    (if \<not> journal_region_usable js b then (0, js, b)
     else
       let start = journal_start_lba js in
       case blockdev_read_sectors_absolute start DESCRIPTOR_SECTORS b of
         None \<Rightarrow> (- 1, js, b)
       | Some xs \<Rightarrow>
          let desc = concat xs;
              block_count = unat (get_u32_le desc OFF_BLOCK_COUNT) in
          if get_u32_le desc OFF_MAGIC \<noteq> MAGIC \<or> get_u32_le desc OFF_COMMIT_FLAG \<noteq> COMMIT_MAGIC
            \<or> block_count = 0 \<or> block_count > MAX_TXN_BLOCKS then (0, js, b)
          else (case load_blocks desc start [0..<block_count] js b of
             (False, js1) \<Rightarrow> (- 1, js1, b)
           | (True, js1) \<Rightarrow>
              if compute_checksum (slice OFF_TARGET_LBA (block_count * 4) desc) (take block_count (shadow_data js1))
                 \<noteq> get_u32_le desc OFF_CHECKSUM
              then (0, js1, snd (blockdev_write_sectors_absolute start [replicate SECTOR_SIZE 0] b))
              else (case checkpoint_internal (js1\<lparr>shadow_count := block_count,
                     targets_absolute := (get_u32_le desc OFF_TARGETS_ABSOLUTE \<noteq> 0)\<rparr>) b of
                 (ok, js2, b2) \<Rightarrow> (if ok then int block_count else - 1, js2, b2))))"

section \<open>Entry points\<close>

definition rust_journal_configure :: "u32 \<Rightarrow> u32 \<Rightarrow> journal \<Rightarrow> blockdev \<Rightarrow> journal" where
  "rust_journal_configure start len js b =
    js\<lparr>configured := (len \<ge> of_nat (DESCRIPTOR_SECTORS + MAX_TXN_BLOCKS)), configured_device := blockdev_current b,
       journal_start_lba := start, journal_len_sectors := len\<rparr>"

definition rust_journal_recover :: "journal \<Rightarrow> blockdev \<Rightarrow> i32 \<times> journal \<times> blockdev" where
  "rust_journal_recover js b = recover_internal js b"

definition rust_journal_begin :: "journal \<Rightarrow> journal" where
  "rust_journal_begin js = js\<lparr>depth := depth js + 1\<rparr>"

definition rust_journal_commit :: "journal \<Rightarrow> blockdev \<Rightarrow> bool \<times> journal \<times> blockdev" where
  "rust_journal_commit js b =
    (if depth js = 0 then (True, js, b)
     else let js1 = js\<lparr>depth := depth js - 1\<rparr> in
       if depth js1 > 0 then (True, js1, b)
       else (case commit_durable_internal js1 b of (durable_ok, js2, b2) \<Rightarrow>
              (case checkpoint_internal js2 b2 of (checkpoint_ok, js3, b3) \<Rightarrow> (durable_ok \<and> checkpoint_ok, js3, b3))))"

definition rust_journal_read_sectors :: "u32 \<Rightarrow> nat \<Rightarrow> journal \<Rightarrow> blockdev \<Rightarrow> bytes list option" where
  "rust_journal_read_sectors lba count js b = read_sectors_internal js lba count b"

definition rust_journal_write_sectors :: "u32 \<Rightarrow> bytes list \<Rightarrow> journal \<Rightarrow> blockdev \<Rightarrow> bool \<times> journal \<times> blockdev" where
  "rust_journal_write_sectors lba src js b = write_sectors_internal lba src js b"

section \<open>Self-test\<close>

text \<open>The test runs on the live journal: \<open>round\<close> is its call counter modulo 4; a crash is dropping the transaction in memory.\<close>

definition forget_transaction :: "journal \<Rightarrow> journal" where
  "forget_transaction js = js\<lparr>shadow_count := 0, targets_absolute := False, depth := 0\<rparr>"

definition rust_journal_selftest :: "u32 \<Rightarrow> journal \<Rightarrow> blockdev \<Rightarrow> i32 \<times> journal \<times> blockdev" where
  "rust_journal_selftest round js b =
    (if \<not> journal_region_usable js b then (- 1, js, b)
     else if journal_len_sectors js < 16 then (- 2, js, b)
     else
       let scratch_a = journal_start_lba js + journal_len_sectors js - 16 + round * 2;
           pattern_a = replicate SECTOR_SIZE 0xAB;
           (wrote, js1, b1) = write_sectors_internal scratch_a [pattern_a] (js\<lparr>shadow_count := 0, depth := 1, targets_absolute := True\<rparr>) b;
           (durable_ok, js2, b2) = (if wrote then commit_durable_internal js1 b1 else (False, js1, b1));
           (recovered_a, js3, b3) = recover_internal (forget_transaction js2) b2;
           part_a_ok = (durable_ok \<and> recovered_a = 1 \<and> blockdev_read_sectors_absolute scratch_a 1 b3 = Some [pattern_a]);
           scratch_b = scratch_a + 1;
           before_b = replicate SECTOR_SIZE 0;
           b4 = snd (blockdev_write_sectors_absolute scratch_b [before_b] b3);
           (_, js5, b5) = write_sectors_internal scratch_b [replicate SECTOR_SIZE 0xCD]
             (js3\<lparr>shadow_count := 0, depth := 1, targets_absolute := True\<rparr>) b4;
           (recovered_b, js6, b6) = recover_internal (forget_transaction js5) b5;
           part_b_ok = (recovered_b = 0 \<and> blockdev_read_sectors_absolute scratch_b 1 b6 = Some [before_b])
       in ((if part_a_ok then 0 else 1) + (if part_b_ok then 0 else 2), js6, b6))"

end
