(* ===== verification/Journalsafe.thy ===== *)
theory Journalsafe
  imports Journal
begin

text \<open>
  The journal against power failure.  A commit is a sequence of sector writes; a crash cuts it anywhere.  What a
  disk means is its contents with the transaction in its journal, if there is a valid one, replayed.  That
  meaning changes once during a commit, from the contents before the transaction to those after it, and never
  during recovery.
\<close>

section \<open>Fields of the descriptor\<close>

lemma length_put [simp]: "off + 4 \<le> length d \<Longrightarrow> length (put_u32_le d off v) = length d"
  by (simp add: put_u32_le_def)

lemma get_put:
  assumes "off + 4 \<le> length d" "a + 4 \<le> off \<or> off + 4 \<le> a \<or> a = off"
  shows "get_u32_le (put_u32_le d off v) a = (if a = off then v else get_u32_le d a)"
  using assms by (auto simp: get_u32_le_def put_u32_le_def slice_write_same slice_write_apart)

lemma slice_put_apart: "off + 4 \<le> length d \<Longrightarrow> a + n \<le> off \<or> off + 4 \<le> a \<Longrightarrow> slice a n (put_u32_le d off v) = slice a n d"
  by (simp add: put_u32_le_def slice_write_apart)

lemma put_targets:
  assumes "24 + n * 4 \<le> length d"
    and d': "d' = fold (\<lambda>i d. put_u32_le d (OFF_TARGET_LBA + i * 4) (f i)) [0..<n] d"
  shows "length d' = length d" "a + 4 \<le> 24 \<Longrightarrow> get_u32_le d' a = get_u32_le d a"
    "i < n \<Longrightarrow> get_u32_le d' (24 + i * 4) = f i"
proof -
  have "length d' = length d \<and> (\<forall>a. a + 4 \<le> 24 \<longrightarrow> get_u32_le d' a = get_u32_le d a)
    \<and> (\<forall>i < n. get_u32_le d' (24 + i * 4) = f i)"
    using assms(1) unfolding d'
  proof (induction n)
    case 0
    then show ?case by simp
  next
    case (Suc n)
    then show ?case by (auto simp: get_put less_Suc_eq OFF_TARGET_LBA_def)
  qed
  then show "length d' = length d" "a + 4 \<le> 24 \<Longrightarrow> get_u32_le d' a = get_u32_le d a"
    "i < n \<Longrightarrow> get_u32_le d' (24 + i * 4) = f i" by auto
qed

definition journal_ok :: "journal \<Rightarrow> bool" where
  "journal_ok js \<longleftrightarrow> length (shadow_lba js) = MAX_TXN_BLOCKS \<and> length (shadow_data js) = MAX_TXN_BLOCKS
     \<and> shadow_count js \<le> MAX_TXN_BLOCKS \<and> distinct (take (shadow_count js) (shadow_lba js))
     \<and> (\<forall>x \<in> set (take (shadow_count js) (shadow_data js)). length x = SECTOR_SIZE)"

definition committed_descriptor :: "journal \<Rightarrow> bytes" where
  "committed_descriptor js = put_u32_le (build_descriptor js) OFF_COMMIT_FLAG COMMIT_MAGIC"

lemma descriptor_fields:
  assumes "journal_ok js"
  shows "length (build_descriptor js) = 1024" "length (committed_descriptor js) = 1024"
    "get_u32_le (build_descriptor js) OFF_COMMIT_FLAG = 0"
    "get_u32_le (committed_descriptor js) OFF_MAGIC = MAGIC"
    "get_u32_le (committed_descriptor js) OFF_COMMIT_FLAG = COMMIT_MAGIC"
    "unat (get_u32_le (committed_descriptor js) OFF_BLOCK_COUNT) = shadow_count js"
    "get_u32_le (committed_descriptor js) OFF_TARGETS_ABSOLUTE \<noteq> 0 \<longleftrightarrow> targets_absolute js"
    "i < shadow_count js \<Longrightarrow> get_u32_le (committed_descriptor js) (OFF_TARGET_LBA + i * 4) = shadow_lba js ! i"
    "get_u32_le (committed_descriptor js) OFF_CHECKSUM
      = compute_checksum (slice OFF_TARGET_LBA (shadow_count js * 4) (committed_descriptor js)) (take (shadow_count js) (shadow_data js))"
    "drop SECTOR_SIZE (committed_descriptor js) = drop SECTOR_SIZE (build_descriptor js)"
proof -
  let ?n = "shadow_count js"
  have n: "?n \<le> 128" using assms by (simp add: journal_ok_def kconst)
  define d5 where "d5 = put_u32_le (put_u32_le (put_u32_le (put_u32_le (put_u32_le (replicate DESCRIPTOR_BYTES 0) OFF_MAGIC MAGIC)
    OFF_SEQ (seq js)) OFF_BLOCK_COUNT (of_nat ?n)) OFF_COMMIT_FLAG 0) OFF_TARGETS_ABSOLUTE (if targets_absolute js then 1 else 0)"
  define d6 where "d6 = fold (\<lambda>i d. put_u32_le d (OFF_TARGET_LBA + i * 4) (shadow_lba js ! i)) [0..<?n] d5"
  let ?cs = "compute_checksum (slice OFF_TARGET_LBA (?n * 4) d6) (take ?n (shadow_data js))"
  have bd: "build_descriptor js = put_u32_le d6 OFF_CHECKSUM ?cs" by (simp add: build_descriptor_def d6_def d5_def Let_def)
  have l5: "length d5 = 1024" by (simp add: d5_def kconst)
  have "24 + ?n * 4 \<le> length d5" using n l5 by simp
  note t = put_targets [OF this d6_def]
  have l6: "length d6 = 1024" using t(1) l5 by simp
  have f5: "get_u32_le d5 OFF_MAGIC = MAGIC" "get_u32_le d5 OFF_COMMIT_FLAG = 0" "get_u32_le d5 OFF_BLOCK_COUNT = of_nat ?n"
    "get_u32_le d5 OFF_TARGETS_ABSOLUTE = (if targets_absolute js then 1 else 0)"
    by (simp_all add: d5_def get_put kconst)
  have f6: "get_u32_le d6 OFF_MAGIC = MAGIC" "get_u32_le d6 OFF_COMMIT_FLAG = 0" "get_u32_le d6 OFF_BLOCK_COUNT = of_nat ?n"
    "get_u32_le d6 OFF_TARGETS_ABSOLUTE = (if targets_absolute js then 1 else 0)"
    using t(2) f5 by (simp_all add: kconst)
  show lb: "length (build_descriptor js) = 1024" by (simp add: bd l6 kconst)
  show "length (committed_descriptor js) = 1024" by (simp add: committed_descriptor_def lb kconst)
  show "get_u32_le (build_descriptor js) OFF_COMMIT_FLAG = 0" using f6(2) by (simp add: bd get_put l6 kconst)
  have cd: "committed_descriptor js = put_u32_le (put_u32_le d6 OFF_CHECKSUM ?cs) OFF_COMMIT_FLAG COMMIT_MAGIC"
    by (simp add: committed_descriptor_def bd)
  show "get_u32_le (committed_descriptor js) OFF_MAGIC = MAGIC" "get_u32_le (committed_descriptor js) OFF_COMMIT_FLAG = COMMIT_MAGIC"
    using f6(1) by (simp_all add: cd get_put l6 kconst)
  have "get_u32_le (committed_descriptor js) OFF_BLOCK_COUNT = of_nat ?n" using f6(3) by (simp add: cd get_put l6 kconst)
  then show "unat (get_u32_le (committed_descriptor js) OFF_BLOCK_COUNT) = ?n" using n by (simp add: unat_of_nat_small)
  have "get_u32_le (committed_descriptor js) OFF_TARGETS_ABSOLUTE = (if targets_absolute js then 1 else 0)"
    using f6(4) by (simp add: cd get_put l6 kconst)
  then show "get_u32_le (committed_descriptor js) OFF_TARGETS_ABSOLUTE \<noteq> 0 \<longleftrightarrow> targets_absolute js" by simp
  show "get_u32_le (committed_descriptor js) (OFF_TARGET_LBA + i * 4) = shadow_lba js ! i" if "i < ?n"
    using t(3) [OF that] by (simp add: cd get_put l6 kconst)
  have "slice OFF_TARGET_LBA (?n * 4) (committed_descriptor js) = slice OFF_TARGET_LBA (?n * 4) d6"
    by (simp add: cd slice_put_apart l6 kconst)
  then show "get_u32_le (committed_descriptor js) OFF_CHECKSUM
      = compute_checksum (slice OFF_TARGET_LBA (?n * 4) (committed_descriptor js)) (take ?n (shadow_data js))"
    by (simp add: cd get_put l6 kconst)
  have "slice 512 512 (committed_descriptor js) = slice 512 512 (build_descriptor js)"
    by (simp add: committed_descriptor_def slice_put_apart lb kconst)
  then show "drop SECTOR_SIZE (committed_descriptor js) = drop SECTOR_SIZE (build_descriptor js)"
    using lb by (simp add: slice_def kconst committed_descriptor_def)
qed

section \<open>Commit and recovery as sequences of writes\<close>

definition place :: "bool \<Rightarrow> u32 \<Rightarrow> u32 \<times> bytes \<Rightarrow> u32 \<times> bytes" where
  "place absolute off w = (if absolute then fst w else fst w + off, snd w)"

definition placed :: "journal \<Rightarrow> u32 \<Rightarrow> (u32 \<times> bytes) list" where
  "placed js off = map (place (targets_absolute js) off) (shadow js)"

definition zero_sector :: bytes where
  "zero_sector = replicate SECTOR_SIZE 0"

definition commit_writes :: "journal \<Rightarrow> u32 \<Rightarrow> (u32 \<times> bytes) list" where
  "commit_writes js off =
    (if shadow_count js = 0 then [] else
       numbered (journal_start_lba js) (descriptor_sectors (build_descriptor js))
     @ numbered (journal_start_lba js + of_nat DESCRIPTOR_SECTORS) (take (shadow_count js) (shadow_data js))
     @ numbered (journal_start_lba js) (descriptor_sectors (committed_descriptor js))
     @ placed js off @ [(journal_start_lba js, zero_sector)])"

lemma write_blocks_sound: "sound b \<Longrightarrow> write_blocks l xs b = (True, put_all (numbered l xs) b)"
  by (induction xs arbitrary: l b) (simp_all add: blockdev_write_sectors_absolute_def device_write_sound)

lemma checkpoint_writes_sound:
  "sound b \<Longrightarrow> checkpoint_writes a ws ok b = (ok, put_all (map (place a (partition_offset b)) ws) b)"
proof (induction ws arbitrary: ok b)
  case (Cons w ws)
  obtain l x where w: "w = (l, x)" by (cases w)
  show ?case
    using Cons.IH [of "put_sector (fst (place a (partition_offset b) w)) x b" ok] Cons.prems
    by (cases a) (simp_all add: w place_def blockdev_write_sectors_absolute_def blockdev_write_sectors_def)
qed simp

lemma usable_put_all [simp]: "journal_region_usable js (put_all ws b) = journal_region_usable js b"
  by (simp add: journal_region_usable_def blockdev_current_def)

lemma checkpoint_trace:
  assumes "sound b" "journal_region_usable js b"
  shows "checkpoint_internal js b = (True, js\<lparr>shadow_count := 0, targets_absolute := False\<rparr>,
    put_all (placed js (partition_offset b) @ (if shadow_count js = 0 then [] else [(journal_start_lba js, zero_sector)])) b)"
  using assms by (simp add: checkpoint_internal_def checkpoint_writes_sound Let_def placed_def zero_sector_def
      blockdev_write_sectors_absolute_def device_write_sound)

lemma commit_trace:
  assumes "sound b" "journal_region_usable js b" "depth js = 1"
  shows "\<exists>js'. rust_journal_commit js b = (True, js', put_all (commit_writes js (partition_offset b)) b)
    \<and> js' = js\<lparr>depth := 0, seq := seq js', shadow_count := 0, targets_absolute := False\<rparr>"
proof (cases "shadow_count js = 0")
  case True
  then show ?thesis
    using assms checkpoint_trace [of b "js\<lparr>depth := 0\<rparr>"]
    by (simp add: rust_journal_commit_def commit_durable_internal_def commit_writes_def journal_region_usable_def
        placed_def shadow_def)
next
  case False
  let ?js = "js\<lparr>depth := 0\<rparr>"
  have u: "journal_region_usable ?js b" "journal_region_usable (?js\<lparr>seq := seq js + 1\<rparr>) b"
    using assms(2) by (simp_all add: journal_region_usable_def)
  have d: "build_descriptor ?js = build_descriptor js" "committed_descriptor js = put_u32_le (build_descriptor js) OFF_COMMIT_FLAG COMMIT_MAGIC"
    by (simp_all add: build_descriptor_def committed_descriptor_def)
  have p: "placed (?js\<lparr>seq := seq js + 1\<rparr>) off = placed js off" for off by (simp add: placed_def shadow_def)
  define b3 where "b3 = put_all (numbered (journal_start_lba js) (descriptor_sectors (build_descriptor js))
     @ numbered (journal_start_lba js + of_nat DESCRIPTOR_SECTORS) (take (shadow_count js) (shadow_data js))
     @ numbered (journal_start_lba js) (descriptor_sectors (committed_descriptor js))) b"
  have c: "commit_durable_internal ?js b = (True, ?js\<lparr>seq := seq js + 1\<rparr>, b3)"
    using u(1) False assms(1) d by (simp add: commit_durable_internal_def Let_def write_blocks_sound b3_def
        blockdev_write_sectors_absolute_def device_write_sound)
  have b3: "sound b3" "journal_region_usable (?js\<lparr>seq := seq js + 1\<rparr>) b3" "partition_offset b3 = partition_offset b"
    using assms(1) u(2) by (simp_all add: b3_def)
  have "put_all (commit_writes js (partition_offset b)) b
      = put_all (placed js (partition_offset b) @ [(journal_start_lba js, zero_sector)]) b3"
    using False by (simp add: commit_writes_def b3_def)
  then show ?thesis
    using False assms(3) checkpoint_trace [OF b3(1,2)] b3(3) p by (simp add: rust_journal_commit_def c)
qed

section \<open>What a disk means\<close>

definition journal_decode :: "u32 \<Rightarrow> (u32 \<Rightarrow> bytes) \<Rightarrow> (bool \<times> (u32 \<times> bytes) list) option" where
  "journal_decode start D =
    (let desc = D start @ D (start + 1); n = unat (get_u32_le desc OFF_BLOCK_COUNT);
         data = map (\<lambda>i. D (start + 2 + of_nat i)) [0..<n] in
     if get_u32_le desc OFF_MAGIC \<noteq> MAGIC \<or> get_u32_le desc OFF_COMMIT_FLAG \<noteq> COMMIT_MAGIC \<or> n = 0 \<or> n > MAX_TXN_BLOCKS then None
     else if compute_checksum (slice OFF_TARGET_LBA (n * 4) desc) data \<noteq> get_u32_le desc OFF_CHECKSUM then None
     else Some (get_u32_le desc OFF_TARGETS_ABSOLUTE \<noteq> 0,
       zip (map (\<lambda>i. get_u32_le desc (OFF_TARGET_LBA + i * 4)) [0..<n]) data))"

definition in_journal :: "u32 \<Rightarrow> u32 \<Rightarrow> bool" where
  "in_journal start l \<longleftrightarrow> unat start \<le> unat l \<and> unat l < unat start + 130"

definition region_fits :: "u32 \<Rightarrow> bool" where
  "region_fits start \<longleftrightarrow> unat start + 130 \<le> 2 ^ 32"

definition journal_view :: "u32 \<Rightarrow> u32 \<Rightarrow> (u32 \<Rightarrow> bytes) \<Rightarrow> u32 \<Rightarrow> bytes" where
  "journal_view start off D l =
    (if in_journal start l then []
     else case journal_decode start D of None \<Rightarrow> D l | Some (a, ws) \<Rightarrow> apply_writes (map (place a off) ws) D l)"

definition outside :: "u32 \<Rightarrow> (u32 \<Rightarrow> bytes) \<Rightarrow> u32 \<Rightarrow> bytes" where
  "outside start D l = (if in_journal start l then [] else D l)"

definition pending_ok :: "u32 \<Rightarrow> u32 \<Rightarrow> (u32 \<Rightarrow> bytes) \<Rightarrow> bool" where
  "pending_ok start off D \<longleftrightarrow> (case journal_decode start D of None \<Rightarrow> True
     | Some (a, ws) \<Rightarrow> distinct (map fst (map (place a off) ws)) \<and> (\<forall>w \<in> set (map (place a off) ws). \<not> in_journal start (fst w)))"

lemma journal_index: "region_fits start \<Longrightarrow> i < 130 \<Longrightarrow> unat (start + of_nat i) = unat start + i"
  by (subst unat_add_small) (simp_all add: region_fits_def unat_of_nat_small)

lemma region_in: "region_fits start \<Longrightarrow> i < 130 \<Longrightarrow> in_journal start (start + of_nat i)"
  by (simp add: in_journal_def journal_index)

lemma region_sectors:
  assumes "region_fits start"
  shows "in_journal start start" "in_journal start (start + 1)" "i < 128 \<Longrightarrow> in_journal start (start + 2 + of_nat i)"
  using region_in [OF assms, of 0] region_in [OF assms, of 1] region_in [OF assms, of "i + 2"] by (simp_all add: algebra_simps)

lemma region_distinct:
  assumes "region_fits start"
  shows "start + 1 \<noteq> start" "i < 128 \<Longrightarrow> start + 2 + of_nat i \<noteq> start" "i < 128 \<Longrightarrow> start + 2 + of_nat i \<noteq> start + 1"
    "i < 128 \<Longrightarrow> j < 128 \<Longrightarrow> start + 2 + of_nat i = start + 2 + of_nat j \<Longrightarrow> i = j"
proof -
  have e: "unat (start + 2 + of_nat i) = unat start + i + 2" if "i < 128" for i
    using journal_index [OF assms, of "i + 2"] that by (simp add: algebra_simps)
  have o: "unat (start + 1) = unat start + 1" using journal_index [OF assms, of 1] by simp
  show "start + 1 \<noteq> start" by simp
  show "start + 2 + of_nat i \<noteq> start" if "i < 128" using e [OF that] by (metis Suc_eq_plus1 add.assoc add_eq_self_zero nat.simps(3) add_2_eq_Suc')
  show "start + 2 + of_nat i \<noteq> start + 1" if "i < 128" using e [OF that] o by (metis add.assoc add_left_cancel add_right_cancel one_add_one less_not_refl nat_add_left_cancel_less trans_less_add2 zero_less_one add.commute)
  show "i = j" if "i < 128" "j < 128" "start + 2 + of_nat i = start + 2 + of_nat j" using e that by (metis add_left_cancel add_right_cancel)
qed

lemma decode_cong:
  assumes "region_fits start" "\<And>l. in_journal start l \<Longrightarrow> D l = E l"
  shows "journal_decode start D = journal_decode start E"
proof -
  have s: "D start = E start" "D (start + 1) = E (start + 1)" using region_sectors [OF assms(1)] assms(2) by blast+
  have d: "map (\<lambda>i. D (start + 2 + of_nat i)) [0..<n] = map (\<lambda>i. E (start + 2 + of_nat i)) [0..<n]" if "n \<le> MAX_TXN_BLOCKS" for n
    using that region_sectors(3) [OF assms(1)] assms(2) by (auto simp: kconst)
  show ?thesis
  proof (cases "unat (get_u32_le (E start @ E (start + 1)) OFF_BLOCK_COUNT) \<le> MAX_TXN_BLOCKS")
    case True
    show ?thesis unfolding journal_decode_def s Let_def d [OF True] ..
  qed (simp add: journal_decode_def Let_def s)
qed

text \<open>Writes outside the region do not change what the journal holds.\<close>

lemma decode_outside:
  assumes "region_fits start" "\<And>w. w \<in> set ws \<Longrightarrow> \<not> in_journal start (fst w)"
  shows "journal_decode start (apply_writes ws D) = journal_decode start D"
  using assms(2) by (intro decode_cong [OF assms(1)] apply_writes_notin) auto

lemma decode_uncommitted:
  assumes "get_u32_le (D start @ D (start + 1)) OFF_COMMIT_FLAG \<noteq> COMMIT_MAGIC"
  shows "journal_decode start D = None"
  using assms by (simp add: journal_decode_def Let_def)

lemma decode_committed:
  assumes ok: "journal_ok js" and n: "shadow_count js \<noteq> 0"
    and d: "D start = take SECTOR_SIZE (committed_descriptor js)" "D (start + 1) = drop SECTOR_SIZE (committed_descriptor js)"
    and x: "\<And>i. i < shadow_count js \<Longrightarrow> D (start + 2 + of_nat i) = shadow_data js ! i"
  shows "journal_decode start D = Some (targets_absolute js, shadow js)"
proof -
  note f = descriptor_fields [OF ok]
  have desc: "D start @ D (start + 1) = committed_descriptor js" using d by simp
  have len: "shadow_count js \<le> MAX_TXN_BLOCKS" "length (shadow_data js) = MAX_TXN_BLOCKS" "length (shadow_lba js) = MAX_TXN_BLOCKS"
    using ok by (simp_all add: journal_ok_def)
  have data: "map (\<lambda>i. D (start + 2 + of_nat i)) [0..<shadow_count js] = take (shadow_count js) (shadow_data js)"
    using len x by (intro nth_equalityI) auto
  have lbas: "map (\<lambda>i. get_u32_le (committed_descriptor js) (OFF_TARGET_LBA + i * 4)) [0..<shadow_count js]
      = take (shadow_count js) (shadow_lba js)"
    using len f(8) by (intro nth_equalityI) auto
  show ?thesis unfolding journal_decode_def desc Let_def f(6) data lbas using f(4,5,7,9) n len(1) by (simp add: shadow_def)
qed

section \<open>A crash during commit\<close>

lemma apply_writes_cong: "D l = E l \<Longrightarrow> apply_writes ws D l = apply_writes ws E l"
  by (cases "l \<in> fst ` set ws") (auto intro: apply_writes_in simp: apply_writes_notin)

lemma get_first_sector:
  assumes "length d = 1024" "off + 4 \<le> 512"
  shows "get_u32_le (take SECTOR_SIZE d @ x) off = get_u32_le d off"
  using assms by (simp add: get_u32_le_def slice_def kconst drop_take take_append)

lemma decode_zeroed: "D start = zero_sector \<Longrightarrow> journal_decode start D = None"
  by (simp add: journal_decode_def Let_def get_u32_le_def slice_def zero_sector_def kconst MAGIC_def from_le32_def
      numeral_eq_Suc)

lemma numbered_in_journal:
  assumes "region_fits start" "length xs \<le> 128" "w \<in> set (numbered (start + 2) xs)"
  shows "in_journal start (fst w)" "fst w \<noteq> start" "fst w \<noteq> start + 1"
proof -
  have "fst w \<in> set (map fst (numbered (start + 2) xs))" using assms(3) by simp
  then obtain i where "i < length xs" "fst w = start + 2 + of_nat i" unfolding map_fst_numbered by auto
  then show "in_journal start (fst w)" "fst w \<noteq> start" "fst w \<noteq> start + 1"
    using assms(1,2) region_sectors(3) region_distinct(2,3) by auto
qed

lemma apply_numbered:
  assumes "region_fits start" "length xs \<le> 128" "i < length xs"
  shows "apply_writes (numbered (start + 2) xs) D (start + 2 + of_nat i) = xs ! i"
proof -
  have inj: "distinct (map fst (numbered (start + 2) xs))"
    unfolding map_fst_numbered distinct_map
  proof
    show "inj_on (\<lambda>i. start + 2 + of_nat i) (set [0..<length xs])"
    proof (rule inj_onI)
      fix a b assume "a \<in> set [0..<length xs]" "b \<in> set [0..<length xs]" "start + 2 + of_nat a = start + 2 + of_nat b"
      then show "a = b" using assms(2) by (intro region_distinct(4) [OF assms(1)]) auto
    qed
  qed simp
  have "(start + 2 + of_nat i, xs ! i) \<in> set (numbered (start + 2) xs)"
    using nth_mem [of i "numbered (start + 2) xs"] assms(3) by (simp add: nth_numbered)
  then show ?thesis using inj by (simp add: apply_writes_distinct map_of_is_SomeI)
qed

lemma placed_distinct: "journal_ok js \<Longrightarrow> distinct (map fst (placed js off))"
proof -
  assume "journal_ok js"
  then have d: "distinct (take (shadow_count js) (shadow_lba js))" and l: "map fst (shadow js) = take (shadow_count js) (shadow_lba js)"
    by (simp_all add: journal_ok_def shadow_def)
  have "map fst (placed js off) = map (\<lambda>l. if targets_absolute js then l else l + off) (map fst (shadow js))"
    by (simp add: placed_def place_def)
  also have "distinct \<dots>" unfolding distinct_map l using d by (auto intro!: inj_onI split: if_splits)
  finally show ?thesis .
qed

text \<open>While the descriptor and the data are being written the disk means what it meant before.\<close>

lemma crash_before_mark:
  assumes ok: "journal_ok js" and fits: "region_fits start" and quiet: "journal_decode start D = None"
    and ws: "ws = numbered start (descriptor_sectors (build_descriptor js)) @ numbered (start + 2) (take (shadow_count js) (shadow_data js))"
  shows "journal_view start off (apply_writes (take n ws) D) = outside start D" "journal_decode start (apply_writes (take n ws) D) = None"
proof -
  let ?E = "apply_writes (take n ws) D"
  have len: "length (take (shadow_count js) (shadow_data js)) \<le> 128" using ok by (simp add: journal_ok_def kconst)
  have reg: "in_journal start (fst w)" if "w \<in> set ws" for w
  proof -
    from that consider "w \<in> set (numbered (start + 2) (take (shadow_count js) (shadow_data js)))" | "fst w = start" | "fst w = start + 1"
      by (auto simp: ws descriptor_sectors_def)
    then show ?thesis using numbered_in_journal(1) [OF fits len] region_sectors(1,2) [OF fits] by cases simp_all
  qed
  show dec: "journal_decode start ?E = None"
  proof (cases n)
    case 0
    then show ?thesis using quiet by simp
  next
    case (Suc m)
    let ?x = "take SECTOR_SIZE (build_descriptor js)"
    obtain vs where vs: "ws = (start, ?x) # vs" "set vs = insert (start + 1, drop SECTOR_SIZE (build_descriptor js))
        (set (numbered (start + 2) (take (shadow_count js) (shadow_data js))))"
      by (simp add: ws descriptor_sectors_def)
    have "fst w \<noteq> start" if "w \<in> set vs" for w
    proof -
      from that vs(2) consider "fst w = start + 1" | "w \<in> set (numbered (start + 2) (take (shadow_count js) (shadow_data js)))"
        by auto
      then show ?thesis using numbered_in_journal(2) [OF fits len] region_distinct(1) [OF fits] by cases simp_all
    qed
    then have "start \<notin> fst ` set (take m vs)" using set_take_subset [of m vs] by blast
    then have "?E start = ?x" using Suc vs(1) by (simp add: apply_writes_notin)
    then show ?thesis
      using get_first_sector [OF descriptor_fields(1) [OF ok], of OFF_COMMIT_FLAG] descriptor_fields(3) [OF ok]
      by (intro decode_uncommitted) (simp add: kconst COMMIT_MAGIC_def)
  qed
  have "?E l = D l" if "\<not> in_journal start l" for l
    using that reg set_take_subset [of n ws] by (intro apply_writes_notin) blast
  with dec show "journal_view start off ?E = outside start D" by (auto simp: journal_view_def outside_def fun_eq_iff)
qed

text \<open>From the commit mark on it means the contents after the transaction.\<close>

lemma crash_after_mark:
  assumes ok: "journal_ok js" and fits: "region_fits start" and n: "shadow_count js \<noteq> 0"
    and tgt: "\<And>w. w \<in> set (placed js off) \<Longrightarrow> \<not> in_journal start (fst w)"
    and d: "E start = take SECTOR_SIZE (committed_descriptor js)" "E (start + 1) = drop SECTOR_SIZE (committed_descriptor js)"
    and x: "\<And>i. i < shadow_count js \<Longrightarrow> E (start + 2 + of_nat i) = shadow_data js ! i"
    and out: "\<And>l. \<not> in_journal start l \<Longrightarrow> E l = D l"
  shows "journal_view start off (apply_writes (take m (placed js off @ [(start, zero_sector)])) E)
      = outside start (apply_writes (placed js off) D)
    \<and> pending_ok start off (apply_writes (take m (placed js off @ [(start, zero_sector)])) E)"
proof -
  let ?ws = "placed js off"
  have dec: "journal_decode start E = Some (targets_absolute js, shadow js)" by (rule decode_committed [OF ok n d x])
  show ?thesis
  proof (cases "m \<le> length ?ws")
    case True
    have "\<not> in_journal start (fst w)" if "w \<in> set (take m ?ws)" for w using that tgt set_take_subset [of m ?ws] by blast
    then have dm: "journal_decode start (apply_writes (take m ?ws) E) = Some (targets_absolute js, shadow js)"
      using decode_outside [OF fits] dec by simp
    then have "journal_view start off (apply_writes (take m ?ws) E) l = outside start (apply_writes ?ws D) l" for l
      using apply_writes_redo [OF placed_distinct [OF ok, of off], of m E] apply_writes_cong [of E l D ?ws] out [of l]
      by (auto simp: journal_view_def outside_def placed_def)
    moreover have "pending_ok start off (apply_writes (take m ?ws) E)"
      using placed_distinct [OF ok, of off] tgt unfolding pending_ok_def dm by (simp add: placed_def)
    ultimately show ?thesis using True by (simp add: fun_eq_iff)
  next
    case False
    then have e: "take m (?ws @ [(start, zero_sector)]) = ?ws @ [(start, zero_sector)]" by simp
    have "journal_decode start ((apply_writes ?ws E)(start := zero_sector)) = None" by (rule decode_zeroed) simp
    then show ?thesis
      unfolding e using apply_writes_cong [of E _ D ?ws] out region_sectors(1) [OF fits]
      by (auto simp: journal_view_def outside_def pending_ok_def fun_eq_iff)
  qed
qed

end
