(* ===== verification/Journalcrash.thy ===== *)
theory Journalcrash
  imports Journalsafe
begin

text \<open>
  Crash and recovery put together: transactions of any writes, cut by a power failure at any sector, followed by
  any number of boots that may be cut as well.
\<close>

section \<open>Any cut of a commit\<close>

lemma crash_commit:
  assumes ok: "journal_ok js" and fits: "region_fits start" and start: "journal_start_lba js = start"
    and quiet: "journal_decode start D = None"
    and tgt: "\<And>w. w \<in> set (placed js off) \<Longrightarrow> \<not> in_journal start (fst w)"
  shows "journal_view start off (apply_writes (take n (commit_writes js off)) D)
      = outside start (if n < shadow_count js + 3 then D else apply_writes (placed js off) D)
    \<and> pending_ok start off (apply_writes (take n (commit_writes js off)) D)"
proof (cases "shadow_count js = 0")
  case True
  then have "commit_writes js off = []" "placed js off = []" by (simp_all add: commit_writes_def placed_def shadow_def)
  then show ?thesis using quiet by (auto simp: journal_view_def outside_def pending_ok_def fun_eq_iff)
next
  case k0: False
  let ?k = "shadow_count js" and ?W = "commit_writes js off" and ?data = "take (shadow_count js) (shadow_data js)"
  let ?x = "take SECTOR_SIZE (committed_descriptor js)" and ?y = "drop SECTOR_SIZE (committed_descriptor js)"
  let ?AB = "numbered start (descriptor_sectors (build_descriptor js)) @ numbered (start + 2) ?data"
  let ?EZ = "placed js off @ [(start, zero_sector)]"
  have klen: "length ?data = ?k" and k: "?k \<le> 128" using ok by (simp_all add: journal_ok_def kconst)
  have W: "?W = ?AB @ (start, ?x) # (start + 1, ?y) # ?EZ"
    using k0 by (simp add: commit_writes_def start descriptor_sectors_def DESCRIPTOR_SECTORS_def)
  have lAB: "length ?AB = ?k + 2" using klen by (simp add: descriptor_sectors_def)
  note before = crash_before_mark [OF ok fits quiet refl]
  show ?thesis
  proof (cases "n < ?k + 3")
    case True
    then have t: "take n ?W = take n ?AB" using lAB by (simp add: W)
    show ?thesis using before(1) [of off n] before(2) [of n] True unfolding t by (simp add: pending_ok_def)
  next
    case False
    define E where "E = (apply_writes ?AB D)(start := ?x)"
    have "length ?data \<le> 128" using klen k by simp
    note nj = numbered_in_journal [OF fits this]
    have "start + 1 \<notin> fst ` set (numbered (start + 2) ?data)" by (rule notin_fst [OF nj(3)])
    then have s1: "apply_writes ?AB D (start + 1) = ?y"
      using descriptor_fields(10) [OF ok] by (simp add: apply_writes_notin descriptor_sectors_def)
    then have y: "E (start + 1) = ?y" using region_distinct(1) [OF fits] by (simp add: E_def)
    have x: "E (start + 2 + of_nat i) = shadow_data js ! i" if "i < ?k" for i
      using apply_numbered [OF fits, of ?data i] that k klen region_distinct(2) [OF fits, of i] by (simp add: E_def)
    have out: "E l = D l" if "\<not> in_journal start l" for l
    proof -
      have "fst w \<noteq> l" if "w \<in> set (numbered (start + 2) ?data)" for w using nj(1) [OF that] \<open>\<not> in_journal start l\<close> by auto
      then have "l \<notin> fst ` set (numbered (start + 2) ?data)" by (rule notin_fst)
      moreover have "l \<noteq> start" "l \<noteq> start + 1" using that region_sectors(1,2) [OF fits] by auto
      ultimately show ?thesis by (simp add: E_def descriptor_sectors_def apply_writes_notin)
    qed
    have "take n ?W = ?AB @ take (n - (?k + 2)) ((start, ?x) # (start + 1, ?y) # ?EZ)" using False lAB by (simp add: W)
    moreover have "apply_writes (take (n - (?k + 2)) ((start, ?x) # (start + 1, ?y) # ?EZ)) (apply_writes ?AB D)
        = apply_writes (take (n - (?k + 4)) ?EZ) E"
    proof -
      have "E(start + 1 := ?y) = E" using y by (simp add: fun_upd_idem)
      moreover define m where "m = n - (?k + 3)"
      then have "n - (?k + 2) = Suc m" "n - (?k + 4) = m - 1" using False by simp_all
      ultimately show ?thesis by (cases m) (simp_all add: E_def)
    qed
    ultimately have e: "apply_writes (take n ?W) D = apply_writes (take (n - (?k + 4)) ?EZ) E" by simp
    have "E start = ?x" by (simp add: E_def)
    have "journal_view start off (apply_writes (take (n - (?k + 4)) ?EZ) E) = outside start (apply_writes (placed js off) D)
      \<and> pending_ok start off (apply_writes (take (n - (?k + 4)) ?EZ) E)"
      by (rule crash_after_mark [OF ok fits k0 tgt \<open>E start = ?x\<close> y x out])
    with False show ?thesis unfolding e by simp
  qed
qed

section \<open>Recovery\<close>

definition recover_writes :: "u32 \<Rightarrow> u32 \<Rightarrow> (u32 \<Rightarrow> bytes) \<Rightarrow> (u32 \<times> bytes) list" where
  "recover_writes start off D = (case journal_decode start D of Some (a, ws) \<Rightarrow> map (place a off) ws @ [(start, zero_sector)]
     | None \<Rightarrow> if get_u32_le (D start @ D (start + 1)) OFF_MAGIC \<noteq> MAGIC
         \<or> get_u32_le (D start @ D (start + 1)) OFF_COMMIT_FLAG \<noteq> COMMIT_MAGIC
         \<or> unat (get_u32_le (D start @ D (start + 1)) OFF_BLOCK_COUNT) = 0
         \<or> unat (get_u32_le (D start @ D (start + 1)) OFF_BLOCK_COUNT) > MAX_TXN_BLOCKS then [] else [(start, zero_sector)])"

lemma load_blocks_sound:
  assumes "sound b" "length (shadow_lba js) = MAX_TXN_BLOCKS" "length (shadow_data js) = MAX_TXN_BLOCKS" "n \<le> MAX_TXN_BLOCKS" "k \<le> n"
    and "\<And>i. i < k \<Longrightarrow> shadow_lba js ! i = get_u32_le desc (OFF_TARGET_LBA + i * 4)"
    and "\<And>i. i < k \<Longrightarrow> shadow_data js ! i = disk b (start + 2 + of_nat i)"
  shows "\<exists>lbas data. load_blocks desc start [k..<n] js b = (True, js\<lparr>shadow_lba := lbas, shadow_data := data\<rparr>)
    \<and> length lbas = MAX_TXN_BLOCKS \<and> length data = MAX_TXN_BLOCKS
    \<and> take n lbas = map (\<lambda>i. get_u32_le desc (OFF_TARGET_LBA + i * 4)) [0..<n]
    \<and> take n data = map (\<lambda>i. disk b (start + 2 + of_nat i)) [0..<n]"
  using assms(2-)
proof (induction "n - k" arbitrary: k js)
  case 0
  then have "[k..<n] = []" "k = n" by simp_all
  moreover have "take n (shadow_lba js) = map (\<lambda>i. get_u32_le desc (OFF_TARGET_LBA + i * 4)) [0..<n]"
    "take n (shadow_data js) = map (\<lambda>i. disk b (start + 2 + of_nat i)) [0..<n]"
    using 0 \<open>k = n\<close> by (auto intro!: nth_equalityI)
  ultimately show ?case using 0 by (intro exI [of _ "shadow_lba js"] exI [of _ "shadow_data js"]) simp
next
  case (Suc m)
  let ?l = "get_u32_le desc (OFF_TARGET_LBA + k * 4)" and ?x = "disk b (start + 2 + of_nat k)"
  let ?js = "js\<lparr>shadow_lba := (shadow_lba js)[k := ?l], shadow_data := (shadow_data js)[k := ?x]\<rparr>"
  have k: "k < n" "[k..<n] = k # [Suc k..<n]" using Suc.hyps(2) by (simp_all add: upt_conv_Cons)
  have step: "load_blocks desc start [k..<n] js b = load_blocks desc start [Suc k..<n] ?js b"
    using assms(1) by (simp add: k(2) blockdev_read_sectors_absolute_def disk_def Let_def DESCRIPTOR_SECTORS_def)
  have "\<exists>lbas data. load_blocks desc start [Suc k..<n] ?js b = (True, ?js\<lparr>shadow_lba := lbas, shadow_data := data\<rparr>)
    \<and> length lbas = MAX_TXN_BLOCKS \<and> length data = MAX_TXN_BLOCKS
    \<and> take n lbas = map (\<lambda>i. get_u32_le desc (OFF_TARGET_LBA + i * 4)) [0..<n]
    \<and> take n data = map (\<lambda>i. disk b (start + 2 + of_nat i)) [0..<n]"
    using Suc.hyps(2) Suc.prems k(1) by (intro Suc.hyps(1)) (auto simp: nth_list_update less_Suc_eq)
  then show ?case unfolding step by simp
qed

lemma recover_trace:
  assumes b: "sound b" "journal_region_usable js b" and len: "length (shadow_lba js) = MAX_TXN_BLOCKS" "length (shadow_data js) = MAX_TXN_BLOCKS"
    and start: "journal_start_lba js = start"
  shows "fst (rust_journal_recover js b) = (case journal_decode start (disk b) of None \<Rightarrow> 0 | Some (a, ws) \<Rightarrow> int (length ws))
    \<and> snd (snd (rust_journal_recover js b)) = put_all (recover_writes start (partition_offset b) (disk b)) b"
proof -
  let ?D = "disk b" let ?desc = "?D start @ ?D (start + 1)" let ?n = "unat (get_u32_le ?desc OFF_BLOCK_COUNT)"
  let ?data = "map (\<lambda>i. ?D (start + 2 + of_nat i)) [0..<?n]" and ?a = "get_u32_le ?desc OFF_TARGETS_ABSOLUTE \<noteq> 0"
  let ?lbas = "map (\<lambda>i. get_u32_le ?desc (OFF_TARGET_LBA + i * 4)) [0..<?n]"
  have rd: "blockdev_read_sectors_absolute start DESCRIPTOR_SECTORS b = Some [?D start, ?D (start + 1)]"
    using b(1) by (simp add: blockdev_read_sectors_absolute_def disk_def DESCRIPTOR_SECTORS_def numeral_2_eq_2)
  show ?thesis
  proof (cases "get_u32_le ?desc OFF_MAGIC \<noteq> MAGIC \<or> get_u32_le ?desc OFF_COMMIT_FLAG \<noteq> COMMIT_MAGIC \<or> ?n = 0 \<or> ?n > MAX_TXN_BLOCKS")
    case True
    then have dec: "journal_decode start ?D = None" unfolding journal_decode_def Let_def by (simp only: if_True)
    have "rust_journal_recover js b = (0, js, b)"
      unfolding rust_journal_recover_def recover_internal_def start Let_def rd using True b(2) by (simp only: option.simps concat.simps append_Nil2 if_True not_True_eq_False if_False)
    moreover have "recover_writes start (partition_offset b) ?D = []" unfolding recover_writes_def dec using True by (simp only: option.simps if_True)
    ultimately show ?thesis using dec by simp
  next
    case False
    then have n: "?n \<le> MAX_TXN_BLOCKS" "?n \<noteq> 0" by simp_all
    obtain lbas data where ld: "load_blocks ?desc start [0..<?n] js b = (True, js\<lparr>shadow_lba := lbas, shadow_data := data\<rparr>)"
      and t: "take ?n lbas = ?lbas" "take ?n data = ?data"
      using load_blocks_sound [OF b(1) len n(1), of 0 ?desc start] by auto
    define js1 where "js1 = js\<lparr>shadow_lba := lbas, shadow_data := data, shadow_count := ?n, targets_absolute := ?a\<rparr>"
    have u: "journal_region_usable js1 b" using b(2) by (simp add: js1_def journal_region_usable_def)
    have p: "placed js1 (partition_offset b) = map (place ?a (partition_offset b)) (zip ?lbas ?data)" "shadow_count js1 = ?n" "journal_start_lba js1 = start"
      using t start by (simp_all add: placed_def shadow_def js1_def)
    have run: "rust_journal_recover js b =
      (if compute_checksum (slice OFF_TARGET_LBA (?n * 4) ?desc) ?data \<noteq> get_u32_le ?desc OFF_CHECKSUM
       then (0, js\<lparr>shadow_lba := lbas, shadow_data := data\<rparr>, put_all [(start, zero_sector)] b)
       else (case checkpoint_internal js1 b of (ok, js2, b2) \<Rightarrow> (if ok then int ?n else - 1, js2, b2)))"
      using False b rd ld t by (simp add: rust_journal_recover_def recover_internal_def start js1_def Let_def
          blockdev_write_sectors_absolute_def zero_sector_def)
    have dec: "journal_decode start ?D = (if compute_checksum (slice OFF_TARGET_LBA (?n * 4) ?desc) ?data \<noteq> get_u32_le ?desc OFF_CHECKSUM
      then None else Some (?a, zip ?lbas ?data))"
      unfolding journal_decode_def Let_def using False by (simp only: if_False)
    show ?thesis unfolding run recover_writes_def dec checkpoint_trace [OF b(1) u] p using False n by simp
  qed
qed

text \<open>Cutting a recovery short keeps what the file system sees; a whole one also empties the journal.\<close>

lemma outside_start: "region_fits start \<Longrightarrow> outside start (D(start := x)) = outside start D"
  using region_sectors(1) [of start] by (auto simp: outside_def fun_eq_iff)

lemma view_decoded:
  "journal_decode start D = None \<Longrightarrow> journal_view start off D = outside start D"
  "journal_decode start D = Some (a, ws) \<Longrightarrow> journal_view start off D = outside start (apply_writes (map (place a off) ws) D)"
  by (simp_all add: journal_view_def outside_def fun_eq_iff)

lemma crash_recover:
  assumes fits: "region_fits start" and pend: "pending_ok start off D"
  shows "journal_view start off (apply_writes (take n (recover_writes start off D)) D) = journal_view start off D
    \<and> pending_ok start off (apply_writes (take n (recover_writes start off D)) D)"
proof (cases "journal_decode start D")
  case None
  have z: "journal_decode start (D(start := zero_sector)) = None" by (rule decode_zeroed) simp
  have "take n (recover_writes start off D) \<in> {[], [(start, zero_sector)]}" using None by (cases n) (simp_all add: recover_writes_def)
  then consider "take n (recover_writes start off D) = []" | "take n (recover_writes start off D) = [(start, zero_sector)]" by blast
  then show ?thesis
  proof cases
    case 1
    show ?thesis unfolding 1 using pend by simp
  next
    case 2
    show ?thesis unfolding 2 using view_decoded(1) [OF z, of off] view_decoded(1) [OF None, of off] z outside_start [OF fits, of D]
      by (simp add: pending_ok_def)
  qed
next
  case (Some aw)
  obtain a ws where aw: "aw = (a, ws)" by (cases aw)
  note dec = Some [unfolded aw]
  let ?W = "map (place a off) ws"
  have W: "distinct (map fst ?W)" and out: "\<And>w. w \<in> set ?W \<Longrightarrow> \<not> in_journal start (fst w)"
    using pend dec by (auto simp: pending_ok_def)
  have rw: "recover_writes start off D = ?W @ [(start, zero_sector)]" using dec by (simp add: recover_writes_def)
  show ?thesis
  proof (cases "n \<le> length ?W")
    case True
    then have t: "take n (recover_writes start off D) = take n ?W" unfolding rw by simp
    have "\<not> in_journal start (fst w)" if "w \<in> set (take n ?W)" for w using out [of w] in_set_takeD [OF that] by blast
    then have dec': "journal_decode start (apply_writes (take n ?W) D) = Some (a, ws)" using decode_outside [OF fits] dec by metis
    show ?thesis unfolding t view_decoded(2) [OF dec'] view_decoded(2) [OF dec] apply_writes_redo [OF W]
      using W out dec' by (simp add: pending_ok_def)
  next
    case False
    then have t: "take n (recover_writes start off D) = ?W @ [(start, zero_sector)]" unfolding rw by simp
    have dec': "journal_decode start ((apply_writes ?W D)(start := zero_sector)) = None" by (rule decode_zeroed) simp
    show ?thesis unfolding t using view_decoded(1) [OF dec', of off] view_decoded(2) [OF dec, of off] dec' outside_start [OF fits]
      by (simp add: pending_ok_def)
  qed
qed

lemma recover_length:
  assumes "length (recover_writes start off D) \<le> n"
  shows "journal_decode start (apply_writes (take n (recover_writes start off D)) D) = None"
proof (cases "journal_decode start D")
  case None
  have z: "journal_decode start (D(start := zero_sector)) = None" by (rule decode_zeroed) simp
  show ?thesis using assms None z by (simp add: recover_writes_def)
next
  case (Some aw)
  then show ?thesis using assms by (cases aw) (simp add: recover_writes_def decode_zeroed)
qed

lemma recover_writes_le: "length (recover_writes start off D) \<le> MAX_TXN_BLOCKS + 1"
proof (cases "journal_decode start D")
  case (Some aw)
  then have "length (snd aw) \<le> MAX_TXN_BLOCKS" by (auto simp: journal_decode_def Let_def split: if_splits)
  with Some show ?thesis by (cases aw) (simp add: recover_writes_def)
qed (simp add: recover_writes_def)

end
