(* ===== verification/Journaltxn.thy ===== *)
theory Journaltxn
  imports Journalcrash
begin

text \<open>
  Transactions of the journal: what a file-system operation reads back inside its transaction, the bound on its
  sectors, and that a power failure at any point leaves the file system with all of its writes or none of them.
\<close>

section \<open>The shadow table\<close>

lemma map_of_update:
  "distinct (map fst ws) \<Longrightarrow> i < length ws \<Longrightarrow> fst (ws ! i) = l \<Longrightarrow> map_of (ws[i := (l, x)]) = (map_of ws)(l \<mapsto> x)"
proof (induction ws arbitrary: i)
  case (Cons w ws)
  then show ?case
  proof (cases i)
    case (Suc j)
    then have "fst w \<noteq> l" using Cons.prems by auto
    with Suc Cons show ?thesis by (cases w) (auto simp: fun_upd_twist)
  qed (cases w, auto)
qed simp

lemma apply_writes_update:
  assumes "distinct (map fst ws)" "i < length ws" "fst (ws ! i) = l"
  shows "apply_writes (ws[i := (l, x)]) D = (apply_writes ws D)(l := x)"
proof
  fix m
  have "map fst (ws[i := (l, x)]) = map fst ws" using assms by (simp add: map_update list_update_same_conv)
  then have "distinct (map fst (ws[i := (l, x)]))" using assms(1) by simp
  then show "apply_writes (ws[i := (l, x)]) D m = ((apply_writes ws D)(l := x)) m"
    using assms map_of_update [OF assms] by (simp add: apply_writes_distinct)
qed

definition txn_view :: "journal \<Rightarrow> blockdev \<Rightarrow> u32 \<Rightarrow> bytes" where
  "txn_view js b = (if depth js = 0 then disk b else apply_writes (placed js (partition_offset b)) (disk b))"

definition journal_inv :: "journal \<Rightarrow> bool" where
  "journal_inv js \<longleftrightarrow> journal_ok js \<and> \<not> targets_absolute js"

lemma shadow_parts:
  assumes "journal_ok js"
  shows "length (take (shadow_count js) (shadow_lba js)) = shadow_count js" "length (take (shadow_count js) (shadow_data js)) = shadow_count js"
    "length (shadow js) = shadow_count js" "map fst (shadow js) = take (shadow_count js) (shadow_lba js)"
  using assms by (simp_all add: journal_ok_def shadow_def)

lemma find_shadow_some:
  assumes "journal_ok js" "find_shadow js lba = Some i"
  shows "i < shadow_count js" "take (shadow_count js) (shadow_lba js) ! i = lba"
  using position_SomeD [OF assms(2) [unfolded find_shadow_def]] shadow_parts(1) [OF assms(1)] by simp_all

lemma find_shadow_none: "journal_ok js \<Longrightarrow> find_shadow js lba = None \<longleftrightarrow> lba \<notin> fst ` set (shadow js)"
  using shadow_parts(4) [of js] by (auto simp: find_shadow_def position_None simp flip: list.set_map)

lemma placed_relative: "\<not> targets_absolute js \<Longrightarrow> placed js off = map (\<lambda>w. (fst w + off, snd w)) (shadow js)"
  by (simp add: placed_def place_def)

lemma shadow_overwrite:
  assumes ok: "journal_ok js" "\<not> targets_absolute js" and x: "length x = SECTOR_SIZE" and i: "find_shadow js lba = Some i"
    and js': "js' = js\<lparr>shadow_data := (shadow_data js)[i := x]\<rparr>"
  shows "journal_ok js' \<and> fst ` set (shadow js') = fst ` set (shadow js)
      \<and> apply_writes (placed js' off) D = (apply_writes (placed js off) D)(lba + off := x)"
proof -
  let ?L = "take (shadow_count js) (shadow_lba js)" and ?X = "take (shadow_count js) (shadow_data js)"
  note f = find_shadow_some [OF ok(1) i] and p = shadow_parts [OF ok(1)]
  have X: "take (shadow_count js) ((shadow_data js)[i := x]) = ?X[i := x]" by (simp add: take_update_swap)
  have sh: "shadow js' = (shadow js)[i := (lba, x)]"
    using f update_zip [of ?L ?X i "(lba, x)"] list_update_id [of ?L i] by (simp add: js' shadow_def X del: list_update_id)
  have "length y = SECTOR_SIZE" if "y \<in> set (?X[i := x])" for y
    using that set_update_subset_insert [of ?X i x] ok(1) x by (auto simp: journal_ok_def)
  then have 1: "journal_ok js'" using ok(1) X by (simp add: journal_ok_def js')
  then have "map fst (shadow js') = map fst (shadow js)" using shadow_parts(4) [OF 1] p(4) by (simp add: js')
  then have 2: "fst ` set (shadow js') = fst ` set (shadow js)" by (metis list.set_map)
  have len: "i < length (placed js off)" using f p by (simp add: placed_def)
  have "fst (shadow js ! i) = lba" using f p by (metis nth_map)
  then have "fst (placed js off ! i) = lba + off" using len ok(2) by (simp add: placed_relative)
  from apply_writes_update [OF placed_distinct [OF ok(1)] len this]
  have "apply_writes ((placed js off)[i := (lba + off, x)]) D = (apply_writes (placed js off) D)(lba + off := x)" .
  moreover have "placed js' off = (placed js off)[i := (lba + off, x)]"
    using placed_relative [of js' off] placed_relative [OF ok(2), of off] ok(2) by (simp add: sh map_update) (simp add: js')
  ultimately show ?thesis using 1 2 by simp
qed

lemma shadow_insert:
  assumes ok: "journal_ok js" "\<not> targets_absolute js" and x: "length x = SECTOR_SIZE" and i: "find_shadow js lba = None"
    and n: "shadow_count js < MAX_TXN_BLOCKS"
    and js': "js' = js\<lparr>shadow_lba := (shadow_lba js)[shadow_count js := lba], shadow_count := shadow_count js + 1,
            shadow_data := (shadow_data js)[shadow_count js := x]\<rparr>"
  shows "journal_ok js' \<and> fst ` set (shadow js') = insert lba (fst ` set (shadow js))
      \<and> apply_writes (placed js' off) D = (apply_writes (placed js off) D)(lba + off := x)"
proof -
  let ?n = "shadow_count js"
  have L: "take (Suc ?n) ((shadow_lba js)[?n := lba]) = take ?n (shadow_lba js) @ [lba]"
    and X: "take (Suc ?n) ((shadow_data js)[?n := x]) = take ?n (shadow_data js) @ [x]"
    using ok(1) n by (simp_all add: journal_ok_def take_Suc_conv_app_nth)
  have sh: "shadow js' = shadow js @ [(lba, x)]" using shadow_parts [OF ok(1)] by (simp add: js' shadow_def L X)
  have "lba \<notin> set (take ?n (shadow_lba js))" using i by (auto simp: find_shadow_def position_None)
  then have "journal_ok js'" using ok(1) x n by (auto simp: journal_ok_def js' L X)
  moreover have "placed js' off = placed js off @ [(lba + off, x)]" using placed_relative [of js' off] placed_relative [OF ok(2), of off] ok(2) by (simp add: sh) (simp add: js')
  ultimately show ?thesis by (simp add: sh)
qed

text \<open>Buffered sectors behave as written: the loop that fills the shadow table.\<close>

lemma write_loop_view:
  assumes "journal_ok js" "\<not> targets_absolute js" "\<forall>x \<in> set xs. length x = SECTOR_SIZE"
  shows "\<exists>k js'. write_loop lba xs js = (k = length xs, js') \<and> k \<le> length xs
    \<and> journal_ok js' \<and> js' = js\<lparr>shadow_lba := shadow_lba js', shadow_data := shadow_data js', shadow_count := shadow_count js'\<rparr>
    \<and> fst ` set (shadow js') = fst ` set (shadow js) \<union> fst ` set (take k (numbered lba xs))
    \<and> (k < length xs \<longrightarrow> shadow_count js' = MAX_TXN_BLOCKS \<and> lba + of_nat k \<notin> fst ` set (shadow js'))
    \<and> (\<forall>off D. apply_writes (placed js' off) D = apply_writes (take k (numbered (lba + off) xs)) (apply_writes (placed js off) D))"
  using assms
proof (induction xs arbitrary: lba js)
  case Nil
  then show ?case by simp
next
  case (Cons x xs)
  have x: "length x = SECTOR_SIZE" using Cons.prems by simp
  have step: ?case
    if run: "write_loop lba (x # xs) js = write_loop (lba + 1) xs js1" and ok: "journal_ok js1" "fst ` set (shadow js1) = insert lba (fst ` set (shadow js))"
      and eq: "js1 = js\<lparr>shadow_lba := shadow_lba js1, shadow_data := shadow_data js1, shadow_count := shadow_count js1\<rparr>"
      and app: "\<And>off D. apply_writes (placed js1 off) D = (apply_writes (placed js off) D)(lba + off := x)" for js1
  proof -
    have "targets_absolute js1 = targets_absolute js" by (subst eq) simp
    then have abs: "\<not> targets_absolute js1" using Cons.prems by simp
    obtain k js' where w: "write_loop (lba + 1) xs js1 = (k = length xs, js')" "k \<le> length xs" "journal_ok js'"
      and eq': "js' = js1\<lparr>shadow_lba := shadow_lba js', shadow_data := shadow_data js', shadow_count := shadow_count js'\<rparr>"
      and set: "fst ` set (shadow js') = fst ` set (shadow js1) \<union> fst ` set (take k (numbered (lba + 1) xs))"
      and full: "k < length xs \<longrightarrow> shadow_count js' = MAX_TXN_BLOCKS \<and> lba + 1 + of_nat k \<notin> fst ` set (shadow js')"
      and app': "\<forall>off D. apply_writes (placed js' off) D = apply_writes (take k (numbered (lba + 1 + off) xs)) (apply_writes (placed js1 off) D)"
      using Cons.IH [OF ok(1) abs, of "lba + 1"] Cons.prems by auto
    have "js' = js\<lparr>shadow_lba := shadow_lba js', shadow_data := shadow_data js', shadow_count := shadow_count js'\<rparr>"
      by (subst eq', subst eq) simp
    moreover have "lba + 1 + off = lba + off + 1" for off by simp
    ultimately show ?thesis
      using w set full app' app ok(2) by (intro exI [of _ "Suc k"] exI [of _ js']) (simp add: run ac_simps del: write_loop.simps)
  qed
  show ?case
  proof (cases "find_shadow js lba")
    case (Some i)
    define js1 where "js1 = js\<lparr>shadow_data := (shadow_data js)[i := x]\<rparr>"
    note sp = shadow_overwrite [OF Cons.prems(1,2) x Some js1_def]
    have "lba \<in> fst ` set (shadow js)" using Some find_shadow_none [OF Cons.prems(1), of lba] by auto
    then show ?thesis using sp Some by (intro step [of js1]) (auto simp: js1_def)
  next
    case None
    show ?thesis
    proof (cases "shadow_count js < MAX_TXN_BLOCKS")
      case True
      define js1 where "js1 = js\<lparr>shadow_lba := (shadow_lba js)[shadow_count js := lba], shadow_count := shadow_count js + 1,
            shadow_data := (shadow_data js)[shadow_count js := x]\<rparr>"
      note sp = shadow_insert [OF Cons.prems(1,2) x None True js1_def]
      show ?thesis using sp None True by (intro step [of js1]) (simp_all add: js1_def Let_def)
    next
      case False
      then have "shadow_count js = MAX_TXN_BLOCKS" using Cons.prems(1) by (simp add: journal_ok_def)
      then show ?thesis using None find_shadow_none [OF Cons.prems(1), of lba] Cons.prems(1)
        by (intro exI [of _ 0] exI [of _ js]) simp
    qed
  qed
qed

lemma shadow_lookup:
  assumes "journal_ok js" "\<not> targets_absolute js"
  shows "apply_writes (placed js off) D (lba + off) = (case find_shadow js lba of None \<Rightarrow> D (lba + off) | Some i \<Rightarrow> shadow_data js ! i)"
proof (cases "find_shadow js lba")
  case None
  then have "lba + off \<notin> fst ` set (placed js off)"
    using find_shadow_none [OF assms(1), of lba] by (force simp: placed_relative [OF assms(2)])
  then show ?thesis using None by (simp add: apply_writes_notin)
next
  case (Some i)
  note f = find_shadow_some [OF assms(1) Some] and p = shadow_parts [OF assms(1)]
  have "shadow js ! i = (lba, shadow_data js ! i)" using f p by (simp add: shadow_def)
  then have "placed js off ! i = (lba + off, shadow_data js ! i)" using f p by (simp add: placed_relative [OF assms(2)])
  moreover have "i < length (placed js off)" using f p by (simp add: placed_def)
  ultimately have "(lba + off, shadow_data js ! i) \<in> set (placed js off)" by (metis nth_mem)
  then have "map_of (placed js off) (lba + off) = Some (shadow_data js ! i)"
    using placed_distinct [OF assms(1), of off] by (simp add: map_of_eq_Some_iff)
  then show ?thesis using Some placed_distinct [OF assms(1), of off] by (simp add: apply_writes_distinct)
qed

lemma read_loop_view:
  assumes "journal_ok js" "\<not> targets_absolute js" "sound b"
  shows "read_loop js lba n b = Some (map (\<lambda>i. apply_writes (placed js (partition_offset b)) (disk b) (lba + partition_offset b + of_nat i)) [0..<n])"
proof (induction n arbitrary: lba)
  case (Suc n)
  let ?f = "apply_writes (placed js (partition_offset b)) (disk b)" and ?o = "partition_offset b"
  have r: "read_loop js lba (Suc n) b = map_option (Cons (?f (lba + ?o))) (read_loop js (lba + 1) n b)"
    using assms(3) by (auto simp: shadow_lookup [OF assms(1,2)] blockdev_read_sectors_def disk_def append_Cons [abs_def] split: option.splits)
  have e: "lba + 1 + ?o = lba + ?o + 1" by simp
  show ?case unfolding r Suc.IH e using shift_sectors [of ?f "lba + ?o" n] by (simp add: upt_conv_Cons del: upt_Suc)
qed simp

lemma txn_read:
  assumes "journal_inv js" "sound b"
  shows "rust_journal_read_sectors lba n js b = Some (map (\<lambda>i. txn_view js b (lba + partition_offset b + of_nat i)) [0..<n])"
  using assms by (simp add: rust_journal_read_sectors_def read_sectors_internal_def read_loop_view txn_view_def journal_inv_def
      blockdev_read_sectors_def device_read_sound)

text \<open>A call outside a transaction needs the power for its sectors; inside one nothing is written yet.\<close>

lemma txn_write:
  assumes inv: "journal_inv js" "sound b" and xs: "\<forall>x \<in> set xs. length x = SECTOR_SIZE" and pw: "length xs \<le> charge b"
    and w: "rust_journal_write_sectors lba xs js b = (True, js', b')"
  shows "txn_view js' b' = apply_writes (numbered (lba + partition_offset b) xs) (txn_view js b)"
    and "journal_inv js'" "sound b'" "partition_offset b' = partition_offset b" "depth js' = depth js"
proof -
  have "txn_view js' b' = apply_writes (numbered (lba + partition_offset b) xs) (txn_view js b)
      \<and> journal_inv js' \<and> sound b' \<and> partition_offset b' = partition_offset b \<and> depth js' = depth js"
  proof (cases "depth js = 0")
    case True
    then have "js' = js" "b' = put_all (numbered (lba + partition_offset b) xs) b"
      using w inv by (auto simp: rust_journal_write_sectors_def write_sectors_internal_def blockdev_write_sectors_def device_write_sound)
    then show ?thesis using True inv pw by (simp add: txn_view_def disk_put_all)
  next
    case False
    have ok: "journal_ok js" "\<not> targets_absolute js" using inv by (simp_all add: journal_inv_def)
    obtain k js1 where wl: "write_loop lba xs js = (k = length xs, js1)" "journal_ok js1"
      and eq: "js1 = js\<lparr>shadow_lba := shadow_lba js1, shadow_data := shadow_data js1, shadow_count := shadow_count js1\<rparr>"
      and app: "\<forall>off D. apply_writes (placed js1 off) D = apply_writes (take k (numbered (lba + off) xs)) (apply_writes (placed js off) D)"
      using write_loop_view [OF ok xs, of lba] by auto
    have js': "js' = js1" "b' = b" "k = length xs"
      using w False wl(1) by (auto simp: rust_journal_write_sectors_def write_sectors_internal_def)
    have "depth js1 = depth js" "targets_absolute js1 = targets_absolute js" by (subst eq, simp)+
    then show ?thesis using js' app wl(2) ok False inv(2) by (simp add: txn_view_def journal_inv_def)
  qed
  then show "txn_view js' b' = apply_writes (numbered (lba + partition_offset b) xs) (txn_view js b)"
    "journal_inv js'" "sound b'" "partition_offset b' = partition_offset b" "depth js' = depth js" by simp_all
qed

section \<open>Transactions\<close>

text \<open>
  The shape of the two write entry points of \<open>src/kernel/fs/fat32.c\<close>: begin, the sector writes, then a commit in
  every case; and the part of \<open>vfs_init\<close> that recovers the journal at boot.
\<close>

fun journal_write_all :: "(u32 \<times> bytes list) list \<Rightarrow> journal \<Rightarrow> blockdev \<Rightarrow> bool \<times> journal \<times> blockdev" where
  "journal_write_all [] js b = (True, js, b)"
| "journal_write_all ((lba, xs) # ws) js b =
    (case rust_journal_write_sectors lba xs js b of
       (False, js1, b1) \<Rightarrow> (False, js1, b1)
     | (True, js1, b1) \<Rightarrow> journal_write_all ws js1 b1)"

definition run_transaction :: "(u32 \<times> bytes list) list \<Rightarrow> journal \<Rightarrow> blockdev \<Rightarrow> bool \<times> journal \<times> blockdev" where
  "run_transaction ws js b =
    (case journal_write_all ws (rust_journal_begin js) b of (result, js1, b1) \<Rightarrow>
      (case rust_journal_commit js1 b1 of (ok, js2, b2) \<Rightarrow> (ok \<and> result, js2, b2)))"

definition vfs_init_journal :: "u32 \<Rightarrow> u32 \<Rightarrow> u32 \<Rightarrow> blockdev \<Rightarrow> i32 \<times> journal \<times> blockdev" where
  "vfs_init_journal fs_start start len b =
    (let b1 = blockdev_set_partition_offset fs_start b in
     rust_journal_recover (rust_journal_configure start len journal_new b1) b1)"

definition boots :: "u32 \<Rightarrow> u32 \<Rightarrow> u32 \<Rightarrow> nat list \<Rightarrow> blockdev \<Rightarrow> blockdev" where
  "boots fs_start start len ms b = fold (\<lambda>m b. snd (snd (vfs_init_journal fs_start start len (b\<lparr>charge := m\<rparr>)))) ms b"

definition sector_writes :: "u32 \<Rightarrow> (u32 \<times> bytes list) list \<Rightarrow> (u32 \<times> bytes) list" where
  "sector_writes off ws = concat (map (\<lambda>(lba, xs). numbered (lba + off) xs) ws)"

lemma shadow_card: "journal_ok js \<Longrightarrow> card (fst ` set (shadow js)) = shadow_count js"
  using shadow_parts(3,4) [of js] by (simp add: journal_ok_def distinct_card flip: list.set_map)

lemma write_all_view:
  assumes "journal_ok js" "\<not> targets_absolute js" "depth js \<noteq> 0" "\<forall>w \<in> set ws. \<forall>x \<in> set (snd w). length x = SECTOR_SIZE"
    and "card (fst ` set (shadow js) \<union> fst ` set (sector_writes 0 ws)) \<le> MAX_TXN_BLOCKS"
  shows "\<exists>js'. journal_write_all ws js b = (True, js', b) \<and> journal_ok js'
    \<and> js' = js\<lparr>shadow_lba := shadow_lba js', shadow_data := shadow_data js', shadow_count := shadow_count js'\<rparr>
    \<and> fst ` set (shadow js') = fst ` set (shadow js) \<union> fst ` set (sector_writes 0 ws)
    \<and> (\<forall>off D. apply_writes (placed js' off) D = apply_writes (sector_writes off ws) (apply_writes (placed js off) D))"
  using assms
proof (induction ws arbitrary: js)
  case Nil
  then show ?case by (simp add: sector_writes_def)
next
  case (Cons w ws)
  obtain lba xs where w: "w = (lba, xs)" by (cases w)
  have xs: "\<forall>x \<in> set xs. length x = SECTOR_SIZE" using Cons.prems w by auto
  let ?N = "fst ` set (numbered lba xs)" and ?S = "\<lambda>js. fst ` set (shadow js)"
  have sw: "sector_writes off (w # ws) = numbered (lba + off) xs @ sector_writes off ws" for off by (simp add: sector_writes_def w)
  obtain k js1 where wl: "write_loop lba xs js = (k = length xs, js1)" "k \<le> length xs" "journal_ok js1"
    and eq: "js1 = js\<lparr>shadow_lba := shadow_lba js1, shadow_data := shadow_data js1, shadow_count := shadow_count js1\<rparr>"
    and set1: "?S js1 = ?S js \<union> fst ` set (take k (numbered lba xs))"
    and full: "k < length xs \<longrightarrow> shadow_count js1 = MAX_TXN_BLOCKS \<and> lba + of_nat k \<notin> ?S js1"
    and app: "\<forall>off D. apply_writes (placed js1 off) D = apply_writes (take k (numbered (lba + off) xs)) (apply_writes (placed js off) D)"
    using write_loop_view [OF Cons.prems(1,2) xs, of lba] by auto
  have k: "k = length xs"
  proof (rule ccontr)
    assume "k \<noteq> length xs"
    then have f: "k < length xs" "shadow_count js1 = MAX_TXN_BLOCKS" "lba + of_nat k \<notin> ?S js1" using wl(2) full by auto
    have "numbered lba xs ! k \<in> set (numbered lba xs)" using f by (simp add: nth_mem)
    then have "lba + of_nat k \<in> ?N" using f by (force simp: nth_numbered)
    moreover have "?S js1 \<subseteq> ?S js \<union> ?N" unfolding set1 using set_take_subset [of k "numbered lba xs"] by auto
    ultimately have "insert (lba + of_nat k) (?S js1) \<subseteq> ?S js \<union> fst ` set (sector_writes 0 (w # ws))" by (auto simp: sw)
    then have "card (insert (lba + of_nat k) (?S js1)) \<le> MAX_TXN_BLOCKS" using Cons.prems(5) by (meson List.finite_set card_mono finite_UnI finite_imageI order_trans)
    then show False using f shadow_card [OF wl(3)] by simp
  qed
  have keep: "targets_absolute js1 = targets_absolute js" "depth js1 = depth js" by (subst eq, simp)+
  have s1: "?S js1 = ?S js \<union> ?N" using set1 k by simp
  have "card (?S js1 \<union> fst ` set (sector_writes 0 ws)) \<le> MAX_TXN_BLOCKS" using Cons.prems(5) by (simp add: s1 sw image_Un Un_assoc)
  then obtain js' where j: "journal_write_all ws js1 b = (True, js', b)" "journal_ok js'"
    "js' = js1\<lparr>shadow_lba := shadow_lba js', shadow_data := shadow_data js', shadow_count := shadow_count js'\<rparr>"
    "?S js' = ?S js1 \<union> fst ` set (sector_writes 0 ws)"
    "\<forall>off D. apply_writes (placed js' off) D = apply_writes (sector_writes off ws) (apply_writes (placed js1 off) D)"
    using Cons.IH [of js1] wl(3) Cons.prems keep by auto
  have "js' = js\<lparr>shadow_lba := shadow_lba js', shadow_data := shadow_data js', shadow_count := shadow_count js'\<rparr>"
    by (subst j(3), subst eq) simp
  moreover have "journal_write_all (w # ws) js b = (True, js', b)"
    using j(1) wl(1) k Cons.prems(3) by (simp add: w rust_journal_write_sectors_def write_sectors_internal_def)
  ultimately show ?case using j(2,4,5) app k by (intro exI [of _ js']) (simp add: sw s1 image_Un Un_assoc)
qed

lemma sector_writes_shift: "fst ` set (sector_writes off ws) = (\<lambda>l. l + off) ` fst ` set (sector_writes 0 ws)"
proof -
  have n: "map fst (numbered (l + off) xs) = map (\<lambda>l. l + off) (map fst (numbered l xs))" for l xs
    by (simp add: map_fst_numbered algebra_simps)
  have "map fst (sector_writes off ws) = map (\<lambda>l. l + off) (map fst (sector_writes 0 ws))"
  proof (induction ws)
    case (Cons w ws)
    obtain l xs where w: "w = (l, xs)" by (cases w)
    show ?case using Cons n [of l xs] by (simp add: sector_writes_def w)
  qed (simp add: sector_writes_def)
  then show ?thesis by (metis list.set_map)
qed

definition idle :: "journal \<Rightarrow> bool" where
  "idle js \<longleftrightarrow> journal_inv js \<and> depth js = 0 \<and> shadow_count js = 0"

lemma idle_new: "idle (rust_journal_configure start len journal_new b)"
  by (simp add: idle_def journal_inv_def journal_ok_def rust_journal_configure_def journal_new_def)

text \<open>What a transaction writes, in order, and how much of it a given power supply lets through.\<close>

lemma transaction_trace:
  assumes b: "sound b" "journal_region_usable js b" and js: "idle js" "journal_start_lba js = start"
    and ws: "\<forall>w \<in> set ws. \<forall>x \<in> set (snd w). length x = SECTOR_SIZE" "card (fst ` set (sector_writes 0 ws)) \<le> MAX_TXN_BLOCKS"
  shows "\<exists>js1 js2. run_transaction ws js b = (True, js2, put_all (commit_writes js1 (partition_offset b)) b)
    \<and> idle js2 \<and> journal_start_lba js2 = start \<and> journal_region_usable js2 b
    \<and> journal_ok js1 \<and> journal_start_lba js1 = start \<and> shadow_count js1 = card (fst ` set (sector_writes 0 ws))
    \<and> fst ` set (placed js1 (partition_offset b)) = fst ` set (sector_writes (partition_offset b) ws)
    \<and> (\<forall>D. apply_writes (placed js1 (partition_offset b)) D = apply_writes (sector_writes (partition_offset b) ws) D)"
proof -
  let ?o = "partition_offset b" let ?js = "rust_journal_begin js"
  have i: "journal_ok ?js" "\<not> targets_absolute ?js" "depth ?js = 1" "shadow ?js = []" "placed ?js ?o = []"
    using js(1) by (auto simp: idle_def journal_inv_def journal_ok_def rust_journal_begin_def shadow_def placed_def)
  obtain js1 where j: "journal_write_all ws ?js b = (True, js1, b)" "journal_ok js1"
    and eq: "js1 = ?js\<lparr>shadow_lba := shadow_lba js1, shadow_data := shadow_data js1, shadow_count := shadow_count js1\<rparr>"
    and S: "fst ` set (shadow js1) = fst ` set (sector_writes 0 ws)"
    and app: "\<forall>off D. apply_writes (placed js1 off) D = apply_writes (sector_writes off ws) (apply_writes (placed ?js off) D)"
    using write_all_view [OF i(1,2) _ ws(1), of b] i(3,4) ws(2) by auto
  have f: "depth js1 = 1" "\<not> targets_absolute js1" "journal_start_lba js1 = start" "configured js1 = configured js" "configured_device js1 = configured_device js"
    using i(2,3) js(2) by (subst eq, simp add: rust_journal_begin_def)+
  have u: "journal_region_usable js1 b" using b(2) f by (simp add: journal_region_usable_def)
  obtain js2 where c: "rust_journal_commit js1 b = (True, js2, put_all (commit_writes js1 ?o) b)"
    "js2 = js1\<lparr>depth := 0, seq := seq js2, shadow_count := 0, targets_absolute := False\<rparr>"
    using commit_trace [OF b(1) u f(1)] by auto
  have "idle js2" using j(2) by (subst c(2)) (simp add: idle_def journal_inv_def journal_ok_def)
  moreover have "journal_start_lba js2 = start" "journal_region_usable js2 b" using f u by (subst c(2), simp add: journal_region_usable_def)+
  moreover have "fst ` set (placed js1 ?o) = fst ` set (sector_writes ?o ws)"
    unfolding sector_writes_shift [of ?o ws] S [symmetric] placed_relative [OF f(2)] by (simp add: image_image)
  ultimately show ?thesis using j c(1) f(3) S shadow_card [OF j(2)] app i(5)
    by (intro exI [of _ js1] exI [of _ js2]) (simp add: run_transaction_def)
qed

lemma boot_step:
  assumes b: "sound b" "of_nat (DESCRIPTOR_SECTORS + MAX_TXN_BLOCKS) \<le> len"
    and fits: "region_fits start" and pend: "pending_ok start off (disk b)"
    and b'_def: "b' = snd (snd (vfs_init_journal off start len (b\<lparr>charge := m\<rparr>)))"
  shows "journal_view start off (disk b') = journal_view start off (disk b)" "pending_ok start off (disk b')" "sound b'"
    "MAX_TXN_BLOCKS < m \<Longrightarrow> journal_decode start (disk b') = None"
proof -
  let ?b = "blockdev_set_partition_offset off (b\<lparr>charge := m\<rparr>)" let ?js = "rust_journal_configure start len journal_new ?b"
  have d: "disk ?b = disk b" "sound ?b" "partition_offset ?b = off" "charge ?b = m"
    using b(1) by (simp_all add: blockdev_set_partition_offset_def disk_def sound_def)
  have u: "journal_region_usable ?js ?b" "length (shadow_lba ?js) = MAX_TXN_BLOCKS" "length (shadow_data ?js) = MAX_TXN_BLOCKS" "journal_start_lba ?js = start"
    using b(2) by (simp_all add: journal_region_usable_def rust_journal_configure_def journal_new_def)
  have b': "b' = put_all (recover_writes start off (disk b)) ?b"
    using recover_trace [OF d(2) u] d by (simp add: b'_def vfs_init_journal_def Let_def)
  have db: "disk b' = apply_writes (take m (recover_writes start off (disk b))) (disk b)" unfolding b' disk_put_all d by simp
  show "journal_view start off (disk b') = journal_view start off (disk b)" "pending_ok start off (disk b')"
    using crash_recover [OF fits pend, of m] unfolding db by blast+
  show "sound b'" using d(2) by (simp add: b')
  show "journal_decode start (disk b') = None" if "MAX_TXN_BLOCKS < m"
    unfolding db using recover_writes_le [of start off "disk b"] that by (intro recover_length) simp
qed

lemma boots_view:
  assumes "sound b" "of_nat (DESCRIPTOR_SECTORS + MAX_TXN_BLOCKS) \<le> len" "region_fits start" "pending_ok start off (disk b)"
  shows "journal_view start off (disk (boots off start len ms b)) = journal_view start off (disk b)
    \<and> pending_ok start off (disk (boots off start len ms b)) \<and> sound (boots off start len ms b)"
  using assms
proof (induction ms arbitrary: b)
  case (Cons m ms)
  note st = boot_step [OF Cons.prems refl, of m]
  show ?case using Cons.IH [OF st(3) Cons.prems(2,3) st(2)] st(1) by (simp add: boots_def)
qed (simp add: boots_def)

section \<open>Atomicity\<close>

text \<open>
  (C1) A transaction is atomic across power failures.  Let the power fail after any number of sector writes of a
  transaction (\<open>charge b\<close>), let any number of boots then be cut as well (\<open>ms\<close>), and let one boot finish its recovery.
  Outside the journal region the disk holds either exactly what it held before or exactly every write of the
  transaction; the second as soon as the power lasted for the descriptor, the data blocks and the sector with the commit mark.
\<close>

theorem journal_atomic:
  assumes "sound b" "journal_region_usable js b" "idle js" "journal_start_lba js = start" "partition_offset b = off"
    and "region_fits start" "of_nat (DESCRIPTOR_SECTORS + MAX_TXN_BLOCKS) \<le> len" "journal_decode start (disk b) = None"
    and "\<forall>w \<in> set ws. \<forall>x \<in> set (snd w). length x = SECTOR_SIZE" "card (fst ` set (sector_writes 0 ws)) \<le> MAX_TXN_BLOCKS"
    and "\<forall>l \<in> fst ` set (sector_writes off ws). \<not> in_journal start l" "MAX_TXN_BLOCKS < m"
  shows "outside start (disk (boots off start len (ms @ [m]) (snd (snd (run_transaction ws js b)))))
    = outside start (if charge b < card (fst ` set (sector_writes 0 ws)) + 3 then disk b
        else apply_writes (sector_writes off ws) (disk b))"
proof -
  obtain js1 js2 where t: "run_transaction ws js b = (True, js2, put_all (commit_writes js1 off) b)"
    and j: "journal_ok js1" "journal_start_lba js1 = start" "shadow_count js1 = card (fst ` set (sector_writes 0 ws))"
      "fst ` set (placed js1 off) = fst ` set (sector_writes off ws)"
    and app: "\<forall>D. apply_writes (placed js1 off) D = apply_writes (sector_writes off ws) D"
    using transaction_trace [OF assms(1-4) assms(9,10)] assms(5) by auto
  let ?b1 = "put_all (commit_writes js1 off) b"
  have tgt: "\<not> in_journal start (fst w)" if "w \<in> set (placed js1 off)" for w
    using assms(11) j(4) that by (metis imageI)
  have c: "journal_view start off (disk ?b1) = outside start (if charge b < shadow_count js1 + 3 then disk b else apply_writes (placed js1 off) (disk b))"
    "pending_ok start off (disk ?b1)"
    using crash_commit [where n = "charge b", OF j(1) assms(6) j(2) assms(8) tgt] by (simp_all add: disk_put_all)
  have s: "sound ?b1" using assms(1) by simp
  define b2 where "b2 = boots off start len ms ?b1"
  have b2: "journal_view start off (disk b2) = journal_view start off (disk ?b1)" "pending_ok start off (disk b2)" "sound b2"
    using boots_view [OF s assms(7,6) c(2), of ms] by (simp_all add: b2_def)
  define b3 where "b3 = snd (snd (vfs_init_journal off start len (b2\<lparr>charge := m\<rparr>)))"
  note st = boot_step [OF b2(3) assms(7,6) b2(2) b3_def]
  have "boots off start len (ms @ [m]) ?b1 = b3" by (simp add: boots_def b2_def b3_def)
  moreover have "outside start (disk b3) = journal_view start off (disk b3)" using view_decoded(1) [OF st(4) [OF assms(12)]] by simp
  ultimately show ?thesis using st(1) b2(1) c(1) app j(3) by (simp add: t if_distrib)
qed

definition test_journal :: journal where
  "test_journal = rust_journal_configure 1000 200 journal_new
     \<lparr>active_device = 0, partition_offset = 63, medium = (\<lambda>d l. zero_sector), broken = (\<lambda>d l. False), charge = 4\<rparr>"

definition test_disk :: "nat \<Rightarrow> blockdev" where
  "test_disk n = \<lparr>active_device = 0, partition_offset = 63, medium = (\<lambda>d l. zero_sector), broken = (\<lambda>d l. False), charge = n\<rparr>"

lemma test_journal:
  "idle test_journal" "journal_start_lba test_journal = 1000" "journal_region_usable test_journal (test_disk n)" "sound (test_disk n)"
  "journal_decode 1000 (disk (test_disk n)) = None" "region_fits 1000" "partition_offset (test_disk n) = 63" "charge (test_disk n) = n"
proof -
  show "idle test_journal" unfolding test_journal_def by (rule idle_new)
qed (simp_all add: test_journal_def rust_journal_configure_def journal_region_usable_def blockdev_current_def test_disk_def sound_def disk_def
      decode_zeroed region_fits_def BLOCKDEV_ATA_def kconst)

lemma test_writes:
  "card (fst ` set (sector_writes 0 [(5, [replicate 512 7])])) = 1" "fst ` set (sector_writes 63 [(5, [replicate 512 7])]) = {68}"
  "sector_writes 63 [(5, [replicate 512 7])] = [(68, replicate 512 7)]" "\<not> in_journal 1000 68"
  "\<forall>w \<in> set [(5 :: u32, [replicate 512 (7 :: u8)])]. \<forall>x \<in> set (snd w). length x = SECTOR_SIZE"
  "of_nat (DESCRIPTOR_SECTORS + MAX_TXN_BLOCKS) \<le> (200 :: u32)" "MAX_TXN_BLOCKS < 129" "1 \<le> MAX_TXN_BLOCKS"
  by (simp_all add: sector_writes_def in_journal_def kconst)

theorem journal_atomic_witness:
  "outside 1000 (disk (boots 63 1000 200 ([1, 0] @ [129]) (snd (snd (run_transaction [(5, [replicate 512 7])] test_journal (test_disk 4))))))
    = outside 1000 (apply_writes [(68, replicate 512 7)] (disk (test_disk 4)))
   \<and> outside 1000 (disk (boots 63 1000 200 ([1, 0] @ [129]) (snd (snd (run_transaction [(5, [replicate 512 7])] test_journal (test_disk 3))))))
    = outside 1000 (disk (test_disk 3))"
proof -
  have a: "outside 1000 (disk (boots 63 1000 200 ([1, 0] @ [129]) (snd (snd (run_transaction [(5, [replicate 512 7])] test_journal (test_disk n))))))
    = outside 1000 (if charge (test_disk n) < card (fst ` set (sector_writes 0 [(5, [replicate 512 7])])) + 3 then disk (test_disk n)
        else apply_writes (sector_writes 63 [(5, [replicate 512 7])]) (disk (test_disk n)))" for n
    by (intro journal_atomic test_journal test_writes; simp only: test_writes; simp add: test_writes)
  show ?thesis using a [of 4] a [of 3] by (simp only: test_writes test_journal) simp
qed

lemma commit_writes_length: "journal_ok js \<Longrightarrow> length (commit_writes js off) = (if shadow_count js = 0 then 0 else 2 * shadow_count js + 5)"
  using shadow_parts(2,3) [of js] by (simp add: commit_writes_def descriptor_sectors_def placed_def del: length_take)

text \<open>
  (C4) With the power for its \<open>2 n + 5\<close> sectors a transaction over \<open>n\<close> sectors returns true, leaves exactly its writes on
  the disk outside the journal region, and leaves the journal empty and idle, ready for the next transaction.
\<close>

theorem journal_commit_effect:
  assumes "sound b" "journal_region_usable js b" "idle js" "journal_start_lba js = start" "partition_offset b = off"
    and "region_fits start" "journal_decode start (disk b) = None"
    and "\<forall>w \<in> set ws. \<forall>x \<in> set (snd w). length x = SECTOR_SIZE" "card (fst ` set (sector_writes 0 ws)) \<le> MAX_TXN_BLOCKS"
    and "\<forall>l \<in> fst ` set (sector_writes off ws). \<not> in_journal start l"
    and "2 * card (fst ` set (sector_writes 0 ws)) + 5 \<le> charge b"
  shows "\<exists>js' b'. run_transaction ws js b = (True, js', b') \<and> idle js' \<and> journal_decode start (disk b') = None
    \<and> outside start (disk b') = outside start (apply_writes (sector_writes off ws) (disk b))"
proof -
  obtain js1 js2 where t: "run_transaction ws js b = (True, js2, put_all (commit_writes js1 off) b)" "idle js2"
    and j: "journal_ok js1" "journal_start_lba js1 = start" "shadow_count js1 = card (fst ` set (sector_writes 0 ws))"
      "fst ` set (placed js1 off) = fst ` set (sector_writes off ws)"
    and app: "\<forall>D. apply_writes (placed js1 off) D = apply_writes (sector_writes off ws) D"
    using transaction_trace [OF assms(1-4) assms(8,9)] assms(5) by auto
  have tgt: "\<not> in_journal start (fst w)" if "w \<in> set (placed js1 off)" for w
    using assms(10) j(4) that by (metis imageI)
  have "length (commit_writes js1 off) \<le> charge b" using commit_writes_length [OF j(1)] j(3) assms(11) by simp
  then have d: "disk (put_all (commit_writes js1 off) b) = apply_writes (commit_writes js1 off) (disk b)" by (simp add: disk_put_all)
  have quiet: "journal_decode start (apply_writes (commit_writes js1 off) (disk b)) = None"
    using assms(7) j(2) by (cases "shadow_count js1 = 0") (simp_all add: commit_writes_def decode_zeroed)
  have "journal_view start off (apply_writes (take (charge b) (commit_writes js1 off)) (disk b))
    = outside start (if charge b < shadow_count js1 + 3 then disk b else apply_writes (placed js1 off) (disk b))"
    by (rule conjunct1 [OF crash_commit [OF j(1) assms(6) j(2) assms(7) tgt]])
  moreover have "take (charge b) (commit_writes js1 off) = commit_writes js1 off" using \<open>length _ \<le> charge b\<close> by simp
  ultimately have "outside start (apply_writes (commit_writes js1 off) (disk b)) = outside start (apply_writes (sector_writes off ws) (disk b))"
    using view_decoded(1) [OF quiet, of off] assms(11) j(3) app by simp
  then show ?thesis using t d quiet by simp
qed

theorem journal_commit_effect_witness:
  "\<exists>js' b'. run_transaction [(5, [replicate 512 7])] test_journal (test_disk 7) = (True, js', b') \<and> idle js'
    \<and> journal_decode 1000 (disk b') = None
    \<and> outside 1000 (disk b') = outside 1000 (apply_writes (sector_writes 63 [(5, [replicate 512 7])]) (disk (test_disk 7)))"
  by (intro journal_commit_effect test_journal test_writes; simp only: test_writes test_journal; simp add: test_writes kconst)



section \<open>Reads and writes\<close>

lemma numbered_distinct:
  assumes "length xs < 256"
  shows "distinct (map fst (numbered l xs))"
proof -
  have u: "unat (of_nat i :: u32) = i" if "i < length xs" for i using that assms by (simp add: unat_of_nat_small)
  have "i = j" if "i < length xs" "j < length xs" "of_nat i = (of_nat j :: u32)" for i j
    using u [OF that(1)] u [OF that(2)] that(3) by metis
  then show ?thesis unfolding map_fst_numbered distinct_map by (auto intro: inj_onI)
qed

text \<open>
  (C5) Sectors written through the journal are read back: after a write of \<open>xs\<close> that returned true, inside a transaction or
  outside one, a read of the same sectors returns \<open>xs\<close>.
\<close>

theorem journal_write_read:
  assumes "journal_inv js" "sound b" "\<forall>x \<in> set xs. length x = SECTOR_SIZE" "length xs \<le> charge b" "length xs < 256"
    and "rust_journal_write_sectors lba xs js b = (True, js', b')"
  shows "rust_journal_read_sectors lba (length xs) js' b' = Some xs"
proof -
  let ?l = "lba + partition_offset b"
  note w = txn_write [OF assms(1-4,6)]
  have "txn_view js' b' (?l + of_nat i) = xs ! i" if "i < length xs" for i
  proof -
    note inj = numbered_distinct [OF assms(5), of ?l]
    have "(?l + of_nat i, xs ! i) \<in> set (numbered ?l xs)" using nth_numbered [OF that, of ?l] that by (metis length_numbered nth_mem)
    then have "map_of (numbered ?l xs) (?l + of_nat i) = Some (xs ! i)" using inj by simp
    then show ?thesis unfolding w(1) by (simp add: apply_writes_distinct [OF inj])
  qed
  then have "map (\<lambda>i. txn_view js' b' (?l + of_nat i)) [0..<length xs] = xs" by (auto intro: nth_equalityI)
  then show ?thesis using txn_read [OF w(2,3)] w(4) by simp
qed

theorem journal_write_read_witness:
  "\<exists>js' b'. rust_journal_write_sectors 5 [replicate 512 7, replicate 512 8] (rust_journal_begin test_journal) (test_disk 9) = (True, js', b')
    \<and> rust_journal_read_sectors 5 2 js' b' = Some [replicate 512 7, replicate 512 8]"
proof -
  let ?js = "rust_journal_begin test_journal" and ?xs = "[replicate 512 7, replicate 512 8 :: bytes]"
  have i: "journal_inv ?js" "depth ?js \<noteq> 0" "shadow_count ?js = 0"
    using test_journal(1) by (auto simp: idle_def journal_inv_def journal_ok_def rust_journal_begin_def)
  have "card (fst ` set (shadow ?js) \<union> fst ` set (sector_writes 0 [(5, ?xs)])) \<le> MAX_TXN_BLOCKS"
    using i(3) by (simp add: shadow_def sector_writes_def kconst)
  then obtain js' where "journal_write_all [(5, ?xs)] ?js (test_disk 9) = (True, js', test_disk 9)"
    using write_all_view [of ?js "[(5, ?xs)]" "test_disk 9"] i by (auto simp: journal_inv_def kconst)
  then have w: "rust_journal_write_sectors 5 ?xs ?js (test_disk 9) = (True, js', test_disk 9)"
    by (auto split: prod.splits bool.splits)
  show ?thesis using journal_write_read [OF i(1) test_journal(4) _ _ _ w] w by (simp add: test_journal kconst numeral_2_eq_2)
qed

text \<open>
  (C25) When the shadow table has room for one more sector, a write of two new sectors returns false and still buffers the
  first of them: the transaction, which its caller commits in any case, has then part of the call.
\<close>

theorem journal_overflow_keeps_prefix:
  assumes "journal_inv js" "depth js \<noteq> 0" "shadow_count js = MAX_TXN_BLOCKS - 1"
    and "find_shadow js lba = None" "find_shadow js (lba + 1) = None" "length x = SECTOR_SIZE"
  shows "\<exists>js'. rust_journal_write_sectors lba [x, y] js b = (False, js', b) \<and> find_shadow js' lba = Some (MAX_TXN_BLOCKS - 1)
    \<and> txn_view js' b = (txn_view js b)(lba + partition_offset b := x)"
proof -
  have ok: "journal_ok js" "\<not> targets_absolute js" and n: "shadow_count js < MAX_TXN_BLOCKS"
    using assms(1,3) by (simp_all add: journal_inv_def kconst)
  define js' where "js' = js\<lparr>shadow_lba := (shadow_lba js)[shadow_count js := lba], shadow_count := shadow_count js + 1,
            shadow_data := (shadow_data js)[shadow_count js := x]\<rparr>"
  note sp = shadow_insert [OF ok assms(6) assms(4) n js'_def]
  have L: "take (shadow_count js') (shadow_lba js') = take (shadow_count js) (shadow_lba js) @ [lba]"
    using ok(1) n by (simp add: js'_def journal_ok_def take_Suc_conv_app_nth)
  have len: "length (take (shadow_count js) (shadow_lba js)) = shadow_count js" by (rule shadow_parts(1) [OF ok(1)])
  have f: "find_shadow js' lba = Some (shadow_count js)"
    using assms(4) len unfolding find_shadow_def L by (simp add: position_snoc)
  have "find_shadow js' (lba + 1) = None" using assms(5) unfolding find_shadow_def L by (auto simp: position_None)
  then have "rust_journal_write_sectors lba [x, y] js b = (False, js', b)"
    using assms(2-4) n by (simp add: rust_journal_write_sectors_def write_sectors_internal_def Let_def js'_def [symmetric])
      (simp add: js'_def kconst)
  then show ?thesis using f sp assms(2,3) by (intro exI [of _ js']) (simp add: txn_view_def js'_def [symmetric], simp add: js'_def)
qed

theorem journal_overflow_keeps_prefix_witness:
  "\<exists>js js'. journal_inv js \<and> rust_journal_write_sectors 5000 [replicate 512 7, replicate 512 8] js (test_disk 9) = (False, js', test_disk 9)
    \<and> find_shadow js 5000 = None \<and> find_shadow js' 5000 = Some 127"
proof -
  define js where "js = test_journal\<lparr>depth := 1, shadow_count := 127, shadow_lba := map of_nat [0..<128]\<rparr>"
  have t: "length (shadow_data test_journal) = 128" "shadow_data test_journal = replicate MAX_TXN_BLOCKS (replicate SECTOR_SIZE 0)" "\<not> targets_absolute test_journal"
    by (simp_all add: test_journal_def rust_journal_configure_def journal_new_def kconst)
  have L: "take (shadow_count js) (shadow_lba js) = map of_nat [0..<127]" by (simp add: js_def take_map)
  have "inj_on (of_nat :: nat \<Rightarrow> u32) {0..<127}"
    by (rule inj_on_inverseI [of _ unat]) (simp add: unat_of_nat_small)
  then have inv: "journal_inv js" using t L by (auto simp: journal_inv_def journal_ok_def js_def distinct_map kconst dest: in_set_takeD)
  have no: "find_shadow js l = None" if "unat l \<ge> 127" for l
    using that unfolding find_shadow_def L by (auto simp: position_None unat_of_nat_small)
  have "\<exists>js'. rust_journal_write_sectors 5000 [replicate 512 7, replicate 512 8] js (test_disk 9) = (False, js', test_disk 9)
      \<and> find_shadow js' 5000 = Some (MAX_TXN_BLOCKS - 1)
      \<and> txn_view js' (test_disk 9) = (txn_view js (test_disk 9))(5000 + partition_offset (test_disk 9) := replicate 512 7)"
    by (rule journal_overflow_keeps_prefix [OF inv]; (rule no)?; simp add: js_def kconst)
  then show ?thesis using inv no [of 5000] by (auto simp: kconst)
qed

end
