(* ===== verification/Spec2Isabelle.thy ===== *)
theory Spec2Isabelle
  imports Prelude Klog Pipe Growtable Msg Mac Fwsafety Shmrun Journaltxn
begin

text \<open>
  Verification of the Rust kernel components of NovaOS (\<open>src/kernel/rust\<close>).
\<close>

end
